(* ===== verification/Prelude.thy ===== *)
theory Prelude
  imports Main "HOL-Library.Word"
begin

text \<open>
  Shared ground of the development: the machine integer types of the source, the
  collections of simplification rules the component theories fill, and the generic facts
  on lists, options and words that more than one component uses.
\<close>

type_synonym u8 = "8 word"
type_synonym u16 = "16 word"
type_synonym u32 = "32 word"

text \<open>Object identities: a pointer value of the C++ program is an address, a null pointer \<open>None\<close>.\<close>

type_synonym addr = nat
type_synonym ptr = "addr option"

text \<open>
  \<open>queue_simps\<close>: effects on the event queue. \<open>trace_simps\<close>: effects on the call trace.
  \<open>frame_simps\<close>: fields an operation leaves alone. \<open>inv_intros\<close>: preservation of invariants.
\<close>

named_theorems queue_simps
named_theorems trace_simps
named_theorems frame_simps
named_theorems inv_intros

section \<open>Lists\<close>

lemma last_append_ne: "ys \<noteq> [] \<Longrightarrow> last (xs @ ys) = last ys"
  by simp

lemma filter_none_id: "\<forall>x \<in> set xs. P x \<Longrightarrow> filter P xs = xs"
  by (induction xs) auto

lemma filter_not_none [simp]: "filter P (filter (\<lambda>x. \<not> P x) xs) = []"
  by (induction xs) auto

lemma length_filter_split:
  "length (filter P xs) + length (filter (\<lambda>x. \<not> P x) xs) = length xs"
  by (induction xs) auto

lemma take_drop_slice: "n \<le> m \<Longrightarrow> m \<le> length xs \<Longrightarrow> take (m - n) (drop n xs) = drop n (take m xs)"
  by (simp add: drop_take)

lemma prefix_take_append: "length xs \<le> n \<Longrightarrow> take n (xs @ ys) = xs @ take (n - length xs) ys"
  by simp

text \<open>\<open>memcpy\<close> into a block.\<close>

definition blit :: "nat \<Rightarrow> u8 list \<Rightarrow> u8 list \<Rightarrow> u8 list" where
  "blit at src mem = take at mem @ src @ drop (at + length src) mem"

section \<open>Options\<close>

lemma case_option_same [simp]: "(case x of None \<Rightarrow> a | Some _ \<Rightarrow> a) = a"
  by (cases x) auto

lemma not_None_Some: "x \<noteq> None \<Longrightarrow> \<exists>y. x = Some y"
  by (cases x) auto

section \<open>Words\<close>

lemma word_lt_of_nat_mod:
  "unat (x mod y :: u32) < unat y" if "y \<noteq> 0"
  using that by (simp add: unat_mod unat_gt_0)

lemma unat_sub_wrap:
  "unat (a - b :: u32) = (if unat b \<le> unat a then unat a - unat b else 2 ^ 32 + unat a - unat b)"
  by (auto simp: unat_sub_if_size word_size)

end
