(* ===== verification/Lwip.thy ===== *)
theory Lwip
  imports Prelude
begin

text \<open>
  The vocabulary the library shares with lwIP: error codes, connection states, packet buffers,
  and the record of the calls the library makes into lwIP and into the application. lwIP is not
  part of the repository: nothing here says what a call does inside lwIP. A call is an entry of a
  trace, and what it returns is a parameter (the record \<open>lwip\<close>), a function of the whole trace so far.
\<close>

section \<open>Error codes and connection states\<close>

text \<open>
  \<open>err_t\<close>. The named codes are the ones \<open>AsyncClient::errorToString\<close> distinguishes; \<open>Err_num\<close> is any
  other value of the 8-bit integer (the library itself uses -1, -55, -60 and -61).
\<close>

datatype err =
    ERR_OK | ERR_MEM | ERR_BUF | ERR_TIMEOUT | ERR_RTE | ERR_INPROGRESS | ERR_VAL | ERR_WOULDBLOCK
  | ERR_USE | ERR_ALREADY | ERR_ISCONN | ERR_CONN | ERR_IF | ERR_ABRT | ERR_RST | ERR_CLSD | ERR_ARG
  | Err_num int

definition errorToString :: "err \<Rightarrow> string" where
  "errorToString error =
     (case error of
        ERR_OK \<Rightarrow> ''OK''
      | ERR_MEM \<Rightarrow> ''Out of memory error''
      | ERR_BUF \<Rightarrow> ''Buffer error''
      | ERR_TIMEOUT \<Rightarrow> ''Timeout''
      | ERR_RTE \<Rightarrow> ''Routing problem''
      | ERR_INPROGRESS \<Rightarrow> ''Operation in progress''
      | ERR_VAL \<Rightarrow> ''Illegal value''
      | ERR_WOULDBLOCK \<Rightarrow> ''Operation would block''
      | ERR_USE \<Rightarrow> ''Address in use''
      | ERR_ALREADY \<Rightarrow> ''Already connecting''
      | ERR_ISCONN \<Rightarrow> ''Already connected''
      | ERR_CONN \<Rightarrow> ''Not connected''
      | ERR_IF \<Rightarrow> ''Low-level netif error''
      | ERR_ABRT \<Rightarrow> ''Connection aborted''
      | ERR_RST \<Rightarrow> ''Connection reset''
      | ERR_CLSD \<Rightarrow> ''Connection closed''
      | ERR_ARG \<Rightarrow> ''Illegal argument''
      | Err_num i \<Rightarrow> if i = -55 then ''DNS failed'' else ''UNKNOWN'')"

text \<open>\<open>enum tcp_state\<close>, in the order \<open>AsyncClientImpl::stateToString\<close> lists it; the code compares states with \<open><\<close>.\<close>

datatype tcp_state =
    CLOSED | LISTEN | SYN_SENT | SYN_RCVD | ESTABLISHED | FIN_WAIT_1 | FIN_WAIT_2 | CLOSE_WAIT
  | CLOSING | LAST_ACK | TIME_WAIT

fun state_num :: "tcp_state \<Rightarrow> nat" where
  "state_num CLOSED = 0" | "state_num LISTEN = 1" | "state_num SYN_SENT = 2" | "state_num SYN_RCVD = 3"
| "state_num ESTABLISHED = 4" | "state_num FIN_WAIT_1 = 5" | "state_num FIN_WAIT_2 = 6"
| "state_num CLOSE_WAIT = 7" | "state_num CLOSING = 8" | "state_num LAST_ACK = 9" | "state_num TIME_WAIT = 10"

lemma state_num_inj: "state_num a = state_num b \<Longrightarrow> a = b"
  by (cases a; cases b) simp_all

instantiation tcp_state :: linorder
begin

definition less_eq_tcp_state :: "tcp_state \<Rightarrow> tcp_state \<Rightarrow> bool" where
  "less_eq_tcp_state a b \<longleftrightarrow> state_num a \<le> state_num b"

definition less_tcp_state :: "tcp_state \<Rightarrow> tcp_state \<Rightarrow> bool" where
  "less_tcp_state a b \<longleftrightarrow> state_num a < state_num b"

instance
  by standard (auto simp: less_eq_tcp_state_def less_tcp_state_def intro: state_num_inj)

end

definition state_name :: "nat \<Rightarrow> string" where
  "state_name n =
     (if n = 0 then ''Closed'' else if n = 1 then ''Listen'' else if n = 2 then ''SYN Sent''
      else if n = 3 then ''SYN Received'' else if n = 4 then ''Established''
      else if n = 5 then ''FIN Wait 1'' else if n = 6 then ''FIN Wait 2''
      else if n = 7 then ''Close Wait'' else if n = 8 then ''Closing''
      else if n = 9 then ''Last ACK'' else if n = 10 then ''Time Wait'' else ''UNKNOWN'')"

section \<open>Packet buffers, addresses, identities\<close>

type_synonym pcb = nat
type_synonym cid = nat
type_synonym sid = nat
type_synonym handler = nat

text \<open>One buffer of a chain; a \<open>struct pbuf *\<close> is the list of the chain, null the empty list.\<close>

record pbuf =
  pb_id :: nat
  pb_data :: "u8 list"

definition pb_len :: "pbuf \<Rightarrow> u16" where
  "pb_len b = of_nat (length (pb_data b))"

text \<open>\<open>ip_addr_t\<close>: a type tag and four words; an IPv4 address is the first word.\<close>

record ip_addr =
  ip_v6 :: bool
  ip_w0 :: u32
  ip_w1 :: u32
  ip_w2 :: u32
  ip_w3 :: u32

definition ip_zero :: ip_addr where
  "ip_zero = \<lparr>ip_v6 = False, ip_w0 = 0, ip_w1 = 0, ip_w2 = 0, ip_w3 = 0\<rparr>"

section \<open>The calls\<close>

text \<open>
  Calls into the application: the callback, the handler registered for it, its arguments. An entry
  \<open>App c f e\<close> is the callback \<open>e\<close> of client \<open>c\<close>; \<open>f\<close> says whether the facade pointer it is given is valid.
\<close>

datatype cbev =
    Cb_connect handler
  | Cb_discard handler
  | Cb_server_discard handler
  | Cb_sent handler u16 u32
  | Cb_error handler err
  | Cb_recv handler "u8 list"
  | Cb_packet handler pbuf
  | Cb_timeout handler u32
  | Cb_poll handler

datatype call =
    Tcp_arg pcb "nat option"
  | Tcp_recv pcb bool
  | Tcp_sent pcb bool
  | Tcp_err pcb bool
  | Tcp_poll pcb bool
  | Tcp_accept pcb bool
  | Tcp_close pcb
  | Tcp_abort pcb
  | Tcp_recved pcb u32
  | Tcp_write pcb "u8 list" u8
  | Tcp_output pcb
  | Tcp_connect pcb ip_addr u16
  | Tcp_bind pcb ip_addr u16
  | Tcp_listen pcb u8
  | Tcp_new
  | Tcp_nagle pcb bool
  | Tcp_keepalive pcb u32 u8
  | Dns_query string
  | Pbuf_free "pbuf list"
  | Pbuf_chain "pbuf list" "pbuf list"
  | New_object
  | Start_task
  | Schedule
  | App cid bool cbev
  | App_client sid handler cid
  | Ssl_start cid
  | Ssl_handshake cid
  | Ssl_write cid "u8 list"
  | Ssl_read cid nat
  | Ssl_bio cid int "u8 list"
  | Yield
  | Engine_data nat "u8 list"
  | Engine_handshake nat
  | Engine_error nat int

text \<open>
  What the environment answers. Each field is a function of the trace of all calls made so far, so
  that two calls with the same arguments may be answered differently. \<open>no_sys\<close> is the build
  switch \<open>NO_SYS\<close> (true on ESP8266). \<open>ip_isany\<close> is lwIP's macro of that name.
\<close>

record lwip =
  no_sys :: bool
  millis :: "call list \<Rightarrow> u32"
  alloc_ok :: "call list \<Rightarrow> bool"
  task_ok :: "call list \<Rightarrow> bool"
  schedule_ok :: "call list \<Rightarrow> bool"
  free_heap :: "call list \<Rightarrow> nat"
  new_pcb :: "call list \<Rightarrow> pcb option"
  close_ret :: "call list \<Rightarrow> pcb \<Rightarrow> err"
  write_ret :: "call list \<Rightarrow> pcb \<Rightarrow> err"
  output_ret :: "call list \<Rightarrow> pcb \<Rightarrow> err"
  connect_ret :: "call list \<Rightarrow> pcb \<Rightarrow> err"
  bind_ret :: "call list \<Rightarrow> pcb \<Rightarrow> err"
  listen_ret :: "call list \<Rightarrow> pcb \<Rightarrow> pcb option"
  dns_ret :: "call list \<Rightarrow> err \<times> ip_addr"
  pcb_state :: "call list \<Rightarrow> pcb \<Rightarrow> tcp_state"
  sndbuf :: "call list \<Rightarrow> pcb \<Rightarrow> u32"
  sndqueuelen :: "call list \<Rightarrow> pcb \<Rightarrow> nat"
  snd_queue_max :: nat
  max_block :: "call list \<Rightarrow> nat"
  nagle_disabled :: "call list \<Rightarrow> pcb \<Rightarrow> bool"
  pcb_mss :: "call list \<Rightarrow> pcb \<Rightarrow> u16"
  pcb_remote_ip :: "call list \<Rightarrow> pcb \<Rightarrow> ip_addr"
  pcb_local_ip :: "call list \<Rightarrow> pcb \<Rightarrow> ip_addr"
  pcb_remote_port :: "call list \<Rightarrow> pcb \<Rightarrow> u16"
  pcb_local_port :: "call list \<Rightarrow> pcb \<Rightarrow> u16"
  ip_isany :: "ip_addr \<Rightarrow> bool"

text \<open>An environment in which every call succeeds; it shows that hypotheses on an environment can hold.\<close>

definition calm :: lwip where
  "calm =
     \<lparr>no_sys = False, millis = (\<lambda>t. of_nat (length t)), alloc_ok = (\<lambda>_. True), task_ok = (\<lambda>_. True),
      schedule_ok = (\<lambda>_. True), free_heap = (\<lambda>_. 200000), new_pcb = (\<lambda>t. Some (length t)), close_ret = (\<lambda>_ _. ERR_OK),
      write_ret = (\<lambda>_ _. ERR_OK), output_ret = (\<lambda>_ _. ERR_OK), connect_ret = (\<lambda>_ _. ERR_OK),
      bind_ret = (\<lambda>_ _. ERR_OK), listen_ret = (\<lambda>_ p. Some p), dns_ret = (\<lambda>_. (ERR_INPROGRESS, ip_zero)),
      pcb_state = (\<lambda>_ _. ESTABLISHED), sndbuf = (\<lambda>_ _. 5744), sndqueuelen = (\<lambda>_ _. 0), snd_queue_max = 16,
      max_block = (\<lambda>_. 100000), nagle_disabled = (\<lambda>_ _. False),
      pcb_mss = (\<lambda>_ _. 1436), pcb_remote_ip = (\<lambda>_ _. ip_zero), pcb_local_ip = (\<lambda>_ _. ip_zero),
      pcb_remote_port = (\<lambda>_ _. 443), pcb_local_port = (\<lambda>_ _. 49152), ip_isany = (\<lambda>a. a = ip_zero)\<rparr>"

lemma state_name_known: "state_name (state_num s) \<noteq> ''UNKNOWN''"
  by (cases s) (simp_all add: state_name_def)

end
