(* ===== verification/Intrusive_List.thy ===== *)
theory Intrusive_List
  imports Prelude
begin

text \<open>
  The class template of \<open>src/AsyncTCPSimpleIntrusiveList.h\<close>, on an explicit heap. A node is an
  address; \<open>il_next\<close> is the \<open>next\<close> member of every node. The tail of the class is a pointer to
  a pointer: either the address of the head member or of some node's \<open>next\<close> member, which is
  the datatype \<open>slot\<close>. Loops over the list are \<open>partial_function\<close>s: \<open>None\<close> means that the loop
  does not end (a cyclic chain), and the lemmas show that it ends on every well-formed list.
\<close>

section \<open>State\<close>

datatype slot = Head_slot | Next_slot addr

record ilist =
  il_next :: "addr \<Rightarrow> ptr"
  il_head :: ptr
  il_tail :: slot
  il_size :: nat
  il_deleted :: "addr list"

definition load :: "slot \<Rightarrow> ilist \<Rightarrow> ptr" where
  "load sl l = (case sl of Head_slot \<Rightarrow> il_head l | Next_slot a \<Rightarrow> il_next l a)"

definition store :: "slot \<Rightarrow> ptr \<Rightarrow> ilist \<Rightarrow> ilist" where
  "store sl v l = (case sl of Head_slot \<Rightarrow> l\<lparr>il_head := v\<rparr>
                            | Next_slot a \<Rightarrow> l\<lparr>il_next := (il_next l)(a := v)\<rparr>)"

section \<open>Operations\<close>

definition il_new :: "(addr \<Rightarrow> ptr) \<Rightarrow> ilist" where
  "il_new nx = \<lparr>il_next = nx, il_head = None, il_tail = Head_slot, il_size = 0, il_deleted = []\<rparr>"

definition push_back :: "ptr \<Rightarrow> ilist \<Rightarrow> ilist" where
  "push_back obj l =
     (case obj of None \<Rightarrow> l
      | Some a \<Rightarrow>
          let l1 = store (il_tail l) (Some a) l;
              l2 = l1\<lparr>il_tail := Next_slot a\<rparr>
          in l2\<lparr>il_size := il_size l2 + 1\<rparr>)"

definition push_front :: "ptr \<Rightarrow> ilist \<Rightarrow> ilist" where
  "push_front obj l =
     (case obj of None \<Rightarrow> l
      | Some a \<Rightarrow>
          let l1 = (if il_head l = None then l\<lparr>il_tail := Next_slot a\<rparr> else l);
              l2 = l1\<lparr>il_next := (il_next l1)(a := il_head l1)\<rparr>;
              l3 = l2\<lparr>il_head := Some a\<rparr>
          in l3\<lparr>il_size := il_size l3 + 1\<rparr>)"

definition pop_front :: "ilist \<Rightarrow> ptr \<times> ilist" where
  "pop_front l =
     (case il_head l of None \<Rightarrow> (None, l)
      | Some a \<Rightarrow>
          let l1 = (if il_tail l = Next_slot a then l\<lparr>il_tail := Head_slot\<rparr> else l);
              l2 = l1\<lparr>il_head := il_next l1 a\<rparr>;
              l3 = l2\<lparr>il_size := il_size l2 - 1\<rparr>
          in (Some a, l3))"

text \<open>The loop of \<open>remove_if\<close>: the result chain so far, the pointer to the current link, the list.\<close>

partial_function (option) remove_loop ::
  "(addr \<Rightarrow> bool) \<Rightarrow> ptr \<Rightarrow> slot \<Rightarrow> ilist \<Rightarrow> (ptr \<times> ilist) option" where
  "remove_loop cond removed cp l =
     (case load cp l of
        None \<Rightarrow> Some (removed, l)
      | Some cur \<Rightarrow>
          (if cond cur then
             let nx = il_next l cur;
                 l1 = store cp nx l;
                 l2 = (if nx = None then l1\<lparr>il_tail := cp\<rparr> else l1);
                 l3 = l2\<lparr>il_size := il_size l2 - 1\<rparr>;
                 l4 = l3\<lparr>il_next := (il_next l3)(cur := removed)\<rparr>
             in remove_loop cond (Some cur) cp l4
           else remove_loop cond removed (Next_slot cur) l))"

definition remove_if :: "(addr \<Rightarrow> bool) \<Rightarrow> ilist \<Rightarrow> (ptr \<times> ilist) option" where
  "remove_if cond l = remove_loop cond None Head_slot l"

partial_function (option) list_size_from :: "(addr \<Rightarrow> ptr) \<Rightarrow> ptr \<Rightarrow> nat \<Rightarrow> nat option" where
  "list_size_from nx c count =
     (case c of None \<Rightarrow> Some count | Some a \<Rightarrow> list_size_from nx (nx a) (count + 1))"

definition list_size :: "(addr \<Rightarrow> ptr) \<Rightarrow> ptr \<Rightarrow> nat option" where
  "list_size nx chain = list_size_from nx chain 0"

partial_function (option) delete_list :: "ptr \<Rightarrow> ilist \<Rightarrow> ilist option" where
  "delete_list chain l =
     (case chain of None \<Rightarrow> Some l
      | Some t \<Rightarrow> delete_list (il_next l t) (l\<lparr>il_deleted := il_deleted l @ [t]\<rparr>))"

definition clear :: "ilist \<Rightarrow> ilist option" where
  "clear l =
     (case delete_list (il_head l) l of None \<Rightarrow> None
      | Some l1 \<Rightarrow> Some (l1\<lparr>il_head := None, il_tail := Head_slot, il_size := 0\<rparr>))"

partial_function (option) last_node :: "(addr \<Rightarrow> ptr) \<Rightarrow> addr \<Rightarrow> addr option" where
  "last_node nx p = (case nx p of None \<Rightarrow> Some p | Some q \<Rightarrow> last_node nx q)"

definition validate_tail :: "ilist \<Rightarrow> bool option" where
  "validate_tail l =
     (case il_head l of
        None \<Rightarrow> Some (il_tail l = Head_slot)
      | Some p \<Rightarrow> (case last_node (il_next l) p of None \<Rightarrow> None
                 | Some q \<Rightarrow> Some (il_tail l = Next_slot q)))"

section \<open>Chains and well-formed lists\<close>

fun chain :: "(addr \<Rightarrow> ptr) \<Rightarrow> ptr \<Rightarrow> addr list \<Rightarrow> ptr \<Rightarrow> bool" where
  "chain nx p [] q \<longleftrightarrow> p = q"
| "chain nx p (a # as) q \<longleftrightarrow> p = Some a \<and> chain nx (nx a) as q"

definition tail_slot :: "slot \<Rightarrow> addr list \<Rightarrow> slot" where
  "tail_slot sl xs = (if xs = [] then sl else Next_slot (last xs))"

definition wf_list :: "ilist \<Rightarrow> addr list \<Rightarrow> bool" where
  "wf_list l xs \<longleftrightarrow> chain (il_next l) (il_head l) xs None \<and> distinct xs
     \<and> il_tail l = tail_slot Head_slot xs \<and> il_size l = length xs"

lemma chain_append: "chain nx p (xs @ ys) q \<longleftrightarrow> (\<exists>r. chain nx p xs r \<and> chain nx r ys q)"
  by (induction xs arbitrary: p) auto

lemma chain_upd [simp]: "a \<notin> set xs \<Longrightarrow> chain (nx(a := v)) p xs q = chain nx p xs q"
  by (induction xs arbitrary: p) auto

lemma chain_None [simp]: "chain nx None xs q \<longleftrightarrow> xs = [] \<and> q = None"
  by (cases xs) auto

lemma chain_snoc: "chain nx p xs (Some a) \<Longrightarrow> a \<notin> set xs \<Longrightarrow> chain (nx(a := q)) p (xs @ [a]) q"
  by (auto simp: chain_append)

lemma chain_unique: "chain nx p xs None \<Longrightarrow> chain nx p ys None \<Longrightarrow> xs = ys"
proof (induction xs arbitrary: p ys)
  case Nil
  then show ?case by (cases ys) auto
next
  case (Cons a xs)
  then show ?case by (cases ys) auto
qed

lemma tail_slot_simps [simp]:
  "tail_slot sl [] = sl"
  "tail_slot sl (xs @ [a]) = Next_slot a"
  by (auto simp: tail_slot_def)

section \<open>Functional behaviour of the operations\<close>

lemma wf_new: "wf_list (il_new nx) []"
  by (simp add: wf_list_def il_new_def)

lemma push_back_wf:
  assumes "wf_list l xs" and "a \<notin> set xs" and "il_next l a = None"
  shows "wf_list (push_back (Some a) l) (xs @ [a])"
proof (cases xs rule: rev_cases)
  case Nil
  with assms show ?thesis
    by (simp add: wf_list_def push_back_def store_def tail_slot_def)
next
  case (snoc ys b)
  with assms have *: "chain (il_next l) (il_head l) ys (Some b)" "b \<notin> set ys" "a \<noteq> b" "b \<noteq> a"
    by (auto simp: wf_list_def chain_append)
  with assms snoc show ?thesis
    by (simp add: wf_list_def push_back_def store_def chain_append tail_slot_def)
qed

lemma push_front_wf:
  assumes "wf_list l xs" and "a \<notin> set xs"
  shows "wf_list (push_front (Some a) l) (a # xs)"
  using assms by (cases xs) (auto simp: wf_list_def push_front_def tail_slot_def)

lemma push_None [simp]: "push_back None l = l" "push_front None l = l"
  by (simp_all add: push_back_def push_front_def)

lemma pop_front_Nil: "wf_list l [] \<Longrightarrow> pop_front l = (None, l)"
  by (simp add: wf_list_def pop_front_def)

lemma pop_front_Cons:
  assumes "wf_list l (x # xs)"
  shows "fst (pop_front l) = Some x \<and> wf_list (snd (pop_front l)) xs"
  using assms by (cases xs) (auto simp: wf_list_def pop_front_def tail_slot_def)

lemma il_head_wf: "wf_list l xs \<Longrightarrow> il_head l = (case xs of [] \<Rightarrow> None | x # _ \<Rightarrow> Some x)"
  by (cases xs) (auto simp: wf_list_def)

lemma load_tail_slot:
  "chain (il_next l) (il_head l) (ps @ rs) None \<Longrightarrow>
   load (tail_slot Head_slot ps) l = (case rs of [] \<Rightarrow> None | r # _ \<Rightarrow> Some r)"
  by (cases ps rule: rev_cases; cases rs) (auto simp: load_def chain_append)

text \<open>One iteration that unlinks: the list without \<open>r\<close>, and \<open>r\<close> on top of the removed chain.\<close>

lemma remove_step:
  assumes "wf_list l (ps @ r # rs)" and "chain (il_next l) removed rm None"
    and "distinct rm" and "set rm \<inter> set (ps @ r # rs) = {}"
  defines "cp \<equiv> tail_slot Head_slot ps" and "nx \<equiv> il_next l r"
  defines "l1 \<equiv> store cp nx l"
  defines "l2 \<equiv> (if nx = None then l1\<lparr>il_tail := cp\<rparr> else l1)"
  defines "l4 \<equiv> l2\<lparr>il_size := il_size l2 - 1, il_next := (il_next l2)(r := removed)\<rparr>"
  shows "wf_list l4 (ps @ rs) \<and> chain (il_next l4) (Some r) (r # rm) None"
proof -
  have nx: "nx = (case rs of [] \<Rightarrow> None | s # _ \<Rightarrow> Some s)"
    using assms(1) by (cases rs) (auto simp: wf_list_def chain_append nx_def)
  have tl: "chain (il_next l) nx rs None"
    using assms(1) by (auto simp: wf_list_def chain_append nx_def)
  show ?thesis
  proof (cases ps rule: rev_cases)
    case Nil
    with assms nx tl show ?thesis
      by (cases rs) (auto simp: wf_list_def store_def tail_slot_def)
  next
    case (snoc qs b)
    have "chain (il_next l) (il_head l) qs (Some b)" "b \<notin> set qs" "b \<noteq> r" "b \<notin> set rs" "b \<notin> set rm"
      using assms(1,4) snoc by (auto simp: wf_list_def chain_append)
    with assms nx tl snoc show ?thesis
      by (cases rs) (auto simp: wf_list_def store_def tail_slot_def chain_append)
  qed
qed

lemma remove_loop_correct:
  assumes "wf_list l (ps @ rs)" and "chain (il_next l) removed rm None"
    and "distinct rm" and "set rm \<inter> set (ps @ rs) = {}"
  shows "\<exists>r l'. remove_loop P removed (tail_slot Head_slot ps) l = Some (r, l')
    \<and> wf_list l' (ps @ filter (\<lambda>a. \<not> P a) rs)
    \<and> chain (il_next l') r (rev (filter P rs) @ rm) None"
  using assms
proof (induction rs arbitrary: ps removed rm l)
  case Nil
  then have "load (tail_slot Head_slot ps) l = None"
    by (subst load_tail_slot [where rs = "[]"]) (auto simp: wf_list_def)
  with Nil show ?case by (simp add: remove_loop.simps)
next
  case (Cons x rs)
  from Cons.prems(1) have ld: "load (tail_slot Head_slot ps) l = Some x"
    by (subst load_tail_slot [where rs = "x # rs"]) (auto simp: wf_list_def)
  show ?case
  proof (cases "P x")
    case True
    let ?l1 = "store (tail_slot Head_slot ps) (il_next l x) l"
    let ?l2 = "if il_next l x = None then ?l1\<lparr>il_tail := tail_slot Head_slot ps\<rparr> else ?l1"
    let ?l4 = "?l2\<lparr>il_size := il_size ?l2 - 1, il_next := (il_next ?l2)(x := removed)\<rparr>"
    have st: "wf_list ?l4 (ps @ rs)" "chain (il_next ?l4) (Some x) (x # rm) None"
      using remove_step [OF Cons.prems] by simp_all
    have "distinct (x # rm)" "set (x # rm) \<inter> set (ps @ rs) = {}"
      using Cons.prems by (auto simp: wf_list_def)
    from Cons.IH [OF st this] obtain r l' where
      "remove_loop P (Some x) (tail_slot Head_slot ps) ?l4 = Some (r, l')"
      "wf_list l' (ps @ filter (\<lambda>a. \<not> P a) rs)"
      "chain (il_next l') r (rev (filter P rs) @ x # rm) None" by blast
    with ld True show ?thesis
      by (subst remove_loop.simps) (simp add: Let_def)
  next
    case False
    from Cons.prems have "wf_list l ((ps @ [x]) @ rs)" "set rm \<inter> set ((ps @ [x]) @ rs) = {}"
      by auto
    from Cons.IH [OF this(1) Cons.prems(2,3) this(2)] ld False show ?thesis
      by (subst remove_loop.simps) simp
  qed
qed

lemma remove_if_correct:
  assumes "wf_list l xs"
  shows "\<exists>r l'. remove_if P l = Some (r, l') \<and> wf_list l' (filter (\<lambda>a. \<not> P a) xs)
    \<and> chain (il_next l') r (rev (filter P xs)) None"
  using remove_loop_correct [of l "[]" xs None "[]" P] assms by (simp add: remove_if_def)

lemma list_size_from_chain: "chain nx p xs None \<Longrightarrow> list_size_from nx p n = Some (n + length xs)"
proof (induction xs arbitrary: p n)
  case Nil
  then show ?case by (simp add: list_size_from.simps)
next
  case (Cons a xs)
  then show ?case by (simp add: list_size_from.simps [of nx "Some a"])
qed

lemma list_size_chain: "chain nx p xs None \<Longrightarrow> list_size nx p = Some (length xs)"
  by (simp add: list_size_def list_size_from_chain)

lemma delete_list_chain:
  "chain (il_next l) p xs None \<Longrightarrow> delete_list p l = Some (l\<lparr>il_deleted := il_deleted l @ xs\<rparr>)"
proof (induction xs arbitrary: p l)
  case Nil
  then show ?case by (simp add: delete_list.simps)
next
  case (Cons a xs)
  then show ?case by (simp add: delete_list.simps [of "Some a"])
qed

lemma clear_correct:
  assumes "wf_list l xs"
  shows "\<exists>l'. clear l = Some l' \<and> wf_list l' [] \<and> il_deleted l' = il_deleted l @ xs"
  using assms by (auto simp: clear_def wf_list_def delete_list_chain)

lemma last_node_chain: "chain nx (nx p) xs None \<Longrightarrow> last_node nx p = Some (last (p # xs))"
proof (induction xs arbitrary: p)
  case Nil
  then show ?case by (simp add: last_node.simps)
next
  case (Cons a xs)
  then show ?case by (simp add: last_node.simps [of nx p])
qed

lemma validate_tail_wf: "wf_list l xs \<Longrightarrow> validate_tail l = Some True"
  by (cases xs) (auto simp: wf_list_def validate_tail_def tail_slot_def last_node_chain)

section \<open>The interface of the event queue\<close>

text \<open>
  What the event queue needs of its container, stated as laws over a relation \<open>rep\<close> between a
  representation and the list of its items. \<open>run_ops\<close> performs a sequence of operations on a
  representation, \<open>run_abs\<close> performs it on plain lists.
\<close>

datatype 'e qop = Push_back 'e | Push_front 'e | Pop_front | Purge "'e \<Rightarrow> bool"

datatype 'e qout = Popped "'e option" | Purged nat

fun run_abs :: "'e qop list \<Rightarrow> 'e list \<Rightarrow> 'e qout list \<times> 'e list" where
  "run_abs [] xs = ([], xs)"
| "run_abs (Push_back e # ops) xs = run_abs ops (xs @ [e])"
| "run_abs (Push_front e # ops) xs = run_abs ops (e # xs)"
| "run_abs (Pop_front # ops) xs =
     (case xs of
        [] \<Rightarrow> (let (os, ys) = run_abs ops [] in (Popped None # os, ys))
      | x # xs' \<Rightarrow> (let (os, ys) = run_abs ops xs' in (Popped (Some x) # os, ys)))"
| "run_abs (Purge p # ops) xs =
     (let (os, ys) = run_abs ops (filter (\<lambda>x. \<not> p x) xs) in (Purged (length (filter p xs)) # os, ys))"

fun run_ops :: "('e \<Rightarrow> 's \<Rightarrow> 's) \<Rightarrow> ('e \<Rightarrow> 's \<Rightarrow> 's) \<Rightarrow> ('s \<Rightarrow> 'e option \<times> 's) \<Rightarrow>
    (('e \<Rightarrow> bool) \<Rightarrow> 's \<Rightarrow> (nat \<times> 's) option) \<Rightarrow> 'e qop list \<Rightarrow> 's \<Rightarrow> ('e qout list \<times> 's) option" where
  "run_ops pb pf po pu [] s = Some ([], s)"
| "run_ops pb pf po pu (Push_back e # ops) s = run_ops pb pf po pu ops (pb e s)"
| "run_ops pb pf po pu (Push_front e # ops) s = run_ops pb pf po pu ops (pf e s)"
| "run_ops pb pf po pu (Pop_front # ops) s =
     (let (r, s1) = po s in
      case run_ops pb pf po pu ops s1 of None \<Rightarrow> None | Some (os, s2) \<Rightarrow> Some (Popped r # os, s2))"
| "run_ops pb pf po pu (Purge p # ops) s =
     (case pu p s of None \<Rightarrow> None
      | Some (n, s1) \<Rightarrow>
          (case run_ops pb pf po pu ops s1 of None \<Rightarrow> None | Some (os, s2) \<Rightarrow> Some (Purged n # os, s2)))"

locale event_container =
  fixes pb :: "'e \<Rightarrow> 's \<Rightarrow> 's"
    and pf :: "'e \<Rightarrow> 's \<Rightarrow> 's"
    and po :: "'s \<Rightarrow> 'e option \<times> 's"
    and pu :: "('e \<Rightarrow> bool) \<Rightarrow> 's \<Rightarrow> (nat \<times> 's) option"
    and sz :: "'s \<Rightarrow> nat"
    and rep :: "'s \<Rightarrow> 'e list \<Rightarrow> bool"
  assumes rep_pb: "rep s xs \<Longrightarrow> rep (pb e s) (xs @ [e])"
    and rep_pf: "rep s xs \<Longrightarrow> rep (pf e s) (e # xs)"
    and rep_po_Nil: "rep s [] \<Longrightarrow> po s = (None, s)"
    and rep_po_Cons: "rep s (x # xs) \<Longrightarrow> fst (po s) = Some x \<and> rep (snd (po s)) xs"
    and rep_pu: "rep s xs \<Longrightarrow> \<exists>s'. pu p s = Some (length (filter p xs), s') \<and> rep s' (filter (\<lambda>x. \<not> p x) xs)"
    and rep_sz: "rep s xs \<Longrightarrow> sz s = length xs"
begin

lemma run_ops_refines:
  "rep s xs \<Longrightarrow> \<exists>s'. run_ops pb pf po pu ops s = Some (fst (run_abs ops xs), s')
     \<and> rep s' (snd (run_abs ops xs))"
proof (induction ops arbitrary: s xs)
  case Nil
  then show ?case by simp
next
  case (Cons op ops)
  show ?case
  proof (cases op)
    case (Push_back e)
    with Cons.IH [OF rep_pb [OF Cons.prems, of e]] show ?thesis by simp
  next
    case (Push_front e)
    with Cons.IH [OF rep_pf [OF Cons.prems, of e]] show ?thesis by simp
  next
    case Pop_front
    show ?thesis
    proof (cases xs)
      case Nil
      with Cons.prems have "po s = (None, s)" by (simp add: rep_po_Nil)
      with Pop_front Nil Cons.IH [OF Cons.prems] show ?thesis
        by (auto simp: split: prod.splits)
    next
      case (Cons x xs')
      with \<open>rep s xs\<close> have *: "fst (po s) = Some x" "rep (snd (po s)) xs'"
        using rep_po_Cons by auto
      from Cons.IH [OF *(2)] *(1) Pop_front Cons show ?thesis
        by (cases "po s") (auto split: prod.splits)
    qed
  next
    case (Purge p)
    obtain s' where s': "pu p s = Some (length (filter p xs), s')" "rep s' (filter (\<lambda>x. \<not> p x) xs)"
      using rep_pu [OF Cons.prems] by blast
    from Cons.IH [OF s'(2)] s'(1) Purge show ?thesis
      by (auto split: prod.splits)
  qed
qed

end

section \<open>The heap representation\<close>

text \<open>
  Packets live at addresses; \<open>es_brk\<close> is the next address that \<open>new\<close> hands out, and every packet
  is constructed with a null \<open>next\<close>. Purging follows the removed chain and deletes each node.
\<close>

record 'e evstore =
  es_list :: ilist
  es_pkt :: "addr \<Rightarrow> 'e option"
  es_brk :: addr

definition es_alloc :: "'e \<Rightarrow> 'e evstore \<Rightarrow> addr \<times> 'e evstore" where
  "es_alloc e s =
     (let a = es_brk s in
      (a, s\<lparr>es_list := (es_list s)\<lparr>il_next := (il_next (es_list s))(a := None)\<rparr>,
            es_pkt := (es_pkt s)(a := Some e), es_brk := a + 1\<rparr>))"

definition es_push_back :: "'e \<Rightarrow> 'e evstore \<Rightarrow> 'e evstore" where
  "es_push_back e s = (let (a, s1) = es_alloc e s in s1\<lparr>es_list := push_back (Some a) (es_list s1)\<rparr>)"

definition es_push_front :: "'e \<Rightarrow> 'e evstore \<Rightarrow> 'e evstore" where
  "es_push_front e s = (let (a, s1) = es_alloc e s in s1\<lparr>es_list := push_front (Some a) (es_list s1)\<rparr>)"

definition es_pop_front :: "'e evstore \<Rightarrow> 'e option \<times> 'e evstore" where
  "es_pop_front s =
     (let (r, l) = pop_front (es_list s) in
      ((case r of None \<Rightarrow> None | Some a \<Rightarrow> es_pkt s a), s\<lparr>es_list := l\<rparr>))"

definition es_cond :: "('e \<Rightarrow> bool) \<Rightarrow> 'e evstore \<Rightarrow> addr \<Rightarrow> bool" where
  "es_cond p s a = (case es_pkt s a of None \<Rightarrow> False | Some e \<Rightarrow> p e)"

definition es_purge :: "('e \<Rightarrow> bool) \<Rightarrow> 'e evstore \<Rightarrow> (nat \<times> 'e evstore) option" where
  "es_purge p s =
     (case remove_if (es_cond p s) (es_list s) of None \<Rightarrow> None
      | Some (r, l) \<Rightarrow>
          (case (list_size (il_next l) r, delete_list r l) of
             (Some n, Some l') \<Rightarrow> Some (n, s\<lparr>es_list := l'\<rparr>)
           | _ \<Rightarrow> None))"

definition es_rep :: "'e evstore \<Rightarrow> 'e list \<Rightarrow> bool" where
  "es_rep s es \<longleftrightarrow> (\<exists>xs. wf_list (es_list s) xs \<and> (\<forall>a \<in> set xs. a < es_brk s) \<and> map (es_pkt s) xs = map Some es)"

lemma wf_list_fresh:
  "wf_list l xs \<Longrightarrow> a \<notin> set xs \<Longrightarrow> wf_list (l\<lparr>il_next := (il_next l)(a := v)\<rparr>) xs"
  by (simp add: wf_list_def)

lemma wf_list_deleted [simp]: "wf_list (l\<lparr>il_deleted := ds\<rparr>) xs = wf_list l xs"
  by (simp add: wf_list_def)

lemma es_rep_alloc:
  assumes "wf_list (es_list s) xs" and "\<forall>a \<in> set xs. a < es_brk s" and "map (es_pkt s) xs = map Some es"
  shows "fst (es_alloc e s) = es_brk s \<and> es_brk s \<notin> set xs
    \<and> wf_list (es_list (snd (es_alloc e s))) xs
    \<and> il_next (es_list (snd (es_alloc e s))) (es_brk s) = None
    \<and> es_brk (snd (es_alloc e s)) = es_brk s + 1
    \<and> es_pkt (snd (es_alloc e s)) (es_brk s) = Some e
    \<and> map (es_pkt (snd (es_alloc e s))) xs = map Some es"
proof -
  have "es_brk s \<notin> set xs" using assms(2) by auto
  moreover from this have "map ((es_pkt s)(es_brk s := Some e)) xs = map (es_pkt s) xs" by simp
  ultimately show ?thesis
    using assms by (simp add: es_alloc_def Let_def wf_list_fresh)
qed

lemma es_rep_push_back: "es_rep s es \<Longrightarrow> es_rep (es_push_back e s) (es @ [e])"
proof -
  assume "es_rep s es"
  then obtain xs where xs: "wf_list (es_list s) xs" "\<forall>a \<in> set xs. a < es_brk s" "map (es_pkt s) xs = map Some es"
    by (auto simp: es_rep_def)
  note al = es_rep_alloc [OF xs, of e]
  obtain a s1 where s1: "es_alloc e s = (a, s1)" by fastforce
  with al have "wf_list (push_back (Some a) (es_list s1)) (xs @ [a])"
    by (intro push_back_wf) auto
  with al s1 xs(2) show ?thesis
    by (auto simp: es_rep_def es_push_back_def less_Suc_eq intro!: exI [of _ "xs @ [a]"])
qed

lemma es_rep_push_front: "es_rep s es \<Longrightarrow> es_rep (es_push_front e s) (e # es)"
proof -
  assume "es_rep s es"
  then obtain xs where xs: "wf_list (es_list s) xs" "\<forall>a \<in> set xs. a < es_brk s" "map (es_pkt s) xs = map Some es"
    by (auto simp: es_rep_def)
  note al = es_rep_alloc [OF xs, of e]
  obtain a s1 where s1: "es_alloc e s = (a, s1)" by fastforce
  with al have "wf_list (push_front (Some a) (es_list s1)) (a # xs)"
    by (intro push_front_wf) auto
  with al s1 xs(2) show ?thesis
    by (auto simp: es_rep_def es_push_front_def less_Suc_eq intro!: exI [of _ "a # xs"])
qed

lemma es_rep_pop_Nil: "es_rep s [] \<Longrightarrow> es_pop_front s = (None, s)"
  by (auto simp: es_rep_def es_pop_front_def pop_front_Nil)

lemma es_rep_pop_Cons:
  assumes "es_rep s (e # es)"
  shows "fst (es_pop_front s) = Some e \<and> es_rep (snd (es_pop_front s)) es"
proof -
  obtain a xs where xs: "wf_list (es_list s) (a # xs)" "\<forall>a \<in> set (a # xs). a < es_brk s"
    "map (es_pkt s) (a # xs) = map Some (e # es)"
    using assms by (auto simp: es_rep_def)
  from pop_front_Cons [OF xs(1)] xs(2,3) show ?thesis
    by (cases "pop_front (es_list s)") (auto simp: es_pop_front_def es_rep_def)
qed

lemma map_Some_filter:
  "map f xs = map Some es \<Longrightarrow>
   map f (filter (\<lambda>a. case f a of None \<Rightarrow> False | Some e \<Rightarrow> p e) xs) = map Some (filter p es) \<and>
   map f (filter (\<lambda>a. \<not> (case f a of None \<Rightarrow> False | Some e \<Rightarrow> p e)) xs) = map Some (filter (\<lambda>e. \<not> p e) es)"
proof (induction xs arbitrary: es)
  case (Cons a xs)
  then show ?case by (cases es) auto
qed simp

lemma es_rep_purge:
  assumes "es_rep s es"
  shows "\<exists>s'. es_purge p s = Some (length (filter p es), s') \<and> es_rep s' (filter (\<lambda>e. \<not> p e) es)"
proof -
  obtain xs where xs: "wf_list (es_list s) xs" "\<forall>a \<in> set xs. a < es_brk s" "map (es_pkt s) xs = map Some es"
    using assms by (auto simp: es_rep_def)
  obtain r l where rl: "remove_if (es_cond p s) (es_list s) = Some (r, l)"
      "wf_list l (filter (\<lambda>a. \<not> es_cond p s a) xs)"
      "chain (il_next l) r (rev (filter (es_cond p s) xs)) None"
    using remove_if_correct [OF xs(1)] by blast
  note f = map_Some_filter [OF xs(3), of p, folded es_cond_def]
  from f have "length (filter (es_cond p s) xs) = length (filter p es)"
    by (metis length_map)
  with rl f xs(2) show ?thesis
    by (auto simp: es_purge_def es_rep_def list_size_chain delete_list_chain)
qed

lemma es_rep_size: "es_rep s es \<Longrightarrow> il_size (es_list s) = length es"
  by (auto simp: es_rep_def wf_list_def dest: map_eq_imp_length_eq)

interpretation evq: event_container es_push_back es_push_front es_pop_front es_purge
    "\<lambda>s. il_size (es_list s)" es_rep
  by unfold_locales
    (auto simp: es_rep_push_back es_rep_push_front es_rep_pop_Nil es_rep_pop_Cons es_rep_size
      intro: es_rep_purge)

section \<open>Properties\<close>

text \<open>
  C2: the intrusive list implements a plain list. Any sequence of push_back, push_front, pop_front and
  remove_if calls on the heap representation terminates, returns what the same sequence returns
  on a plain list, and leaves a heap that represents the resulting list.
\<close>

theorem intrusive_list_refines_list:
  "es_rep s es \<Longrightarrow>
     \<exists>s'. run_ops es_push_back es_push_front es_pop_front es_purge ops s = Some (fst (run_abs ops es), s')
        \<and> es_rep s' (snd (run_abs ops es))"
  by (rule evq.run_ops_refines)

definition demo_store :: "nat evstore" where
  "demo_store = \<lparr>es_list = il_new (\<lambda>_. None), es_pkt = (\<lambda>_. None), es_brk = 0\<rparr>"

lemma demo_store_rep: "es_rep demo_store []"
  by (auto simp: es_rep_def demo_store_def wf_new)

theorem intrusive_list_refines_list_witness:
  "\<exists>s'. run_ops es_push_back es_push_front es_pop_front es_purge
       [Push_back 1, Push_back 2, Push_front 7, Push_back 3, Purge even, Pop_front, Pop_front, Pop_front, Pop_front] demo_store
     = Some ([Purged 1, Popped (Some 7), Popped (Some 1), Popped (Some 3), Popped None], s') \<and> es_rep s' []"
  using intrusive_list_refines_list [OF demo_store_rep, of "[Push_back 1, Push_back 2, Push_front 7,
    Push_back 3, Purge even, Pop_front, Pop_front, Pop_front, Pop_front]"]
  by simp

text \<open>
  Remove_if terminates on a well-formed list, keeps exactly the nodes that do not match in their order,
  returns the matching nodes as a chain in reverse order, and leaves a tail pointer that
  \<open>validate_tail\<close> accepts and a size that is the number of nodes kept.
\<close>

theorem remove_if_splits:
  "wf_list l xs \<Longrightarrow> \<exists>r l'. remove_if P l = Some (r, l')
     \<and> chain (il_next l') (il_head l') (filter (\<lambda>a. \<not> P a) xs) None
     \<and> chain (il_next l') r (rev (filter P xs)) None
     \<and> validate_tail l' = Some True \<and> il_size l' = length (filter (\<lambda>a. \<not> P a) xs)"
proof -
  assume "wf_list l xs"
  then obtain r l' where *: "remove_if P l = Some (r, l')" "wf_list l' (filter (\<lambda>a. \<not> P a) xs)"
    "chain (il_next l') r (rev (filter P xs)) None"
    using remove_if_correct by blast
  from validate_tail_wf [OF *(2)] * show ?thesis by (auto simp: wf_list_def)
qed

definition demo_list :: ilist where
  "demo_list = \<lparr>il_next = (\<lambda>a. if a < 3 then Some (a + 1) else None), il_head = Some 0,
      il_tail = Next_slot 3, il_size = 4, il_deleted = []\<rparr>"

theorem remove_if_splits_witness:
  "\<exists>r l'. remove_if (\<lambda>a. a = 1 \<or> a = 3) demo_list = Some (r, l')
     \<and> chain (il_next l') (il_head l') [0, 2] None \<and> chain (il_next l') r [3, 1] None
     \<and> validate_tail l' = Some True \<and> il_size l' = 2"
proof -
  have "wf_list demo_list [0, 1, 2, 3]"
    by (simp add: wf_list_def demo_list_def tail_slot_def)
  from remove_if_splits [OF this, of "\<lambda>a. a = 1 \<or> a = 3"] show ?thesis by (simp add: numeral_2_eq_2)
qed

end
