(* ===== verification/Event_Queue.thy ===== *)
theory Event_Queue
  imports Lwip Intrusive_List
begin

unbundle bit_operations_syntax

text \<open>
  The event packets of \<open>src/AsyncTCP.cpp\<close> and the global queue \<open>_async_queue\<close> as the list of its
  packets (the intrusive list implements it, theory \<open>Intrusive_List\<close>): construction, ordering,
  poll coalescing and discarding, the poll throttle, and the purge of one client's events.
\<close>

section \<open>Event packets\<close>

text \<open>\<open>lwip_tcp_event_t\<close> together with the member of the union that the event uses.\<close>

datatype lwip_event =
    LWIP_TCP_SENT pcb u16
  | LWIP_TCP_RECV pcb "pbuf list" err
  | LWIP_TCP_FIN pcb err
  | LWIP_TCP_ERROR err
  | LWIP_TCP_POLL pcb
  | LWIP_TCP_ACCEPT
  | LWIP_TCP_CONNECTED pcb err
  | LWIP_TCP_DNS ip_addr

record event =
  ev :: lwip_event
  ev_impl :: "cid option"
  ev_client :: "cid option"
  ev_server :: "sid option"
  ev_epoch :: u32
  ev_dns_token :: "nat option"

text \<open>The constructors of \<open>lwip_tcp_event_packet_t\<close>: for a client, and for an accepted connection.\<close>

definition client_packet :: "lwip_event \<Rightarrow> cid \<Rightarrow> event" where
  "client_packet k c = \<lparr>ev = k, ev_impl = Some c, ev_client = None, ev_server = None, ev_epoch = 0, ev_dns_token = None\<rparr>"

definition accept_packet :: "cid \<Rightarrow> sid \<Rightarrow> u32 \<Rightarrow> event" where
  "accept_packet c srv epoch =
     \<lparr>ev = LWIP_TCP_ACCEPT, ev_impl = None, ev_client = Some c, ev_server = Some srv, ev_epoch = epoch, ev_dns_token = None\<rparr>"

fun is_poll :: "lwip_event \<Rightarrow> bool" where
  "is_poll (LWIP_TCP_POLL _) = True"
| "is_poll _ = False"

fun event_pbufs :: "lwip_event \<Rightarrow> pbuf list" where
  "event_pbufs (LWIP_TCP_RECV _ pb _) = pb"
| "event_pbufs _ = []"

text \<open>\<open>_free_event\<close>: a packet still holding a received chain frees it.\<close>

definition free_event :: "event \<Rightarrow> call list" where
  "free_event e = (if event_pbufs (ev e) \<noteq> [] then [Pbuf_free (event_pbufs (ev e))] else [])"

section \<open>The random numbers for coalescing and throttling\<close>

text \<open>\<open>_xor_shift_next\<close>: returns the new state.\<close>

definition xor_shift_next :: "u32 \<Rightarrow> u32" where
  "xor_shift_next x0 =
     (let x1 = x0 XOR push_bit 13 x0;
          x2 = x1 XOR drop_bit 17 x1;
          x3 = x2 XOR push_bit 5 x2
      in x3)"

definition xor_shift_seed :: u32 where
  "xor_shift_seed = 31"

text \<open>\<open>CONFIG_ASYNC_TCP_QUEUE_SIZE\<close>, and the two limits the random number is folded into.\<close>

definition QUEUE_SIZE :: nat where
  "QUEUE_SIZE = 64"

definition discard_limit :: "u32 \<Rightarrow> nat" where
  "discard_limit r = (unat r mod QUEUE_SIZE) div 4 + QUEUE_SIZE * 3 div 4"

definition throttle_limit :: "u32 \<Rightarrow> nat" where
  "throttle_limit r = (unat r mod QUEUE_SIZE) div 2 + QUEUE_SIZE div 4"

section \<open>Taking the next event\<close>

text \<open>The inner loop of \<open>_get_async_event\<close>: drops the polls of the same client that follow.\<close>

fun coalesce :: "cid option \<Rightarrow> event list \<Rightarrow> event list" where
  "coalesce im [] = []"
| "coalesce im (n # q) = (if ev_impl n = im \<and> is_poll (ev n) then coalesce im q else n # q)"

lemma length_coalesce: "length (coalesce im q) \<le> length q"
  by (induction q) auto

text \<open>
  \<open>_get_async_event\<close>: the event to handle (null when the queue is empty), the rest of the queue and
  the random state. The packets it drops are polls, which hold no buffer.
\<close>

function get_async_event :: "u32 \<Rightarrow> event list \<Rightarrow> event option \<times> event list \<times> u32" where
  "get_async_event rng [] = (None, [], rng)"
| "get_async_event rng (e # q) =
     (if \<not> is_poll (ev e) then (Some e, q, rng)
      else
        let q' = coalesce (ev_impl e) q;
            rng' = xor_shift_next rng
        in if length q' > discard_limit rng' then get_async_event rng' q' else (Some e, q', rng'))"
  by pat_completeness auto
termination
  by (relation "measure (\<lambda>(_, q). length q)") (auto simp: less_Suc_eq_le length_coalesce)

text \<open>
  \<open>_send_async_event\<close> and \<open>_prepend_async_event\<close> add a packet; on ESP8266 they also schedule
  \<open>_process_async_event\<close> when the packet is the only one (theory \<open>Dispatch\<close>).
\<close>

definition send_async_event :: "event \<Rightarrow> event list \<Rightarrow> event list" where
  "send_async_event e q = q @ [e]"

definition prepend_async_event :: "event \<Rightarrow> event list \<Rightarrow> event list" where
  "prepend_async_event e q = e # q"

text \<open>
  \<open>_remove_events_for_client\<close>: the number of packets removed, the queue, and the calls it makes. The
  intrusive list returns the removed packets in reverse order, and they are freed in that order.
\<close>

definition remove_events_for_client :: "cid \<Rightarrow> event list \<Rightarrow> nat \<times> event list \<times> call list" where
  "remove_events_for_client c q =
     (let gone = filter (\<lambda>e. ev_impl e = Some c) q
      in (length gone, filter (\<lambda>e. ev_impl e \<noteq> Some c) q, concat (map free_event (rev gone))))"

text \<open>The decision of \<open>AsyncTCP_detail::tcp_poll\<close> whether to skip this poll.\<close>

definition throttled :: "u32 \<Rightarrow> event list \<Rightarrow> bool" where
  "throttled rng q \<longleftrightarrow> length q > throttle_limit rng"

section \<open>The random number generator\<close>

lemma xor_eq_0: "(a::'a::len word) XOR b = 0 \<Longrightarrow> a = b"
  by (metis xor_self_eq xor.assoc xor.right_neutral xor.left_neutral)

lemma push_bit_fix:
  fixes x :: u32
  assumes "x = push_bit k x" and "0 < k"
  shows "x = 0"
proof -
  have "\<not> bit x n" for n
  proof (induction n rule: less_induct)
    case (less n)
    show ?case
    proof
      assume "bit x n"
      then have "bit (push_bit k x) n" using assms(1) by simp
      then have "k \<le> n" "bit x (n - k)" by (auto simp: bit_push_bit_iff)
      with less.IH [of "n - k"] assms(2) show False by simp
    qed
  qed
  then show ?thesis by (intro bit_word_eqI) simp
qed

lemma drop_bit_fix:
  fixes x :: u32
  assumes "x = drop_bit k x" and "0 < k"
  shows "x = 0"
proof -
  have up: "bit x n \<Longrightarrow> bit x (n + m * k)" for n m
  proof (induction m)
    case (Suc m)
    then have "bit (drop_bit k x) (n + m * k)" using assms(1) by simp
    then show ?case by (simp add: bit_drop_bit_eq algebra_simps)
  qed simp
  have "\<not> bit x n" for n
  proof
    assume "bit x n"
    from up [OF this, of 32] have "n + 32 * k < 32"
      by (auto dest: bit_imp_le_length)
    with assms(2) show False by simp
  qed
  then show ?thesis by (intro bit_word_eqI) simp
qed

lemma xor_shift_nonzero: "x \<noteq> 0 \<Longrightarrow> xor_shift_next x \<noteq> 0"
  unfolding xor_shift_next_def Let_def
  by (metis xor_eq_0 push_bit_fix drop_bit_fix zero_less_numeral)

lemma limits:
  "48 \<le> discard_limit r" "discard_limit r \<le> 63" "16 \<le> throttle_limit r" "throttle_limit r \<le> 47"
proof -
  have "unat r mod 64 < 64" by simp
  then show "48 \<le> discard_limit r" "discard_limit r \<le> 63" "16 \<le> throttle_limit r" "throttle_limit r \<le> 47"
    by (auto simp: discard_limit_def throttle_limit_def QUEUE_SIZE_def)
qed

section \<open>Taking events\<close>

lemma coalesce_suffix: "\<exists>ps. q = ps @ coalesce im q \<and> (\<forall>p \<in> set ps. ev_impl p = im \<and> is_poll (ev p))"
proof (induction q)
  case (Cons n q)
  then obtain ps where ps: "q = ps @ coalesce im q" "\<forall>p \<in> set ps. ev_impl p = im \<and> is_poll (ev p)"
    by auto
  show ?case
  proof (cases "ev_impl n = im \<and> is_poll (ev n)")
    case True
    with ps show ?thesis by (intro exI [of _ "n # ps"]) auto
  qed auto
qed auto

lemma coalesce_head: "coalesce im q = n # r \<Longrightarrow> \<not> (ev_impl n = im \<and> is_poll (ev n))"
  by (induction q) (auto split: if_splits)

lemma coalesce_nonpoll: "filter (\<lambda>e. \<not> is_poll (ev e)) (coalesce im q) = filter (\<lambda>e. \<not> is_poll (ev e)) q"
  by (induction q) auto

lemma get_async_event_nonpoll:
  "get_async_event rng q = (r, q', rng') \<Longrightarrow>
   filter (\<lambda>e. \<not> is_poll (ev e)) q = filter (\<lambda>e. \<not> is_poll (ev e)) (case r of None \<Rightarrow> q' | Some e \<Rightarrow> e # q')"
proof (induction rng q rule: get_async_event.induct)
  case (2 rng e q)
  show ?case
  proof (cases "is_poll (ev e)")
    case True
    with 2 show ?thesis by (auto simp: Let_def coalesce_nonpoll split: if_splits option.splits)
  next
    case False
    with "2.prems" show ?thesis by auto
  qed
qed auto

lemma get_async_event_suffix:
  "get_async_event rng q = (r, q', rng') \<Longrightarrow> \<exists>ps. q = ps @ q' \<and> (\<forall>e. r = Some e \<longrightarrow> e \<in> set ps)"
proof (induction rng q rule: get_async_event.induct)
  case (2 rng e q)
  obtain ps where ps: "q = ps @ coalesce (ev_impl e) q" using coalesce_suffix by blast
  show ?case
  proof (cases "is_poll (ev e) \<and> length (coalesce (ev_impl e) q) > discard_limit (xor_shift_next rng)")
    case True
    with "2.prems" have "get_async_event (xor_shift_next rng) (coalesce (ev_impl e) q) = (r, q', rng')"
      by (simp add: Let_def)
    with "2.IH" True obtain ps' where "coalesce (ev_impl e) q = ps' @ q' \<and> (\<forall>e. r = Some e \<longrightarrow> e \<in> set ps')"
      by blast
    with ps show ?thesis by (intro exI [of _ "e # ps @ ps'"]) auto
  next
    case False
    with "2.prems" ps show ?thesis
      by (auto simp: Let_def split: if_splits intro: exI [of _ "[e]"] exI [of _ "e # ps"])
  qed
qed auto

lemma get_async_event_None:
  "get_async_event rng q = (None, q', rng') \<Longrightarrow> q' = []"
  by (induction rng q rule: get_async_event.induct) (auto simp: Let_def split: if_splits)

lemma get_async_event_next:
  "get_async_event rng q = (Some e, n # q', rng') \<Longrightarrow> is_poll (ev e) \<Longrightarrow> \<not> (ev_impl n = ev_impl e \<and> is_poll (ev n))"
  by (induction rng q rule: get_async_event.induct) (auto simp: Let_def dest: coalesce_head split: if_splits)

section \<open>Purging\<close>

lemma remove_events_simps [queue_simps]:
  "fst (remove_events_for_client c q) = length (filter (\<lambda>e. ev_impl e = Some c) q)"
  "fst (snd (remove_events_for_client c q)) = filter (\<lambda>e. ev_impl e \<noteq> Some c) q"
  "snd (snd (remove_events_for_client c q)) = concat (map free_event (rev (filter (\<lambda>e. ev_impl e = Some c) q)))"
  by (simp_all add: remove_events_for_client_def Let_def)

lemma free_event_calls: "x \<in> set (free_event e) \<Longrightarrow> \<exists>pb. x = Pbuf_free pb"
  by (auto simp: free_event_def split: if_splits)

section \<open>Properties\<close>

text \<open>
  C32: taking an event drops nothing but polls and reorders nothing. The events that are not polls are,
  in order, the event returned (when it is not a poll) and the ones still queued; the rest of the
  queue is a suffix of the old queue, and nothing is returned only when nothing is left.
\<close>

theorem get_async_event_drops_only_polls:
  "case get_async_event rng q of (r, q', rng') \<Rightarrow>
     filter (\<lambda>e. \<not> is_poll (ev e)) q
       = filter (\<lambda>e. \<not> is_poll (ev e)) (case r of None \<Rightarrow> q' | Some e \<Rightarrow> e # q')
     \<and> (\<exists>ps. q = ps @ q' \<and> (case r of None \<Rightarrow> q' = [] | Some e \<Rightarrow> e \<in> set ps))"
  using get_async_event_nonpoll [of rng q] get_async_event_suffix [of rng q] get_async_event_None [of rng q]
  by (fastforce split: prod.splits option.splits)

text \<open>
  The congestion policy. With at most 48 events behind it a poll is always delivered; with more than
  63 events left after coalescing it never is; an event that is not a poll is always delivered,
  whatever the queue length and the random number.
\<close>

theorem poll_discard_policy:
  "(length q \<le> 48 \<or> \<not> is_poll (ev e) \<longrightarrow> fst (get_async_event rng (e # q)) = Some e)
   \<and> (is_poll (ev e) \<and> length (coalesce (ev_impl e) q) > 63 \<longrightarrow>
        get_async_event rng (e # q) = get_async_event (xor_shift_next rng) (coalesce (ev_impl e) q))"
  using limits(1,2) [of "xor_shift_next rng"] length_coalesce [of "ev_impl e" q] by (auto simp: Let_def)

theorem poll_discard_policy_witness:
  "fst (get_async_event 31 [client_packet (LWIP_TCP_POLL 5) 1, client_packet (LWIP_TCP_POLL 5) 1, client_packet (LWIP_TCP_SENT 5 9) 1])
     = Some (client_packet (LWIP_TCP_POLL 5) 1)"
  using poll_discard_policy [of "[client_packet (LWIP_TCP_POLL 5) 1, client_packet (LWIP_TCP_SENT 5 9) 1]"
    "client_packet (LWIP_TCP_POLL 5) 1" 31] by simp

text \<open>
  After a poll has been taken the next event is not a poll of the same connection (consecutive
  polls of a connection are coalesced into one).
\<close>

theorem polls_are_coalesced:
  assumes "get_async_event rng q = (Some e, n # q', rng')" and "is_poll (ev e)" and "is_poll (ev n)"
  shows "ev_impl n \<noteq> ev_impl e"
  using get_async_event_next [OF assms(1,2)] assms(3) by simp

theorem polls_are_coalesced_witness:
  "ev_impl (client_packet (LWIP_TCP_POLL 7) 2) \<noteq> ev_impl (client_packet (LWIP_TCP_POLL 5) 1)"
  by (rule polls_are_coalesced [of 31 "[client_packet (LWIP_TCP_POLL 5) 1, client_packet (LWIP_TCP_POLL 5) 1,
        client_packet (LWIP_TCP_POLL 7) 2]" _ _ "[]" "xor_shift_next 31"])
    (simp_all add: client_packet_def discard_limit_def QUEUE_SIZE_def)

text \<open>
  The random number generator never gets stuck: from the nonzero seed every state it reaches is
  nonzero, and the two limits computed from it stay between 48 and 63 (discard) and between 16
  and 47 (throttle) of the 64 queue slots.
\<close>

theorem xor_shift_never_zero:
  "(xor_shift_next ^^ n) xor_shift_seed \<noteq> 0
   \<and> discard_limit r \<in> {48..63} \<and> throttle_limit r \<in> {16..47}"
proof -
  have "(xor_shift_next ^^ n) xor_shift_seed \<noteq> 0"
    by (induction n) (auto simp: xor_shift_seed_def xor_shift_nonzero)
  with limits show ?thesis by simp
qed

end
