(* ===== verification/Park_Queue.thy ===== *)
theory Park_Queue
  imports Lwip Intrusive_List
begin

text \<open>
  The park queue of \<open>src/AsyncTCPParkQueue.h\<close>: connections that wait for a free TLS session. The items are
  drawn from a static pool of \<open>SSL_PARKED_SLOTS\<close> slots, shared by every TLS server of the program; each server
  has its own list through the slots and its own count. An address is the index of a slot; a slot is free
  while its pcb is null. \<open>None\<close> as the result of an operation is a null dereference or a loop without end; the
  lemmas show when neither happens, over the relation \<open>wf_park\<close> between the pool and the lists of the servers.
\<close>

section \<open>State\<close>

definition SSL_PARKED_SLOTS :: nat where
  "SSL_PARKED_SLOTS = 6"

record pending_pcb =
  pp_pcb :: "pcb option"
  pp_pb :: "pbuf list"
  pp_len :: u16
  pp_ms :: u32
  pp_next :: ptr

text \<open>The TLS part of a server: its configuration, and the queue in \<open>AsyncSecureServerCtx\<close>.\<close>

record sec_ctx =
  sc_use_ssl :: bool
  sc_cert :: "u8 list option"
  sc_key :: "u8 list option"
  sc_key_password :: "string option"
  sc_parsed :: bool
  sc_pending :: ptr
  sc_parked :: int

record park =
  pool :: "nat \<Rightarrow> pending_pcb"
  pool_idx :: nat
  ctxs :: "sid \<Rightarrow> sec_ctx"

definition new_sec_ctx :: sec_ctx where
  "new_sec_ctx = \<lparr>sc_use_ssl = False, sc_cert = None, sc_key = None, sc_key_password = None, sc_parsed = False,
     sc_pending = None, sc_parked = 0\<rparr>"

text \<open>Static storage is zero.\<close>

definition new_park :: park where
  "new_park = \<lparr>pool = (\<lambda>_. \<lparr>pp_pcb = None, pp_pb = [], pp_len = 0, pp_ms = 0, pp_next = None\<rparr>), pool_idx = 0,
     ctxs = (\<lambda>_. new_sec_ctx)\<rparr>"

definition nexts :: "park \<Rightarrow> nat \<Rightarrow> ptr" where
  "nexts P i = pp_next (pool P i)"

definition upd_slot :: "nat \<Rightarrow> (pending_pcb \<Rightarrow> pending_pcb) \<Rightarrow> park \<Rightarrow> park" where
  "upd_slot i f P = P\<lparr>pool := (pool P)(i := f (pool P i))\<rparr>"

definition upd_ctx :: "sid \<Rightarrow> (sec_ctx \<Rightarrow> sec_ctx) \<Rightarrow> park \<Rightarrow> park" where
  "upd_ctx v f P = P\<lparr>ctxs := (ctxs P)(v := f (ctxs P v))\<rparr>"

lemma park_upd_simps [simp]:
  "pool (upd_slot i f P) = (pool P)(i := f (pool P i))" "ctxs (upd_slot i f P) = ctxs P" "pool_idx (upd_slot i f P) = pool_idx P"
  "pool (upd_ctx v g P) = pool P" "ctxs (upd_ctx v g P) = (ctxs P)(v := g (ctxs P v))" "pool_idx (upd_ctx v g P) = pool_idx P"
  by (simp_all add: upd_slot_def upd_ctx_def)

section \<open>Operations\<close>

text \<open>The scan of \<open>park_alloc\<close>, \<open>n\<close> candidates from \<open>pool_idx\<close> on.\<close>

fun park_scan :: "nat \<Rightarrow> park \<Rightarrow> nat option \<times> park" where
  "park_scan 0 P = (None, P)"
| "park_scan (Suc n) P =
     (let cand = pool_idx P; P1 = P\<lparr>pool_idx := (pool_idx P + 1) mod SSL_PARKED_SLOTS\<rparr>
      in if pp_pcb (pool P1 cand) = None then (Some cand, P1) else park_scan n P1)"

definition park_alloc :: "park \<Rightarrow> nat option \<times> park" where
  "park_alloc P = park_scan SSL_PARKED_SLOTS P"

text \<open>The loop of \<open>unlink_pending\<close>: the item before \<open>p\<close>, or the last one.\<close>

partial_function (option) seek_before :: "(nat \<Rightarrow> ptr) \<Rightarrow> nat \<Rightarrow> nat \<Rightarrow> nat option" where
  "seek_before nx p cur =
     (case nx cur of None \<Rightarrow> Some cur | Some q \<Rightarrow> if q = p then Some cur else seek_before nx p q)"

definition unlink_pending :: "sid \<Rightarrow> nat \<Rightarrow> park \<Rightarrow> park option" where
  "unlink_pending v p P =
     (case sc_pending (ctxs P v) of
        None \<Rightarrow> Some P
      | Some h \<Rightarrow>
          if h = p then Some (upd_ctx v (\<lambda>x. x\<lparr>sc_pending := pp_next (pool P p)\<rparr>) P)
          else (case seek_before (nexts P) p h of
                  None \<Rightarrow> None
                | Some cur \<Rightarrow>
                    Some (if pp_next (pool P cur) \<noteq> None then upd_slot cur (\<lambda>x. x\<lparr>pp_next := pp_next (pool P p)\<rparr>) P else P)))"

definition shed_parked_pcb :: "pcb \<Rightarrow> call list" where
  "shed_parked_pcb p = [Tcp_arg p None, Tcp_recv p False, Tcp_poll p False, Tcp_err p False, Tcp_abort p]"

definition free_pb :: "pbuf list \<Rightarrow> call list" where
  "free_pb pb = (if pb \<noteq> [] then [Pbuf_free pb] else [])"

text \<open>\<open>free_queued_items\<close> and \<open>abort_queued_items\<close>, with the calls made so far.\<close>

partial_function (option) free_queued_items :: "sid \<Rightarrow> call list \<Rightarrow> park \<Rightarrow> (call list \<times> park) option" where
  "free_queued_items v t P =
     (case sc_pending (ctxs P v) of
        None \<Rightarrow> Some (t, P)
      | Some p \<Rightarrow>
          let P1 = upd_ctx v (\<lambda>x. x\<lparr>sc_pending := pp_next (pool P p)\<rparr>) P;
              P2 = upd_slot p (\<lambda>x. x\<lparr>pp_pcb := None\<rparr>) P1;
              P3 = upd_ctx v (\<lambda>x. x\<lparr>sc_parked := sc_parked x - 1\<rparr>) P2
          in free_queued_items v (t @ free_pb (pp_pb (pool P p))) P3)"

partial_function (option) abort_queued_items :: "sid \<Rightarrow> call list \<Rightarrow> nat \<Rightarrow> park \<Rightarrow> (nat \<times> call list \<times> park) option" where
  "abort_queued_items v t n P =
     (case sc_pending (ctxs P v) of
        None \<Rightarrow> Some (n, t, P)
      | Some p \<Rightarrow>
          let P1 = upd_ctx v (\<lambda>x. x\<lparr>sc_pending := pp_next (pool P p)\<rparr>) P;
              t1 = t @ free_pb (pp_pb (pool P p));
              P2 = upd_slot p (\<lambda>x. x\<lparr>pp_pcb := None\<rparr>) P1;
              P3 = upd_ctx v (\<lambda>x. x\<lparr>sc_parked := sc_parked x - 1\<rparr>) P2;
              t2 = t1 @ (case pp_pcb (pool P p) of None \<Rightarrow> [] | Some q \<Rightarrow> shed_parked_pcb q)
          in abort_queued_items v t2 (n + 1) P3)"

text \<open>The search for the item of a pcb, and the loop to the end of the list, as the callbacks of the server write them.\<close>

partial_function (option) find_pending :: "park \<Rightarrow> pcb \<Rightarrow> ptr \<Rightarrow> ptr option" where
  "find_pending P q p =
     (case p of None \<Rightarrow> Some None
      | Some i \<Rightarrow> if pp_pcb (pool P i) = Some q then Some (Some i) else find_pending P q (pp_next (pool P i)))"

partial_function (option) find_tail :: "(nat \<Rightarrow> ptr) \<Rightarrow> slot \<Rightarrow> ptr \<Rightarrow> slot option" where
  "find_tail nx sl cur = (case cur of None \<Rightarrow> Some sl | Some a \<Rightarrow> find_tail nx (Next_slot a) (nx a))"

definition write_link :: "sid \<Rightarrow> slot \<Rightarrow> ptr \<Rightarrow> park \<Rightarrow> park" where
  "write_link v sl x P =
     (case sl of Head_slot \<Rightarrow> upd_ctx v (\<lambda>y. y\<lparr>sc_pending := x\<rparr>) P
      | Next_slot a \<Rightarrow> upd_slot a (\<lambda>y. y\<lparr>pp_next := x\<rparr>) P)"

section \<open>The queues of the servers\<close>

text \<open>
  \<open>wf_park P L\<close>: \<open>L v\<close> lists the slots of server \<open>v\<close>, oldest first. The links of the pool spell out each list, the
  counts are their lengths, every slot with a pcb is in exactly one list, and no other is.
\<close>

definition wf_park :: "park \<Rightarrow> (sid \<Rightarrow> nat list) \<Rightarrow> bool" where
  "wf_park P L \<longleftrightarrow>
     (\<forall>v. chain (nexts P) (sc_pending (ctxs P v)) (L v) None \<and> distinct (L v) \<and> sc_parked (ctxs P v) = int (length (L v)))
     \<and> (\<forall>v i. i \<in> set (L v) \<longrightarrow> i < SSL_PARKED_SLOTS \<and> pp_pcb (pool P i) \<noteq> None)
     \<and> (\<forall>v w i. i \<in> set (L v) \<longrightarrow> i \<in> set (L w) \<longrightarrow> v = w)
     \<and> (\<forall>i < SSL_PARKED_SLOTS. pp_pcb (pool P i) \<noteq> None \<longrightarrow> (\<exists>v. i \<in> set (L v)))
     \<and> pool_idx P < SSL_PARKED_SLOTS"

lemma nexts_upd [simp]:
  "nexts (upd_slot i f P) = (nexts P)(i := pp_next (f (pool P i)))" "nexts (upd_ctx v g P) = nexts P"
  "nexts (P\<lparr>pool_idx := n\<rparr>) = nexts P"
  by (auto simp: nexts_def fun_eq_iff)

lemma wf_parkD:
  assumes "wf_park P L"
  shows "chain (nexts P) (sc_pending (ctxs P v)) (L v) None" "distinct (L v)" "sc_parked (ctxs P v) = int (length (L v))"
    "i \<in> set (L v) \<Longrightarrow> i < SSL_PARKED_SLOTS" "i \<in> set (L v) \<Longrightarrow> pp_pcb (pool P i) \<noteq> None" "pool_idx P < SSL_PARKED_SLOTS"
    "i \<in> set (L v) \<Longrightarrow> i \<in> set (L w) \<Longrightarrow> v = w"
    "i < SSL_PARKED_SLOTS \<Longrightarrow> pp_pcb (pool P i) \<noteq> None \<Longrightarrow> \<exists>v. i \<in> set (L v)"
  using assms by (auto simp: wf_park_def)

lemma wf_park_new: "wf_park new_park (\<lambda>_. [])"
  by (simp add: wf_park_def new_park_def new_sec_ctx_def SSL_PARKED_SLOTS_def)

lemma sc_pending_wf: "wf_park P L \<Longrightarrow> sc_pending (ctxs P v) = (case L v of [] \<Rightarrow> None | x # _ \<Rightarrow> Some x)"
  using wf_parkD(1) [of P L v] by (cases "L v") auto

text \<open>No list is longer than the pool.\<close>

lemma wf_park_length: "wf_park P L \<Longrightarrow> length (L v) \<le> SSL_PARKED_SLOTS"
proof -
  assume wf: "wf_park P L"
  have "set (L v) \<subseteq> {..<SSL_PARKED_SLOTS}" using wf_parkD(4) [OF wf] by auto
  then have "card (set (L v)) \<le> SSL_PARKED_SLOTS" using card_mono [of "{..<SSL_PARKED_SLOTS}"] by simp
  then show ?thesis using wf_parkD(2) [OF wf, of v] by (simp add: distinct_card)
qed

section \<open>Allocation\<close>

text \<open>The candidates of a scan, in order.\<close>

definition cands :: "nat \<Rightarrow> nat \<Rightarrow> nat list" where
  "cands n i = map (\<lambda>k. (i + k) mod SSL_PARKED_SLOTS) [0..<n]"

lemma cands_Suc: "i < SSL_PARKED_SLOTS \<Longrightarrow> cands (Suc n) i = i # cands n ((i + 1) mod SSL_PARKED_SLOTS)"
  unfolding cands_def upt_conv_Cons [OF zero_less_Suc] map_Suc_upt [symmetric] list.map map_map
  by (auto simp: mod_simps ac_simps)

lemma park_scan_eq:
  "pool_idx P < SSL_PARKED_SLOTS \<Longrightarrow>
   \<exists>n'. n' < SSL_PARKED_SLOTS \<and> park_scan n P = (find (\<lambda>i. pp_pcb (pool P i) = None) (cands n (pool_idx P)), P\<lparr>pool_idx := n'\<rparr>)"
proof (induction n arbitrary: P)
  case 0
  then show ?case by (intro exI [of _ "pool_idx P"]) (simp add: cands_def)
next
  case (Suc n)
  let ?P = "P\<lparr>pool_idx := (pool_idx P + 1) mod SSL_PARKED_SLOTS\<rparr>"
  have lt: "(pool_idx P + 1) mod SSL_PARKED_SLOTS < SSL_PARKED_SLOTS" by (simp add: SSL_PARKED_SLOTS_def)
  have "\<exists>n' < SSL_PARKED_SLOTS. park_scan n ?P =
      (find (\<lambda>i. pp_pcb (pool P i) = None) (cands n ((pool_idx P + 1) mod SSL_PARKED_SLOTS)), P\<lparr>pool_idx := n'\<rparr>)"
    using Suc.IH [of ?P] lt by simp
  then show ?case
    using Suc.prems lt
    by (cases "pp_pcb (pool P (pool_idx P)) = None") (auto simp: cands_Suc Let_def intro!: exI [of _ "Suc (pool_idx P) mod SSL_PARKED_SLOTS"])
qed

lemma set_cands: "i < SSL_PARKED_SLOTS \<Longrightarrow> set (cands SSL_PARKED_SLOTS i) = {..<SSL_PARKED_SLOTS}"
proof -
  assume i: "i < SSL_PARKED_SLOTS"
  have "(i + (j + SSL_PARKED_SLOTS - i) mod SSL_PARKED_SLOTS) mod SSL_PARKED_SLOTS = j" if "j < SSL_PARKED_SLOTS" for j
    using i that by (simp add: mod_add_right_eq)
  then have "j \<in> set (cands SSL_PARKED_SLOTS i)" if "j < SSL_PARKED_SLOTS" for j
    using that unfolding cands_def by (force intro!: image_eqI [of _ _ "(j + SSL_PARKED_SLOTS - i) mod SSL_PARKED_SLOTS"]
        simp: SSL_PARKED_SLOTS_def)
  then show ?thesis by (auto simp: cands_def SSL_PARKED_SLOTS_def)
qed

lemma find_None: "find p xs = None \<longleftrightarrow> (\<forall>x \<in> set xs. \<not> p x)"
  by (induction xs) auto

lemma find_SomeD: "find p xs = Some x \<Longrightarrow> x \<in> set xs \<and> p x"
  by (induction xs) (auto split: if_splits)

text \<open>\<open>park_alloc\<close> returns a free slot when there is one, and only moves the index.\<close>

lemma park_alloc_cases:
  assumes "pool_idx P < SSL_PARKED_SLOTS"
  obtains (hit) i n where "park_alloc P = (Some i, P\<lparr>pool_idx := n\<rparr>)" "i < SSL_PARKED_SLOTS" "n < SSL_PARKED_SLOTS"
      "pp_pcb (pool P i) = None"
  | (miss) n where "park_alloc P = (None, P\<lparr>pool_idx := n\<rparr>)" "n < SSL_PARKED_SLOTS"
      "\<forall>i < SSL_PARKED_SLOTS. pp_pcb (pool P i) \<noteq> None"
proof -
  obtain n where n: "n < SSL_PARKED_SLOTS"
    "park_alloc P = (find (\<lambda>i. pp_pcb (pool P i) = None) (cands SSL_PARKED_SLOTS (pool_idx P)), P\<lparr>pool_idx := n\<rparr>)"
    using park_scan_eq [OF assms, of SSL_PARKED_SLOTS] by (auto simp: park_alloc_def)
  show thesis
  proof (cases "find (\<lambda>i. pp_pcb (pool P i) = None) (cands SSL_PARKED_SLOTS (pool_idx P))")
    case None
    then show thesis using n miss by (simp add: find_None set_cands [OF assms])
  next
    case (Some i)
    then show thesis using n hit find_SomeD [OF Some] by (simp add: set_cands [OF assms])
  qed
qed

section \<open>Lists\<close>

lemma find_pending_chain:
  "chain (nexts P) p xs None \<Longrightarrow> find_pending P q p = Some (find (\<lambda>i. pp_pcb (pool P i) = Some q) xs)"
proof (induction xs arbitrary: p)
  case Nil
  then show ?case by (simp add: find_pending.simps)
next
  case (Cons a xs)
  then show ?case by (subst find_pending.simps) (simp add: nexts_def)
qed

lemma find_tail_chain: "chain nx p xs None \<Longrightarrow> find_tail nx sl p = Some (tail_slot sl xs)"
proof (induction xs arbitrary: p sl)
  case Nil
  then show ?case by (simp add: find_tail.simps)
next
  case (Cons a xs)
  then show ?case by (subst find_tail.simps) (simp add: tail_slot_def)
qed

lemma seek_before_chain:
  "chain nx (Some h) (h # xs @ p # ys) None \<Longrightarrow> p \<notin> set xs \<Longrightarrow> seek_before nx p h = Some (last (h # xs))"
proof (induction xs arbitrary: h)
  case Nil
  then show ?case by (subst seek_before.simps) simp
next
  case (Cons a xs)
  then show ?case by (subst seek_before.simps) simp
qed

text \<open>Unlinking an item of the list: the links spell out the list without it.\<close>

lemma unlink_pending_chain:
  assumes ch: "chain (nexts P) (sc_pending (ctxs P v)) (xs @ p # ys) None" and d: "distinct (xs @ p # ys)"
  shows "\<exists>P'. unlink_pending v p P = Some P' \<and> chain (nexts P') (sc_pending (ctxs P' v)) (xs @ ys) None
    \<and> (\<forall>i. i \<notin> set xs \<longrightarrow> pool P' i = pool P i) \<and> (\<forall>i. (pool P' i)\<lparr>pp_next := None\<rparr> = (pool P i)\<lparr>pp_next := None\<rparr>)
    \<and> (\<forall>w. (ctxs P' w)\<lparr>sc_pending := None\<rparr> = (ctxs P w)\<lparr>sc_pending := None\<rparr> \<and> (w \<noteq> v \<longrightarrow> ctxs P' w = ctxs P w))
    \<and> pool_idx P' = pool_idx P"
proof (cases xs)
  case Nil
  with ch d show ?thesis
    by (auto simp: unlink_pending_def nexts_def)
next
  case (Cons h zs)
  have h: "sc_pending (ctxs P v) = Some h" "h \<noteq> p" using ch d Cons by auto
  define cur where "cur = last (h # zs)"
  obtain ws where ws: "xs = ws @ [cur]" using Cons cur_def by (metis append_butlast_last_id list.distinct(1))
  have s: "seek_before (nexts P) p h = Some cur"
    unfolding cur_def by (rule seek_before_chain [where ys = ys]) (use ch d Cons h in auto)
  have nx: "pp_next (pool P cur) = Some p" using ch by (simp add: ws chain_append nexts_def)
  have "chain ((nexts P)(cur := pp_next (pool P p))) (sc_pending (ctxs P v)) (ws @ [cur] @ ys) None"
    using ch d by (auto simp: ws chain_append nexts_def)
  then show ?thesis
    using h s nx ws by (auto simp: unlink_pending_def)
qed

text \<open>Writing the link at the end: the list with the item appended.\<close>

lemma write_tail_chain:
  assumes ch: "chain (nexts P) (sc_pending (ctxs P v)) xs None" and d: "distinct xs" and i: "i \<notin> set xs" "pp_next (pool P i) = None"
  shows "chain (nexts (write_link v (tail_slot Head_slot xs) (Some i) P))
      (sc_pending (ctxs (write_link v (tail_slot Head_slot xs) (Some i) P) v)) (xs @ [i]) None"
proof (cases xs rule: rev_cases)
  case Nil
  with i show ?thesis by (simp add: write_link_def nexts_def)
next
  case (snoc ys a)
  with ch d i show ?thesis
    by (auto simp: write_link_def chain_append nexts_def)
qed

section \<open>What the server does with its queue\<close>

text \<open>The parts of the callbacks of \<open>SecureServerHooks\<close> that change the queue. \<open>tot_len\<close> is \<open>pb->tot_len\<close>.\<close>

definition SSL_PARKED_RX_CAP :: u32 where
  "SSL_PARKED_RX_CAP = 2000"

definition pb_total :: "pbuf list \<Rightarrow> nat" where
  "pb_total pb = length (concat (map pb_data pb))"

definition tot_len :: "pbuf list \<Rightarrow> u16" where
  "tot_len pb = of_nat (pb_total pb)"

text \<open>\<open>_acceptTls\<close>: a new connection is parked at the end of the queue.\<close>

definition park_conn :: "sid \<Rightarrow> pcb \<Rightarrow> u32 \<Rightarrow> park \<Rightarrow> park option" where
  "park_conn v q ms P =
     (case park_alloc P of
        (None, P1) \<Rightarrow> None
      | (Some i, P1) \<Rightarrow>
          let P2 = upd_slot i (\<lambda>_. \<lparr>pp_pcb = Some q, pp_pb = [], pp_len = 0, pp_ms = ms, pp_next = None\<rparr>) P1
          in (case find_tail (nexts P2) Head_slot (sc_pending (ctxs P2 v)) of
                None \<Rightarrow> None
              | Some tail \<Rightarrow>
                  Some (upd_ctx v (\<lambda>x. x\<lparr>sc_parked := sc_parked x + 1\<rparr>) (write_link v tail (Some i) P2))))"

text \<open>\<open>_s_poll\<close> and \<open>_s_recv\<close>: the bookkeeping of a connection that is given up.\<close>

definition drop_parked :: "sid \<Rightarrow> nat \<Rightarrow> park \<Rightarrow> park option" where
  "drop_parked v p P =
     (case unlink_pending v p P of
        None \<Rightarrow> None
      | Some P1 \<Rightarrow>
          Some (upd_slot p (\<lambda>x. x\<lparr>pp_pcb := None\<rparr>) (upd_ctx v (\<lambda>x. x\<lparr>sc_parked := sc_parked x - 1\<rparr>) P1)))"

text \<open>\<open>_promoteSlot\<close>: the first connection leaves the queue.\<close>

definition pop_parked :: "sid \<Rightarrow> nat \<Rightarrow> park \<Rightarrow> park" where
  "pop_parked v p P =
     upd_slot p (\<lambda>x. x\<lparr>pp_pcb := None, pp_pb := []\<rparr>)
       (upd_ctx v (\<lambda>x. x\<lparr>sc_pending := pp_next (pool P p), sc_parked := sc_parked x - 1\<rparr>) P)"

text \<open>\<open>_s_recv\<close>: bytes for a parked connection.\<close>

definition rx_parked :: "nat \<Rightarrow> pbuf list \<Rightarrow> park \<Rightarrow> call list \<times> park" where
  "rx_parked i pb P =
     (let x = pool P i; inc = tot_len pb
      in if (ucast (pp_len x) + ucast inc :: u32) \<le> SSL_PARKED_RX_CAP
         then (if pp_pb x \<noteq> [] then [Pbuf_chain (pp_pb x) pb] else [],
               upd_slot i (\<lambda>x. x\<lparr>pp_pb := pp_pb x @ pb, pp_len := pp_len x + inc\<rparr>) P)
         else ([Pbuf_free pb], P))"

section \<open>Each of them keeps the queues well-formed\<close>

lemma write_link_frame [simp]:
  "pool_idx (write_link v sl x P) = pool_idx P"
  "pp_pcb (pool (write_link v sl x P) j) = pp_pcb (pool P j)" "pp_pb (pool (write_link v sl x P) j) = pp_pb (pool P j)"
  "pp_ms (pool (write_link v sl x P) j) = pp_ms (pool P j)" "pp_len (pool (write_link v sl x P) j) = pp_len (pool P j)"
  "w \<noteq> v \<Longrightarrow> ctxs (write_link v sl x P) w = ctxs P w"
  "sc_parked (ctxs (write_link v sl x P) w) = sc_parked (ctxs P w)"
  by (cases sl; simp add: write_link_def)+

lemma nexts_same [simp]: "(nexts P)(i := pp_next (pool P i)) = nexts P"
  by (auto simp: nexts_def fun_eq_iff)

lemma chain_cong: "(\<And>i. i \<in> set xs \<Longrightarrow> f i = g i) \<Longrightarrow> chain f p xs q = chain g p xs q"
  by (induction xs arbitrary: p) auto

lemma write_link_nexts: "j \<notin> set xs \<Longrightarrow> nexts (write_link v (tail_slot Head_slot xs) x P) j = nexts P j"
  by (cases xs rule: rev_cases) (auto simp: write_link_def)

lemma park_conn_wf:
  assumes wf: "wf_park P L" and free: "\<exists>i < SSL_PARKED_SLOTS. pp_pcb (pool P i) = None"
  shows "\<exists>P' i. park_conn v q ms P = Some P' \<and> wf_park P' (L(v := L v @ [i])) \<and> pp_pcb (pool P i) = None
    \<and> pp_pcb (pool P' i) = Some q \<and> pp_pb (pool P' i) = [] \<and> pp_len (pool P' i) = 0 \<and> pp_ms (pool P' i) = ms
    \<and> (\<forall>j. j \<noteq> i \<longrightarrow> (pool P' j)\<lparr>pp_next := None\<rparr> = (pool P j)\<lparr>pp_next := None\<rparr>)"
proof -
  obtain i n where a: "park_alloc P = (Some i, P\<lparr>pool_idx := n\<rparr>)" "i < SSL_PARKED_SLOTS" "n < SSL_PARKED_SLOTS" "pp_pcb (pool P i) = None"
    using free by (rule_tac park_alloc_cases [OF wf_parkD(6) [OF wf]]) auto
  define P2 where "P2 = upd_slot i (\<lambda>_. \<lparr>pp_pcb = Some q, pp_pb = [], pp_len = 0, pp_ms = ms, pp_next = None\<rparr>) (P\<lparr>pool_idx := n\<rparr>)"
  define P3 where "P3 = write_link v (tail_slot Head_slot (L v)) (Some i) P2"
  define P' where "P' = upd_ctx v (\<lambda>x. x\<lparr>sc_parked := sc_parked x + 1\<rparr>) P3"
  have fresh: "i \<notin> set (L w)" for w using wf_parkD(5) [OF wf, of i w] a(4) by auto
  have ch: "chain (nexts P2) (sc_pending (ctxs P2 w)) (L w) None" for w
    using wf_parkD(1) [OF wf, of w] fresh [of w] by (simp add: P2_def)
  have run: "park_conn v q ms P = Some P'"
    unfolding park_conn_def a(1) prod.case option.case Let_def P2_def [symmetric] find_tail_chain [OF ch [of v]]
    by (simp add: P3_def P'_def)
  have new: "chain (nexts P') (sc_pending (ctxs P' v)) (L v @ [i]) None"
    using write_tail_chain [OF ch [of v] wf_parkD(2) [OF wf] fresh] by (simp add: P'_def P3_def P2_def)
  have other: "chain (nexts P') (sc_pending (ctxs P' w)) (L w) None" if "w \<noteq> v" for w
  proof -
    have "nexts P' j = nexts P2 j" if "j \<in> set (L w)" for j
      using wf_parkD(7) [OF wf that] \<open>w \<noteq> v\<close> by (auto simp: P'_def P3_def intro!: write_link_nexts)
    then show ?thesis using ch [of w] that by (subst chain_cong [where g = "nexts P2"]) (auto simp: P'_def P3_def)
  qed
  have pcbs: "pp_pcb (pool P' j) = (if j = i then Some q else pp_pcb (pool P j))" for j
    by (simp add: P'_def P3_def P2_def)
  have "wf_park P' (L(v := L v @ [i]))"
    unfolding wf_park_def
  proof (intro conjI allI impI)
    fix w show "chain (nexts P') (sc_pending (ctxs P' w)) ((L(v := L v @ [i])) w) None" using new other by simp
  next
    fix w show "distinct ((L(v := L v @ [i])) w)" using wf_parkD(2) [OF wf] fresh by simp
  next
    fix w show "sc_parked (ctxs P' w) = int (length ((L(v := L v @ [i])) w))"
      using wf_parkD(3) [OF wf] by (simp add: P'_def P3_def P2_def)
  next
    fix w j assume "j \<in> set ((L(v := L v @ [i])) w)"
    then show "j < SSL_PARKED_SLOTS" "pp_pcb (pool P' j) \<noteq> None"
      using wf_parkD(4,5) [OF wf] a(2) pcbs by (auto split: if_splits)
  next
    fix w x j assume "j \<in> set ((L(v := L v @ [i])) w)" "j \<in> set ((L(v := L v @ [i])) x)"
    then show "w = x" using wf_parkD(7) [OF wf] fresh by (auto split: if_splits)
  next
    fix j assume "j < SSL_PARKED_SLOTS" "pp_pcb (pool P' j) \<noteq> None"
    then obtain w where "j = i \<or> j \<in> set (L w)" using wf_parkD(8) [OF wf, of j] pcbs [of j] by (auto split: if_splits)
    then have "j \<in> set ((L(v := L v @ [i])) (if j = i then v else w))" by auto
    then show "\<exists>w. j \<in> set ((L(v := L v @ [i])) w)" ..
  next
    show "pool_idx P' < SSL_PARKED_SLOTS" using a(3) by (simp add: P'_def P3_def P2_def)
  qed
  moreover have "(pool P' j)\<lparr>pp_next := None\<rparr> = (pool P j)\<lparr>pp_next := None\<rparr>" if "j \<noteq> i" for j
    using that by (auto simp: P'_def P3_def P2_def write_link_def split: slot.split)
  ultimately show ?thesis
    using run a(4) by (intro exI [of _ P'] exI [of _ i]) (simp add: P'_def P3_def P2_def)
qed

text \<open>A connection leaves the queue, from anywhere in it: the others stay, in order.\<close>

lemma leave_wf:
  assumes wf: "wf_park P L" and L: "L v = xs @ p # ys"
    and ch: "chain (nexts P') (sc_pending (ctxs P' v)) (xs @ ys) None"
    and other: "\<And>i. i \<notin> set xs \<Longrightarrow> nexts P' i = nexts P i" "\<And>w. w \<noteq> v \<Longrightarrow> ctxs P' w = ctxs P w"
    and parked: "sc_parked (ctxs P' v) = sc_parked (ctxs P v) - 1" and idx: "pool_idx P' = pool_idx P"
    and pcbs: "\<And>i. pp_pcb (pool P' i) = (if i = p then None else pp_pcb (pool P i))"
  shows "wf_park P' (L(v := xs @ ys))"
  unfolding wf_park_def
proof (intro conjI allI impI)
  fix w
  have "chain (nexts P') (sc_pending (ctxs P' w)) (L w) None" if "w \<noteq> v"
  proof -
    have "nexts P' j = nexts P j" if "j \<in> set (L w)" for j
      using wf_parkD(7) [OF wf that, of v] \<open>w \<noteq> v\<close> L by (auto intro!: other(1))
    then show ?thesis using wf_parkD(1) [OF wf, of w] other(2) [OF that] by (subst chain_cong [where g = "nexts P"]) auto
  qed
  then show "chain (nexts P') (sc_pending (ctxs P' w)) ((L(v := xs @ ys)) w) None" using ch by simp
next
  fix w show "distinct ((L(v := xs @ ys)) w)" using wf_parkD(2) [OF wf, of w] wf_parkD(2) [OF wf, of v] L by auto
next
  fix w show "sc_parked (ctxs P' w) = int (length ((L(v := xs @ ys)) w))"
    using wf_parkD(3) [OF wf, of w] wf_parkD(3) [OF wf, of v] L parked other(2) by auto
next
  fix w j assume j: "j \<in> set ((L(v := xs @ ys)) w)"
  have "j \<noteq> p"
    using j wf_parkD(2) [OF wf, of v] wf_parkD(7) [OF wf, of j w v] L by (auto split: if_splits)
  moreover have "j \<in> set (L w)" using j L by (auto split: if_splits)
  ultimately show "j < SSL_PARKED_SLOTS" "pp_pcb (pool P' j) \<noteq> None"
    using wf_parkD(4,5) [OF wf] pcbs by auto
next
  fix w x j assume "j \<in> set ((L(v := xs @ ys)) w)" "j \<in> set ((L(v := xs @ ys)) x)"
  then have "j \<in> set (L w)" "j \<in> set (L x)" using L by (auto split: if_splits)
  then show "w = x" by (rule wf_parkD(7) [OF wf])
next
  fix j assume "j < SSL_PARKED_SLOTS" "pp_pcb (pool P' j) \<noteq> None"
  then have "j \<noteq> p" "pp_pcb (pool P j) \<noteq> None" using pcbs by (auto split: if_splits)
  then obtain w where w: "j \<in> set (L w)" using wf_parkD(8) [OF wf, of j] \<open>j < SSL_PARKED_SLOTS\<close> by auto
  then have "j \<in> set ((L(v := xs @ ys)) w)" using L \<open>j \<noteq> p\<close> by auto
  then show "\<exists>w. j \<in> set ((L(v := xs @ ys)) w)" ..
next
  show "pool_idx P' < SSL_PARKED_SLOTS" using idx wf_parkD(6) [OF wf] by simp
qed

lemma drop_parked_wf:
  assumes wf: "wf_park P L" and L: "L v = xs @ p # ys"
  shows "\<exists>P'. drop_parked v p P = Some P' \<and> wf_park P' (L(v := xs @ ys))
    \<and> (\<forall>i. i \<noteq> p \<longrightarrow> (pool P' i)\<lparr>pp_next := None\<rparr> = (pool P i)\<lparr>pp_next := None\<rparr>)"
proof -
  have "chain (nexts P) (sc_pending (ctxs P v)) (xs @ p # ys) None" "distinct (xs @ p # ys)"
    using wf_parkD(1,2) [OF wf, of v] L by simp_all
  from unlink_pending_chain [OF this] obtain P1 where u: "unlink_pending v p P = Some P1"
    and ch: "chain (nexts P1) (sc_pending (ctxs P1 v)) (xs @ ys) None"
    and pl: "\<And>i. i \<notin> set xs \<Longrightarrow> pool P1 i = pool P i" "\<And>i. (pool P1 i)\<lparr>pp_next := None\<rparr> = (pool P i)\<lparr>pp_next := None\<rparr>"
    and cx: "\<And>w. (ctxs P1 w)\<lparr>sc_pending := None\<rparr> = (ctxs P w)\<lparr>sc_pending := None\<rparr>" "\<And>w. w \<noteq> v \<Longrightarrow> ctxs P1 w = ctxs P w"
    and idx: "pool_idx P1 = pool_idx P" by blast
  have "(ctxs P1 v)\<lparr>sc_pending := None\<rparr> = (ctxs P v)\<lparr>sc_pending := None\<rparr>" by (rule cx(1))
  from arg_cong [OF this, of sc_parked] have parked: "sc_parked (ctxs P1 v) = sc_parked (ctxs P v)" by simp
  have pcbs: "pp_pcb (pool P1 i) = pp_pcb (pool P i)" for i
    using arg_cong [OF pl(2) [of i], of pp_pcb] by simp
  define P' where "P' = upd_slot p (\<lambda>x. x\<lparr>pp_pcb := None\<rparr>) (upd_ctx v (\<lambda>x. x\<lparr>sc_parked := sc_parked x - 1\<rparr>) P1)"
  have nx: "nexts P' = nexts P1" by (auto simp: P'_def nexts_def fun_eq_iff)
  have "wf_park P' (L(v := xs @ ys))"
    by (rule leave_wf [OF wf L])
      (use ch pl(1) cx(2) idx in \<open>auto simp: nx P'_def parked pcbs\<close>, auto simp: nexts_def)
  moreover have "drop_parked v p P = Some P'" by (simp add: drop_parked_def u P'_def)
  ultimately show ?thesis using pl(2) by (intro exI [of _ P']) (simp add: P'_def)
qed

lemma pop_parked_wf:
  assumes wf: "wf_park P L" and L: "L v = p # ys"
  shows "wf_park (pop_parked v p P) (L(v := ys))"
    and "i \<noteq> p \<Longrightarrow> pool (pop_parked v p P) i = pool P i"
proof -
  have ch: "chain (nexts P) (Some p) (p # ys) None" "sc_pending (ctxs P v) = Some p"
    using wf_parkD(1) [OF wf, of v] L by auto
  have nx: "nexts (pop_parked v p P) = nexts P" by (auto simp: pop_parked_def nexts_def fun_eq_iff)
  have "wf_park (pop_parked v p P) (L(v := [] @ ys))"
    by (rule leave_wf [OF wf, of v "[]" p]) (use L ch in \<open>auto simp: nx pop_parked_def nexts_def\<close>)
  then show "wf_park (pop_parked v p P) (L(v := ys))" by simp
qed (simp add: pop_parked_def)

lemma free_queued_eq:
  "chain (nexts P) (sc_pending (ctxs P v)) xs None \<Longrightarrow> distinct xs \<Longrightarrow>
   free_queued_items v t P =
     Some (t @ concat (map (\<lambda>i. free_pb (pp_pb (pool P i))) xs),
           P\<lparr>pool := (\<lambda>i. if i \<in> set xs then (pool P i)\<lparr>pp_pcb := None\<rparr> else pool P i),
             ctxs := (ctxs P)(v := (ctxs P v)\<lparr>sc_pending := None, sc_parked := sc_parked (ctxs P v) - int (length xs)\<rparr>)\<rparr>)"
proof (induction xs arbitrary: P t)
  case Nil
  then have "(ctxs P)(v := (ctxs P v)\<lparr>sc_pending := None\<rparr>) = ctxs P"
    by (intro fun_upd_idem) (metis chain.simps(1) sec_ctx.surjective sec_ctx.update_convs(6))
  with Nil show ?case by (simp add: free_queued_items.simps)
next
  case (Cons a xs)
  let ?P = "upd_ctx v (\<lambda>x. x\<lparr>sc_parked := sc_parked x - 1\<rparr>)
    (upd_slot a (\<lambda>x. x\<lparr>pp_pcb := None\<rparr>) (upd_ctx v (\<lambda>x. x\<lparr>sc_pending := pp_next (pool P a)\<rparr>) P))"
  have nx: "nexts ?P = nexts P" by (auto simp: nexts_def fun_eq_iff)
  have p: "sc_pending (ctxs P v) = Some a" and d: "a \<notin> set xs" "distinct xs" using Cons.prems by auto
  have "chain (nexts ?P) (sc_pending (ctxs ?P v)) xs None" using Cons.prems p unfolding nx by (simp add: nexts_def [of P a])
  note ih = Cons.IH [OF this d(2), of "t @ free_pb (pp_pb (pool P a))"]
  have m: "map (\<lambda>i. free_pb (pp_pb (pool ?P i))) xs = map (\<lambda>i. free_pb (pp_pb (pool P i))) xs"
    using d(1) by (auto intro: map_cong)
  have "free_queued_items v t P = free_queued_items v (t @ free_pb (pp_pb (pool P a))) ?P"
    by (subst free_queued_items.simps) (simp add: p Let_def)
  then show ?case unfolding ih m using d(1) by (auto simp: upd_slot_def upd_ctx_def fun_eq_iff intro!: ext)
qed

section \<open>The queue of one server as a bounded FIFO\<close>

text \<open>What happens to the queue of a server, as one relation-free vocabulary for the code and for the specification.\<close>

datatype park_op =
    Park pcb u32
  | Give_up pcb
  | Promote
  | Peer_error
  | Bytes pcb "pbuf list"

fun park_step :: "sid \<Rightarrow> park_op \<Rightarrow> park \<Rightarrow> park option" where
  "park_step v (Park q ms) P = (if sc_parked (ctxs P v) < int SSL_PARKED_SLOTS then park_conn v q ms P else Some P)"
| "park_step v (Give_up q) P =
     (case find_pending P q (sc_pending (ctxs P v)) of
        None \<Rightarrow> None | Some None \<Rightarrow> Some P | Some (Some i) \<Rightarrow> drop_parked v i P)"
| "park_step v Promote P = (case sc_pending (ctxs P v) of None \<Rightarrow> Some P | Some p \<Rightarrow> Some (pop_parked v p P))"
| "park_step v Peer_error P = map_option snd (free_queued_items v [] P)"
| "park_step v (Bytes q pb) P =
     (case find_pending P q (sc_pending (ctxs P v)) of
        None \<Rightarrow> None | Some None \<Rightarrow> Some P | Some (Some i) \<Rightarrow> Some (snd (rx_parked i pb P)))"

fun park_run :: "sid \<Rightarrow> park_op list \<Rightarrow> park \<Rightarrow> park option" where
  "park_run v [] P = Some P"
| "park_run v (x # xs) P = (case park_step v x P of None \<Rightarrow> None | Some P' \<Rightarrow> park_run v xs P')"

text \<open>The specification: a list of connections, each with the time it was parked and the bytes it sent so far.\<close>

type_synonym waiting = "pcb \<times> u32 \<times> pbuf list"

fun on_first :: "pcb \<Rightarrow> (waiting \<Rightarrow> waiting list) \<Rightarrow> waiting list \<Rightarrow> waiting list" where
  "on_first q f [] = []"
| "on_first q f (x # xs) = (if fst x = q then f x @ xs else x # on_first q f xs)"

fun fifo_step :: "park_op \<Rightarrow> waiting list \<Rightarrow> waiting list" where
  "fifo_step (Park q ms) xs = (if length xs < SSL_PARKED_SLOTS then xs @ [(q, ms, [])] else xs)"
| "fifo_step (Give_up q) xs = on_first q (\<lambda>_. []) xs"
| "fifo_step Promote xs = tl xs"
| "fifo_step Peer_error xs = []"
| "fifo_step (Bytes q pb) xs =
     on_first q (\<lambda>(q, ms, b). [(q, ms, if pb_total b + pb_total pb \<le> 2000 then b @ pb else b)]) xs"

definition item_of :: "park \<Rightarrow> nat \<Rightarrow> waiting" where
  "item_of P i = (the (pp_pcb (pool P i)), pp_ms (pool P i), pp_pb (pool P i))"

definition buf_ok :: "pending_pcb \<Rightarrow> bool" where
  "buf_ok x \<longleftrightarrow> pp_len x = tot_len (pp_pb x) \<and> pb_total (pp_pb x) \<le> 2000"

definition queue_is :: "sid \<Rightarrow> park \<Rightarrow> waiting list \<Rightarrow> bool" where
  "queue_is v P xs \<longleftrightarrow>
     (\<exists>L. wf_park P L \<and> (\<forall>w. w \<noteq> v \<longrightarrow> L w = []) \<and> xs = map (item_of P) (L v) \<and> (\<forall>i \<in> set (L v). buf_ok (pool P i)))"

fun op_ok :: "park_op \<Rightarrow> bool" where
  "op_ok (Bytes q pb) \<longleftrightarrow> pb_total pb < 2 ^ 16"
| "op_ok _ \<longleftrightarrow> True"

lemma queue_isE:
  assumes "queue_is v P xs"
  obtains l where "wf_park P ((\<lambda>_. [])(v := l))" "xs = map (item_of P) l" "\<And>i. i \<in> set l \<Longrightarrow> buf_ok (pool P i)"
proof -
  from assms obtain L where L: "wf_park P L" "\<forall>w. w \<noteq> v \<longrightarrow> L w = []" "xs = map (item_of P) (L v)"
      "\<forall>i \<in> set (L v). buf_ok (pool P i)"
    unfolding queue_is_def by blast
  have "L = (\<lambda>_. [])(v := L v)" using L(2) by (auto simp: fun_eq_iff)
  then show thesis using that [of "L v"] L by auto
qed

lemma queue_isI:
  "wf_park P ((\<lambda>_. [])(v := l)) \<Longrightarrow> (\<And>i. i \<in> set l \<Longrightarrow> buf_ok (pool P i)) \<Longrightarrow> queue_is v P (map (item_of P) l)"
  unfolding queue_is_def by (intro exI [of _ "(\<lambda>_. [])(v := l)"]) auto

text \<open>Slots that differ in their links only hold the same connection.\<close>

lemma same_slot:
  assumes "(pool P' i)\<lparr>pp_next := None\<rparr> = (pool P i)\<lparr>pp_next := None\<rparr>"
  shows "item_of P' i = item_of P i" "buf_ok (pool P' i) = buf_ok (pool P i)"
proof -
  have "pp_pcb (pool P' i) = pp_pcb (pool P i)" "pp_ms (pool P' i) = pp_ms (pool P i)"
    "pp_pb (pool P' i) = pp_pb (pool P i)" "pp_len (pool P' i) = pp_len (pool P i)"
    using arg_cong [OF assms, of pp_pcb] arg_cong [OF assms, of pp_ms] arg_cong [OF assms, of pp_pb] arg_cong [OF assms, of pp_len]
    by simp_all
  then show "item_of P' i = item_of P i" "buf_ok (pool P' i) = buf_ok (pool P i)" by (simp_all add: item_of_def buf_ok_def)
qed

lemma on_first_map:
  "\<forall>i \<in> set xs. fst (g i) \<noteq> q \<Longrightarrow> fst (g p) = q \<Longrightarrow> on_first q f (map g (xs @ p # ys)) = map g xs @ f (g p) @ map g ys"
  by (induction xs) auto

lemma on_first_none: "\<forall>x \<in> set xs. fst x \<noteq> q \<Longrightarrow> on_first q f xs = xs"
  by (induction xs) auto

lemma find_Some_split:
  "find p xs = Some x \<Longrightarrow> \<exists>ys zs. xs = ys @ x # zs \<and> p x \<and> (\<forall>y \<in> set ys. \<not> p y)"
proof (induction xs)
  case (Cons a xs)
  show ?case
  proof (cases "p a")
    case True
    with Cons.prems have "a # xs = [] @ x # xs \<and> p x" by simp
    then show ?thesis by fastforce
  next
    case False
    with Cons obtain ys zs where "xs = ys @ x # zs \<and> p x \<and> (\<forall>y \<in> set ys. \<not> p y)" by auto
    with False show ?thesis by (intro exI [of _ "a # ys"] exI [of _ zs]) auto
  qed
qed simp

text \<open>The search for a pcb in a well-formed queue: what it finds is what \<open>on_first\<close> changes.\<close>

lemma search_cases:
  assumes wf: "wf_park P ((\<lambda>_. [])(v := l))"
  obtains (none) "find_pending P q (sc_pending (ctxs P v)) = Some None" "\<And>f. on_first q f (map (item_of P) l) = map (item_of P) l"
  | (hit) i xs ys where "find_pending P q (sc_pending (ctxs P v)) = Some (Some i)" "l = xs @ i # ys" "pp_pcb (pool P i) = Some q"
      "\<And>f. on_first q f (map (item_of P) l) = map (item_of P) xs @ f (item_of P i) @ map (item_of P) ys"
proof -
  have f: "find_pending P q (sc_pending (ctxs P v)) = Some (find (\<lambda>i. pp_pcb (pool P i) = Some q) l)"
    using find_pending_chain [OF wf_parkD(1) [OF wf, of v]] by simp
  have fs: "fst (item_of P i) = q \<longleftrightarrow> pp_pcb (pool P i) = Some q" if "i \<in> set l" for i
    using wf_parkD(5) [OF wf, of i v] that by (auto simp: item_of_def)
  show thesis
  proof (cases "find (\<lambda>i. pp_pcb (pool P i) = Some q) l")
    case None
    then have "\<forall>i \<in> set l. fst (item_of P i) \<noteq> q" using fs by (auto simp: find_None)
    then have "on_first q f (map (item_of P) l) = map (item_of P) l" for f by (intro on_first_none) simp
    then show thesis using f None by (intro none) auto
  next
    case (Some i)
    from find_Some_split [OF this] obtain xs ys where s: "l = xs @ i # ys" "pp_pcb (pool P i) = Some q"
      "\<forall>j \<in> set xs. pp_pcb (pool P j) \<noteq> Some q" by blast
    then have "\<forall>j \<in> set xs. fst (item_of P j) \<noteq> q" "fst (item_of P i) = q" using fs by auto
    from on_first_map [OF this] show thesis using f Some s by (intro hit) auto
  qed
qed

lemma tot_len_append: "tot_len (a @ b) = tot_len a + tot_len b"
  by (simp add: tot_len_def pb_total_def)

lemma pb_total_append: "pb_total (a @ b) = pb_total a + pb_total b"
  by (simp add: pb_total_def)

text \<open>The cap is tested on 32 bits, where the sum of two 16-bit lengths does not wrap.\<close>

lemma cap_test:
  assumes "pb_total a \<le> 2000" and "pb_total b < 2 ^ 16"
  shows "(ucast (tot_len a) + ucast (tot_len b) :: u32) \<le> SSL_PARKED_RX_CAP \<longleftrightarrow> pb_total a + pb_total b \<le> 2000"
proof -
  have "unat (tot_len a) = pb_total a" "unat (tot_len b) = pb_total b"
    using assms by (simp_all add: tot_len_def unat_of_nat take_bit_nat_eq_self)
  then have "unat (ucast (tot_len a) + ucast (tot_len b) :: u32) = pb_total a + pb_total b"
    using assms by (simp add: unat_word_ariths unsigned_ucast_eq take_bit_nat_eq_self)
  then show ?thesis by (simp add: word_le_nat_alt SSL_PARKED_RX_CAP_def)
qed

lemma wf_park_cong:
  assumes "wf_park P L" and "nexts P' = nexts P" and "ctxs P' = ctxs P" and "pool_idx P' = pool_idx P"
    and "\<And>i. pp_pcb (pool P' i) = pp_pcb (pool P i)"
  shows "wf_park P' L"
  using assms(1) unfolding wf_park_def assms(2-5) .

lemma buf_ok_empty: "pp_pb x = [] \<Longrightarrow> pp_len x = 0 \<Longrightarrow> buf_ok x"
  by (simp add: buf_ok_def tot_len_def pb_total_def)

text \<open>One lemma per operation; \<open>l\<close> lists the slots of the queue.\<close>

lemma park_refines:
  assumes wf: "wf_park P ((\<lambda>_. [])(v := l))" and xs: "xs = map (item_of P) l" and buf: "\<And>i. i \<in> set l \<Longrightarrow> buf_ok (pool P i)"
  shows "\<exists>P'. park_step v (Park p ms) P = Some P' \<and> queue_is v P' (fifo_step (Park p ms) xs)"
proof -
  have q: "queue_is v P xs" unfolding xs by (rule queue_isI [OF wf buf])
  have len: "sc_parked (ctxs P v) = int (length l)" using wf_parkD(3) [OF wf, of v] by simp
  have d: "distinct l" using wf_parkD(2) [OF wf, of v] by simp
  show ?thesis
  proof (cases "length l < SSL_PARKED_SLOTS")
    case False
    then show ?thesis using q by (simp add: len xs)
  next
    case True
    have "\<exists>i < SSL_PARKED_SLOTS. pp_pcb (pool P i) = None"
    proof (rule ccontr)
      assume "\<not> ?thesis"
      then have "i \<in> set l" if "i < SSL_PARKED_SLOTS" for i using wf_parkD(8) [OF wf that] that by (auto split: if_splits)
      then have "{..<SSL_PARKED_SLOTS} \<subseteq> set l" by auto
      from card_mono [OF _ this] show False using True d by (simp add: distinct_card)
    qed
    from park_conn_wf [OF wf this, of v p ms] obtain P' i where P': "park_conn v p ms P = Some P'"
      "wf_park P' ((\<lambda>_. [])(v := l @ [i]))" "pp_pcb (pool P i) = None"
      "pp_pcb (pool P' i) = Some p" "pp_pb (pool P' i) = []" "pp_len (pool P' i) = 0" "pp_ms (pool P' i) = ms"
      "\<forall>j. j \<noteq> i \<longrightarrow> (pool P' j)\<lparr>pp_next := None\<rparr> = (pool P j)\<lparr>pp_next := None\<rparr>" by auto
    have i: "i \<notin> set l" using wf_parkD(5) [OF wf, of i v] P'(3) by auto
    then have old: "item_of P' j = item_of P j" "buf_ok (pool P' j) = buf_ok (pool P j)" if "j \<in> set l" for j
      using that P'(8) by (auto intro!: same_slot)
    have "queue_is v P' (map (item_of P') (l @ [i]))"
      by (rule queue_isI [OF P'(2)]) (use old buf P'(5,6) in \<open>auto intro: buf_ok_empty\<close>)
    moreover have eq: "map (item_of P') (l @ [i]) = map (item_of P) l @ [(p, ms, [])]"
      using old P' by (simp add: item_of_def)
    ultimately have "queue_is v P' (map (item_of P) l @ [(p, ms, [])])" by (simp only: eq)
    then show ?thesis using True by (simp add: len xs P'(1))
  qed
qed

lemma give_up_refines:
  assumes wf: "wf_park P ((\<lambda>_. [])(v := l))" and xs: "xs = map (item_of P) l" and buf: "\<And>i. i \<in> set l \<Longrightarrow> buf_ok (pool P i)"
  shows "\<exists>P'. park_step v (Give_up p) P = Some P' \<and> queue_is v P' (fifo_step (Give_up p) xs)"
proof -
  have q: "queue_is v P xs" unfolding xs by (rule queue_isI [OF wf buf])
  have len: "sc_parked (ctxs P v) = int (length l)" using wf_parkD(3) [OF wf, of v] by simp
  have d: "distinct l" using wf_parkD(2) [OF wf, of v] by simp
  show ?thesis
  proof (rule search_cases [OF wf, of p])
    assume "find_pending P p (sc_pending (ctxs P v)) = Some None" "\<And>f. on_first p f (map (item_of P) l) = map (item_of P) l"
    then show ?thesis using q by (simp add: xs)
  next
    fix i ys zs assume f: "find_pending P p (sc_pending (ctxs P v)) = Some (Some i)" "l = ys @ i # zs" "pp_pcb (pool P i) = Some p"
      "\<And>f. on_first p f (map (item_of P) l) = map (item_of P) ys @ f (item_of P i) @ map (item_of P) zs"
    obtain P' where P': "drop_parked v i P = Some P'" "wf_park P' ((\<lambda>_. [])(v := ys @ zs))"
      "\<forall>j. j \<noteq> i \<longrightarrow> (pool P' j)\<lparr>pp_next := None\<rparr> = (pool P j)\<lparr>pp_next := None\<rparr>"
      using drop_parked_wf [OF wf, of v ys i zs] f(2) by auto
    have old: "item_of P' j = item_of P j" "buf_ok (pool P' j) = buf_ok (pool P j)" if "j \<in> set (ys @ zs)" for j
      using that d f(2) P'(3) by (auto intro!: same_slot)
    have "queue_is v P' (map (item_of P') (ys @ zs))"
      by (rule queue_isI [OF P'(2)]) (use old buf f(2) in auto)
    moreover have "map (item_of P') (ys @ zs) = fifo_step (Give_up p) xs"
      using old by (simp add: xs f(4))
    ultimately show ?thesis by (simp add: f(1) P'(1))
  qed
qed

lemma promote_refines:
  assumes wf: "wf_park P ((\<lambda>_. [])(v := l))" and xs: "xs = map (item_of P) l" and buf: "\<And>i. i \<in> set l \<Longrightarrow> buf_ok (pool P i)"
  shows "\<exists>P'. park_step v (Promote) P = Some P' \<and> queue_is v P' (fifo_step (Promote) xs)"
proof -
  have q: "queue_is v P xs" unfolding xs by (rule queue_isI [OF wf buf])
  have len: "sc_parked (ctxs P v) = int (length l)" using wf_parkD(3) [OF wf, of v] by simp
  have d: "distinct l" using wf_parkD(2) [OF wf, of v] by simp
  show ?thesis
  proof (cases l)
    case Nil
    then show ?thesis using q sc_pending_wf [OF wf, of v] by (simp add: xs)
  next
    case (Cons i zs)
    have wf': "wf_park (pop_parked v i P) ((\<lambda>_. [])(v := zs))"
      using pop_parked_wf(1) [OF wf, of v i zs] Cons by simp
    have old: "item_of (pop_parked v i P) j = item_of P j" "pool (pop_parked v i P) j = pool P j" if "j \<in> set zs" for j
      using that d Cons by (auto simp: pop_parked_def item_of_def)
    have "queue_is v (pop_parked v i P) (map (item_of (pop_parked v i P)) zs)"
      by (rule queue_isI [OF wf']) (use old buf Cons in auto)
    moreover have "map (item_of (pop_parked v i P)) zs = fifo_step (Promote) xs"
      using old by (simp add: xs Cons)
    ultimately show ?thesis using sc_pending_wf [OF wf, of v] Cons by simp
  qed
qed

lemma peer_error_refines:
  assumes wf: "wf_park P ((\<lambda>_. [])(v := l))" and xs: "xs = map (item_of P) l" and buf: "\<And>i. i \<in> set l \<Longrightarrow> buf_ok (pool P i)"
  shows "\<exists>P'. park_step v (Peer_error) P = Some P' \<and> queue_is v P' (fifo_step (Peer_error) xs)"
proof -
  have q: "queue_is v P xs" unfolding xs by (rule queue_isI [OF wf buf])
  have len: "sc_parked (ctxs P v) = int (length l)" using wf_parkD(3) [OF wf, of v] by simp
  have d: "distinct l" using wf_parkD(2) [OF wf, of v] by simp
  have ch: "chain (nexts P) (sc_pending (ctxs P v)) l None" using wf_parkD(1) [OF wf, of v] by simp
  define P' where "P' = P\<lparr>pool := (\<lambda>i. if i \<in> set l then (pool P i)\<lparr>pp_pcb := None\<rparr> else pool P i),
           ctxs := (ctxs P)(v := (ctxs P v)\<lparr>sc_pending := None, sc_parked := sc_parked (ctxs P v) - int (length l)\<rparr>)\<rparr>"
  have nx: "nexts P' = nexts P" by (auto simp: P'_def nexts_def fun_eq_iff)
  have "pp_pcb (pool P' i) = None" if "i < SSL_PARKED_SLOTS" for i
    using wf_parkD(8) [OF wf that] by (cases "pp_pcb (pool P i)") (auto simp: P'_def split: if_splits)
  moreover have "sc_pending (ctxs P w) = None \<and> sc_parked (ctxs P w) = 0" if "w \<noteq> v" for w
    using wf_parkD(1,3) [OF wf, of w] that by simp
  ultimately have "wf_park P' (\<lambda>_. [])"
    unfolding wf_park_def using wf_parkD(6) [OF wf] by (auto simp: P'_def len split: if_splits)
  then have "wf_park P' ((\<lambda>_. [])(v := []))" by (simp add: fun_upd_idem)
  then have "queue_is v P' (map (item_of P') [])" by (rule queue_isI) simp
  moreover have "park_step v (Peer_error) P = Some P'"
    by (simp add: free_queued_eq [OF ch d] P'_def)
  ultimately show ?thesis by (intro exI [of _ P']) simp
qed

lemma bytes_refines:
  assumes wf: "wf_park P ((\<lambda>_. [])(v := l))" and xs: "xs = map (item_of P) l" and buf: "\<And>i. i \<in> set l \<Longrightarrow> buf_ok (pool P i)" and ok: "pb_total pb < 2 ^ 16"
  shows "\<exists>P'. park_step v (Bytes p pb) P = Some P' \<and> queue_is v P' (fifo_step (Bytes p pb) xs)"
proof -
  have q: "queue_is v P xs" unfolding xs by (rule queue_isI [OF wf buf])
  have len: "sc_parked (ctxs P v) = int (length l)" using wf_parkD(3) [OF wf, of v] by simp
  have d: "distinct l" using wf_parkD(2) [OF wf, of v] by simp
  show ?thesis
  proof (rule search_cases [OF wf, of p])
    assume "find_pending P p (sc_pending (ctxs P v)) = Some None" "\<And>f. on_first p f (map (item_of P) l) = map (item_of P) l"
    then show ?thesis using q by (simp add: xs)
  next
    fix i ys zs assume f: "find_pending P p (sc_pending (ctxs P v)) = Some (Some i)" "l = ys @ i # zs" "pp_pcb (pool P i) = Some p"
      "\<And>f. on_first p f (map (item_of P) l) = map (item_of P) ys @ f (item_of P i) @ map (item_of P) zs"
    define P' where "P' = snd (rx_parked i pb P)"
    have bi: "pp_len (pool P i) = tot_len (pp_pb (pool P i))" "pb_total (pp_pb (pool P i)) \<le> 2000"
      using buf [of i] f(2) by (simp_all add: buf_ok_def)
    have small: "pb_total pb < 2 ^ 16" by (rule ok)
    note cap = cap_test [OF bi(2) small]
    have P': "P' = (if pb_total (pp_pb (pool P i)) + pb_total pb \<le> 2000
        then upd_slot i (\<lambda>x. x\<lparr>pp_pb := pp_pb x @ pb, pp_len := pp_len x + tot_len pb\<rparr>) P else P)"
      using cap by (simp add: P'_def rx_parked_def Let_def bi(1))
    have nx: "nexts P' = nexts P" by (auto simp: P' nexts_def fun_eq_iff)
    have wf': "wf_park P' ((\<lambda>_. [])(v := l))"
      by (rule wf_park_cong [OF wf nx]) (simp_all add: P')
    have old: "pool P' j = pool P j" if "j \<noteq> i" for j using that by (simp add: P')
    have "buf_ok (pool P' j)" if "j \<in> set l" for j
      using buf [OF that] old [of j] bi by (cases "j = i") (auto simp: P' buf_ok_def tot_len_append pb_total_append)
    then have "queue_is v P' (map (item_of P') l)" by (intro queue_isI [OF wf'])
    moreover have "map (item_of P') l = fifo_step (Bytes p pb) xs"
    proof -
      have "item_of P' j = item_of P j" if "j \<in> set ys \<union> set zs" for j
        using that d f(2) old [of j] by (cases "j = i") (auto simp: item_of_def)
      then show ?thesis unfolding xs fifo_step.simps f(4) by (simp add: f(2) item_of_def P')
    qed
    ultimately show ?thesis by (simp add: f(1) P'_def)
  qed
qed

lemma park_step_refines:
  assumes "queue_is v P xs" and "op_ok x"
  shows "\<exists>P'. park_step v x P = Some P' \<and> queue_is v P' (fifo_step x xs)"
proof (rule queue_isE [OF assms(1)])
  fix l
  assume l: "wf_park P ((\<lambda>_. [])(v := l))" "xs = map (item_of P) l" "\<And>i. i \<in> set l \<Longrightarrow> buf_ok (pool P i)"
  show ?thesis
    using assms(2) by (cases x) (auto intro: park_refines [OF l] give_up_refines [OF l] promote_refines [OF l]
        peer_error_refines [OF l] bytes_refines [OF l] simp del: park_step.simps fifo_step.simps)
qed

lemma park_run_refines:
  "queue_is v P xs \<Longrightarrow> list_all op_ok ops \<Longrightarrow> \<exists>P'. park_run v ops P = Some P' \<and> queue_is v P' (fold fifo_step ops xs)"
proof (induction ops arbitrary: P xs)
  case (Cons x ops)
  then show ?case using park_step_refines [OF Cons.prems(1), of x] by fastforce
qed simp

lemma queue_is_start: "queue_is v new_park []"
  unfolding queue_is_def using wf_park_new by (intro exI [of _ "\<lambda>_. []"]) simp

section \<open>Properties\<close>

text \<open>
  C37: with one TLS server, its park queue is a bounded first-in first-out queue with a byte cap per connection.
  Whatever is done to it, in any order (connections parked as long as fewer than six wait, bytes received, connections
  given up from anywhere in the queue by idling or by the peer, the first one promoted, all of them dropped on
  an error), no null slot is dereferenced and no loop runs on, and the slots hold exactly what the list specification
  \<open>fifo_step\<close> says: the same connections in the order they arrived, the time each was parked, and for each the bytes it
  sent, at most 2000. \<open>pb_total pb < 2 ^ 16\<close> is lwIP's bound on a chain, whose length is a 16-bit field.
\<close>

theorem park_queue_is_fifo:
  assumes "list_all op_ok ops"
  shows "\<exists>P. park_run v ops new_park = Some P \<and> queue_is v P (fold fifo_step ops [])
    \<and> length (fold fifo_step ops []) \<le> SSL_PARKED_SLOTS
    \<and> list_all (\<lambda>(q, ms, b). pb_total b \<le> 2000) (fold fifo_step ops [])"
proof -
  from park_run_refines [OF queue_is_start assms] obtain P where P: "park_run v ops new_park = Some P"
    "queue_is v P (fold fifo_step ops [])" by blast
  from P(2) obtain l where l: "wf_park P ((\<lambda>_. [])(v := l))" "fold fifo_step ops [] = map (item_of P) l"
    "\<And>i. i \<in> set l \<Longrightarrow> buf_ok (pool P i)" by (rule queue_isE) blast
  have "list_all (\<lambda>(q, ms, b). pb_total b \<le> 2000) (map (item_of P) l)"
    using l(3) by (auto simp: list_all_iff item_of_def buf_ok_def)
  with P l(2) wf_park_length [OF l(1), of v] show ?thesis by (intro exI [of _ P]) simp
qed

text \<open>Two connections are parked, the second sends a byte, the first gives up.\<close>

definition some_ops :: "park_op list" where
  "some_ops = [Park 10 1, Park 11 2, Bytes 11 [\<lparr>pb_id = 0, pb_data = [22]\<rparr>], Give_up 10]"

theorem park_queue_is_fifo_witness:
  "\<exists>P. park_run 0 some_ops new_park = Some P \<and> queue_is 0 P [(11, 2, [\<lparr>pb_id = 0, pb_data = [22]\<rparr>])]"
proof -
  have "list_all op_ok some_ops" by (simp add: some_ops_def pb_total_def)
  moreover have "fold fifo_step some_ops [] = [(11, 2, [\<lparr>pb_id = 0, pb_data = [22]\<rparr>])]"
    by (simp add: some_ops_def pb_total_def SSL_PARKED_SLOTS_def)
  ultimately show ?thesis using park_queue_is_fifo [of some_ops 0] by auto
qed

text \<open>
  The pool is static but the count that guards it belongs to one server: when the connections of one TLS server
  fill the pool, a second server, with none of its own parked, passes the test and dereferences the null pointer
  \<open>park_alloc\<close> returns (\<open>None\<close>).
\<close>

theorem shared_pool_exhausted:
  assumes "queue_is v P xs" and "length xs = SSL_PARKED_SLOTS" and "w \<noteq> v"
  shows "sc_parked (ctxs P w) = 0 \<and> park_step w (Park q ms) P = None"
proof -
  from assms(1) obtain l where wf: "wf_park P ((\<lambda>_. [])(v := l))" and xs: "xs = map (item_of P) l" by (rule queue_isE)
  have "set l = {..<SSL_PARKED_SLOTS}"
  proof (rule card_subset_eq)
    show "set l \<subseteq> {..<SSL_PARKED_SLOTS}" using wf_parkD(4) [OF wf, of _ v] by auto
    show "card (set l) = card {..<SSL_PARKED_SLOTS}" using wf_parkD(2) [OF wf, of v] assms(2) xs by (simp add: distinct_card)
  qed simp
  then have full: "pp_pcb (pool P i) \<noteq> None" if "i < SSL_PARKED_SLOTS" for i using wf_parkD(5) [OF wf, of i v] that by simp
  have "fst (park_alloc P) = None"
    by (rule park_alloc_cases [OF wf_parkD(6) [OF wf]]) (use full in auto)
  then have "park_conn w q ms P = None" by (cases "park_alloc P") (simp add: park_conn_def)
  then show ?thesis using wf_parkD(3) [OF wf, of w] assms(3) by (simp add: SSL_PARKED_SLOTS_def)
qed

theorem shared_pool_exhausted_witness:
  "\<exists>P. park_run 0 (map (\<lambda>k. Park k 0) [0..<6]) new_park = Some P \<and> park_step 1 (Park 99 0) P = None"
proof -
  have "fold fifo_step (map (\<lambda>k. Park k 0) [0..<6]) [] = map (\<lambda>k. (k, 0, [])) [0..<6]"
    by (simp add: SSL_PARKED_SLOTS_def upt_rec)
  moreover obtain P where P: "park_run 0 (map (\<lambda>k. Park k 0) [0..<6]) new_park = Some P"
    "queue_is 0 P (fold fifo_step (map (\<lambda>k. Park k 0) [0..<6]) [])"
    using park_run_refines [OF queue_is_start, of "map (\<lambda>k. Park k 0) [0..<6]" 0] by (auto simp: list_all_iff)
  ultimately have "queue_is 0 P (map (\<lambda>k. (k, 0, [])) [0..<6])" by simp
  from shared_pool_exhausted [OF this, of 1 99 0] P(1) show ?thesis
    by (intro exI [of _ P]) (simp add: SSL_PARKED_SLOTS_def del: park_step.simps)
qed

text \<open>
  The cap drops whole segments but not what follows them. When a segment of a parked connection does not fit and a
  later, shorter one does, the bytes kept for the TLS session are those before and after the gap, joined.
\<close>

theorem parked_stream_hole:
  assumes "pb_total a + pb_total b > 2000" and "pb_total a + pb_total c \<le> 2000" and "pb_total b < 2 ^ 16"
  shows "\<exists>P. park_run v [Park q ms, Bytes q a, Bytes q b, Bytes q c] new_park = Some P \<and> queue_is v P [(q, ms, a @ c)]"
proof -
  have e: "pb_total [] = 0" by (simp add: pb_total_def)
  have "fold fifo_step [Park q ms, Bytes q a, Bytes q b, Bytes q c] [] = [(q, ms, a @ c)]"
    using assms by (simp add: SSL_PARKED_SLOTS_def e)
  then show ?thesis
    using park_run_refines [OF queue_is_start, of "[Park q ms, Bytes q a, Bytes q b, Bytes q c]" v] assms by simp
qed

theorem parked_stream_hole_witness:
  "\<exists>P. park_run 0 [Park 7 0, Bytes 7 [\<lparr>pb_id = 1, pb_data = replicate 1400 1\<rparr>], Bytes 7 [\<lparr>pb_id = 2, pb_data = replicate 1400 2\<rparr>],
      Bytes 7 [\<lparr>pb_id = 3, pb_data = replicate 300 3\<rparr>]] new_park = Some P
    \<and> queue_is 0 P [(7, 0, [\<lparr>pb_id = 1, pb_data = replicate 1400 1\<rparr>, \<lparr>pb_id = 3, pb_data = replicate 300 3\<rparr>])]"
  using parked_stream_hole [of "[\<lparr>pb_id = 1, pb_data = replicate 1400 1\<rparr>]" "[\<lparr>pb_id = 2, pb_data = replicate 1400 2\<rparr>]"
      "[\<lparr>pb_id = 3, pb_data = replicate 300 3\<rparr>]" 0 7 0] by (simp add: pb_total_def del: replicate.simps)

end
