(* ===== verification/Client_State.thy ===== *)
theory Client_State
  imports Event_Queue Park_Queue
begin

text \<open>
  The state of the transport: \<open>AsyncClientImpl\<close> and \<open>AsyncServerImpl\<close> as records, the system state
  that holds all of them with the event queue and the trace, and the operations of a client that
  call nothing: the callback setters, the configuration, and the queries on the connection.
  A client and its facade \<open>AsyncClient\<close> have the same number; \<open>c_facade\<close> is the backlink, false once
  the application dropped the facade. \<open>'h\<close> is the state of the TLS hooks installed on the client.
  The implementation is owned by \<open>shared_ptr\<close>s: the facade, the events in the queue, and \<open>c_pins\<close> more (the event that is being handled,
  the name lookups in flight, a facade in the middle of its destructor). When the last one goes it is destroyed, and
  \<open>c_dead\<close> holds from then on. \<open>c_freed_read\<close> is not in the code: it records that a member function read the
  object after that, which in C++ is a read of freed memory; the model goes on with the old contents.
\<close>

section \<open>State\<close>

text \<open>\<open>AsyncClientCallbackContext\<close>; the \<open>next\<close> links are the order of the list \<open>c_cb_ctx\<close>.\<close>

record ctx =
  client_is_valid :: bool
  ack_later :: bool
  ack_len :: u16

definition new_ctx :: ctx where
  "new_ctx = \<lparr>client_is_valid = True, ack_later = False, ack_len = 0\<rparr>"

record 'h client =
  c_pcb :: "pcb option"
  c_facade :: bool
  c_connect_cb :: "handler option"
  c_discard_cb :: "handler option"
  c_server_discard_cb :: "handler option"
  c_sent_cb :: "handler option"
  c_error_cb :: "handler option"
  c_recv_cb :: "handler option"
  c_pb_cb :: "handler option"
  c_timeout_cb :: "handler option"
  c_poll_cb :: "handler option"
  c_cb_ctx :: "ctx list"
  c_tx_last_packet :: u32
  c_rx_ack_len :: u32
  c_rx_last_packet :: u32
  c_rx_timeout :: u32
  c_rx_last_ack :: u32
  c_ack_timeout :: u32
  c_connect_port :: u16
  c_noDelay :: bool
  c_hooks :: "'h option"
  c_dns_token :: "nat option"
  c_dead :: bool
  c_ssl_pending :: "pbuf list"
  c_pins :: nat
  c_freed_read :: bool

text \<open>\<open>CONFIG_ASYNC_TCP_MAX_ACK_TIME\<close>\<close>

definition MAX_ACK_TIME :: u32 where
  "MAX_ACK_TIME = 5000"

record server =
  sv_facade :: bool
  sv_tls_hooks :: bool
  sv_port :: u16
  sv_addr :: ip_addr
  sv_noDelay :: bool
  sv_pcb :: "pcb option"
  sv_connect_cb :: "handler option"
  sv_session :: u32

record 'h sys =
  clients :: "cid \<Rightarrow> 'h client"
  servers :: "sid \<Rightarrow> server"
  queue :: "event list"
  trace :: "call list"
  rng :: u32
  next_cid :: cid
  next_token :: nat
  scheduled :: nat
  tls_active :: int
  park :: park

abbreviation cl :: "('h, 'm) sys_scheme \<Rightarrow> cid \<Rightarrow> 'h client" where
  "cl s c \<equiv> clients s c"

definition upd :: "cid \<Rightarrow> ('h client \<Rightarrow> 'h client) \<Rightarrow> ('h, 'm) sys_scheme \<Rightarrow> ('h, 'm) sys_scheme" where
  "upd c f s = s\<lparr>clients := (clients s)(c := f (clients s c))\<rparr>"

definition log :: "call \<Rightarrow> ('h, 'm) sys_scheme \<Rightarrow> ('h, 'm) sys_scheme" where
  "log x s = s\<lparr>trace := trace s @ [x]\<rparr>"

definition logs :: "call list \<Rightarrow> ('h, 'm) sys_scheme \<Rightarrow> ('h, 'm) sys_scheme" where
  "logs xs s = s\<lparr>trace := trace s @ xs\<rparr>"

lemma upd_simps [simp]:
  "clients (upd c f s) = (clients s)(c := f (clients s c))"
  "servers (upd c f s) = servers s" "queue (upd c f s) = queue s" "trace (upd c f s) = trace s"
  "rng (upd c f s) = rng s" "next_cid (upd c f s) = next_cid s" "next_token (upd c f s) = next_token s"
  "scheduled (upd c f s) = scheduled s" "tls_active (upd c f s) = tls_active s" "park (upd c f s) = park s"
  by (simp_all add: upd_def)

lemma log_simps [simp]:
  "clients (log x s) = clients s" "servers (log x s) = servers s" "queue (log x s) = queue s"
  "trace (log x s) = trace s @ [x]" "rng (log x s) = rng s" "next_cid (log x s) = next_cid s"
  "next_token (log x s) = next_token s" "scheduled (log x s) = scheduled s" "tls_active (log x s) = tls_active s"
  "park (log x s) = park s"
  by (simp_all add: log_def)

lemma logs_simps [simp]:
  "clients (logs xs s) = clients s" "servers (logs xs s) = servers s" "queue (logs xs s) = queue s"
  "trace (logs xs s) = trace s @ xs" "rng (logs xs s) = rng s" "next_cid (logs xs s) = next_cid s"
  "next_token (logs xs s) = next_token s" "scheduled (logs xs s) = scheduled s" "tls_active (logs xs s) = tls_active s"
  "park (logs xs s) = park s"
  by (simp_all add: logs_def)

section \<open>Construction\<close>

definition new_server :: "ip_addr \<Rightarrow> u16 \<Rightarrow> server" where
  "new_server addr port =
     \<lparr>sv_facade = True, sv_tls_hooks = False, sv_port = port, sv_addr = addr, sv_noDelay = False, sv_pcb = None,
      sv_connect_cb = None, sv_session = 0\<rparr>"

text \<open>
  The initialiser list of \<open>AsyncClientImpl\<close>. \<open>_rx_last_packet\<close> is not in it: a client without a pcb
  keeps whatever the memory held, the argument \<open>garbage\<close>.
\<close>

definition init_client :: "u32 \<Rightarrow> 'h client" where
  "init_client garbage =
     \<lparr>c_pcb = None, c_facade = True,
      c_connect_cb = None, c_discard_cb = None, c_server_discard_cb = None, c_sent_cb = None,
      c_error_cb = None, c_recv_cb = None, c_pb_cb = None, c_timeout_cb = None, c_poll_cb = None,
      c_cb_ctx = [], c_tx_last_packet = 0, c_rx_ack_len = 0, c_rx_last_packet = garbage, c_rx_timeout = 0,
      c_rx_last_ack = 0, c_ack_timeout = MAX_ACK_TIME, c_connect_port = 0, c_noDelay = False,
      c_hooks = None, c_dns_token = None, c_dead = False, c_ssl_pending = [],
      c_pins = 0, c_freed_read = False\<rparr>"

text \<open>The state before the first call: the static initialisers; every number stands for an object not yet in use.\<close>

definition boot :: "'h sys" where
  "boot = \<lparr>clients = (\<lambda>_. init_client 0), servers = (\<lambda>_. new_server ip_zero 0), queue = [], trace = [],
           rng = xor_shift_seed, next_cid = 0, next_token = 0, scheduled = 0, tls_active = 0, park = new_park\<rparr>"

section \<open>Setters\<close>

text \<open>The callback and timeout setters of the client; a setter stores the handler it is given.\<close>

datatype setter =
    OnConnect "handler option"
  | OnDisconnect "handler option"
  | OnAck "handler option"
  | OnError "handler option"
  | OnData "handler option"
  | OnPacket "handler option"
  | OnTimeout "handler option"
  | OnPoll "handler option"

fun apply_setter :: "setter \<Rightarrow> 'h client \<Rightarrow> 'h client" where
  "apply_setter (OnConnect h) c = c\<lparr>c_connect_cb := h\<rparr>"
| "apply_setter (OnDisconnect h) c = c\<lparr>c_discard_cb := h\<rparr>"
| "apply_setter (OnAck h) c = c\<lparr>c_sent_cb := h\<rparr>"
| "apply_setter (OnError h) c = c\<lparr>c_error_cb := h\<rparr>"
| "apply_setter (OnData h) c = c\<lparr>c_recv_cb := h\<rparr>"
| "apply_setter (OnPacket h) c = c\<lparr>c_pb_cb := h\<rparr>"
| "apply_setter (OnTimeout h) c = c\<lparr>c_timeout_cb := h\<rparr>"
| "apply_setter (OnPoll h) c = c\<lparr>c_poll_cb := h\<rparr>"

definition setRxTimeout :: "u32 \<Rightarrow> 'h client \<Rightarrow> 'h client" where
  "setRxTimeout timeout c = c\<lparr>c_rx_timeout := timeout\<rparr>"

definition setAckTimeout :: "u32 \<Rightarrow> 'h client \<Rightarrow> 'h client" where
  "setAckTimeout timeout c = c\<lparr>c_ack_timeout := timeout\<rparr>"

definition setNoDelay :: "bool \<Rightarrow> cid \<Rightarrow> ('h, 'm) sys_scheme \<Rightarrow> ('h, 'm) sys_scheme" where
  "setNoDelay nodelay c s = (case c_pcb (cl s c) of None \<Rightarrow> s | Some p \<Rightarrow> log (Tcp_nagle p (\<not> nodelay)) s)"

text \<open>\<open>setKeepAlive\<close> writes through \<open>_pcb\<close> without testing it: \<open>None\<close> is the null dereference.\<close>

definition setKeepAlive :: "u32 \<Rightarrow> u8 \<Rightarrow> cid \<Rightarrow> ('h, 'm) sys_scheme \<Rightarrow> ('h, 'm) sys_scheme option" where
  "setKeepAlive ms cnt c s =
     (case c_pcb (cl s c) of None \<Rightarrow> None | Some p \<Rightarrow> Some (log (Tcp_keepalive p ms cnt) s))"

section \<open>Queries\<close>

definition pcb_field :: "('p \<Rightarrow> 'a) \<Rightarrow> 'a \<Rightarrow> 'p option \<Rightarrow> 'a" where
  "pcb_field f d p = (case p of None \<Rightarrow> d | Some x \<Rightarrow> f x)"

definition space :: "lwip \<Rightarrow> cid \<Rightarrow> ('h, 'm) sys_scheme \<Rightarrow> u32" where
  "space E c s =
     (case c_pcb (cl s c) of
        None \<Rightarrow> 0
      | Some p \<Rightarrow>
          (if pcb_state E (trace s) p = ESTABLISHED \<or> pcb_state E (trace s) p = CLOSE_WAIT
           then sndbuf E (trace s) p else 0))"

definition canSend :: "lwip \<Rightarrow> cid \<Rightarrow> ('h, 'm) sys_scheme \<Rightarrow> bool" where
  "canSend E c s \<longleftrightarrow> space E c s > 0"

text \<open>\<open>free()\<close>\<close>

definition client_free :: "lwip \<Rightarrow> cid \<Rightarrow> ('h, 'm) sys_scheme \<Rightarrow> bool" where
  "client_free E c s =
     (case c_pcb (cl s c) of None \<Rightarrow> True
      | Some p \<Rightarrow> pcb_state E (trace s) p = CLOSED \<or> pcb_state E (trace s) p > ESTABLISHED)"

definition state :: "lwip \<Rightarrow> cid \<Rightarrow> ('h, 'm) sys_scheme \<Rightarrow> nat" where
  "state E c s = pcb_field (\<lambda>p. state_num (pcb_state E (trace s) p)) 0 (c_pcb (cl s c))"

definition stateToString :: "lwip \<Rightarrow> cid \<Rightarrow> ('h, 'm) sys_scheme \<Rightarrow> string" where
  "stateToString E c s = state_name (state E c s)"

definition connected :: "lwip \<Rightarrow> cid \<Rightarrow> ('h, 'm) sys_scheme \<Rightarrow> bool" where
  "connected E c s = pcb_field (\<lambda>p. pcb_state E (trace s) p = ESTABLISHED) False (c_pcb (cl s c))"

definition connecting :: "lwip \<Rightarrow> cid \<Rightarrow> ('h, 'm) sys_scheme \<Rightarrow> bool" where
  "connecting E c s =
     (if c_dns_token (cl s c) \<noteq> None then True
      else case c_pcb (cl s c) of None \<Rightarrow> False
           | Some p \<Rightarrow> pcb_state E (trace s) p > CLOSED \<and> pcb_state E (trace s) p < ESTABLISHED)"

definition disconnecting :: "lwip \<Rightarrow> cid \<Rightarrow> ('h, 'm) sys_scheme \<Rightarrow> bool" where
  "disconnecting E c s =
     (case c_pcb (cl s c) of None \<Rightarrow> False
      | Some p \<Rightarrow> pcb_state E (trace s) p > ESTABLISHED \<and> pcb_state E (trace s) p < TIME_WAIT)"

definition disconnected :: "lwip \<Rightarrow> cid \<Rightarrow> ('h, 'm) sys_scheme \<Rightarrow> bool" where
  "disconnected E c s =
     (if c_dns_token (cl s c) \<noteq> None then False
      else case c_pcb (cl s c) of None \<Rightarrow> True
           | Some p \<Rightarrow> pcb_state E (trace s) p = CLOSED \<or> pcb_state E (trace s) p = TIME_WAIT)"

definition freeable :: "lwip \<Rightarrow> cid \<Rightarrow> ('h, 'm) sys_scheme \<Rightarrow> bool" where
  "freeable E c s =
     (if c_dns_token (cl s c) \<noteq> None then False
      else case c_pcb (cl s c) of None \<Rightarrow> True
           | Some p \<Rightarrow> pcb_state E (trace s) p = CLOSED \<or> pcb_state E (trace s) p > ESTABLISHED)"

definition getNoDelay :: "lwip \<Rightarrow> cid \<Rightarrow> ('h, 'm) sys_scheme \<Rightarrow> bool" where
  "getNoDelay E c s = pcb_field (nagle_disabled E (trace s)) False (c_pcb (cl s c))"

definition getMss :: "lwip \<Rightarrow> cid \<Rightarrow> ('h, 'm) sys_scheme \<Rightarrow> u16" where
  "getMss E c s = pcb_field (pcb_mss E (trace s)) 0 (c_pcb (cl s c))"

definition getRemoteAddress :: "lwip \<Rightarrow> cid \<Rightarrow> ('h, 'm) sys_scheme \<Rightarrow> u32" where
  "getRemoteAddress E c s = pcb_field (\<lambda>p. ip_w0 (pcb_remote_ip E (trace s) p)) 0 (c_pcb (cl s c))"

definition getLocalAddress :: "lwip \<Rightarrow> cid \<Rightarrow> ('h, 'm) sys_scheme \<Rightarrow> u32" where
  "getLocalAddress E c s = pcb_field (\<lambda>p. ip_w0 (pcb_local_ip E (trace s) p)) 0 (c_pcb (cl s c))"

definition getRemotePort :: "lwip \<Rightarrow> cid \<Rightarrow> ('h, 'm) sys_scheme \<Rightarrow> u16" where
  "getRemotePort E c s = pcb_field (pcb_remote_port E (trace s)) 0 (c_pcb (cl s c))"

definition getLocalPort :: "lwip \<Rightarrow> cid \<Rightarrow> ('h, 'm) sys_scheme \<Rightarrow> u16" where
  "getLocalPort E c s = pcb_field (pcb_local_port E (trace s)) 0 (c_pcb (cl s c))"

text \<open>The typed addresses: the address when it has that type, else the zero address of the type.\<close>

definition getRemoteAddress6 :: "lwip \<Rightarrow> cid \<Rightarrow> ('h, 'm) sys_scheme \<Rightarrow> u32 list" where
  "getRemoteAddress6 E c s =
     pcb_field (\<lambda>p. let a = pcb_remote_ip E (trace s) p in
                    if ip_v6 a then [ip_w0 a, ip_w1 a, ip_w2 a, ip_w3 a] else [0, 0, 0, 0]) [0, 0, 0, 0] (c_pcb (cl s c))"

definition getLocalAddress6 :: "lwip \<Rightarrow> cid \<Rightarrow> ('h, 'm) sys_scheme \<Rightarrow> u32 list" where
  "getLocalAddress6 E c s =
     pcb_field (\<lambda>p. let a = pcb_local_ip E (trace s) p in
                    if ip_v6 a then [ip_w0 a, ip_w1 a, ip_w2 a, ip_w3 a] else [0, 0, 0, 0]) [0, 0, 0, 0] (c_pcb (cl s c))"

definition getRemoteAddress4 :: "lwip \<Rightarrow> cid \<Rightarrow> ('h, 'm) sys_scheme \<Rightarrow> u32" where
  "getRemoteAddress4 E c s =
     pcb_field (\<lambda>p. let a = pcb_remote_ip E (trace s) p in if \<not> ip_v6 a then ip_w0 a else 0) 0 (c_pcb (cl s c))"

definition getLocalAddress4 :: "lwip \<Rightarrow> cid \<Rightarrow> ('h, 'm) sys_scheme \<Rightarrow> u32" where
  "getLocalAddress4 E c s =
     pcb_field (\<lambda>p. let a = pcb_local_ip E (trace s) p in if \<not> ip_v6 a then ip_w0 a else 0) 0 (c_pcb (cl s c))"

lemmas query_defs = space_def canSend_def client_free_def state_def connected_def connecting_def
  disconnecting_def disconnected_def freeable_def pcb_field_def

section \<open>Properties\<close>

text \<open>
  C36: the state queries describe one state machine. While a name lookup is pending the client is
  connecting and neither disconnected nor freeable; otherwise exactly one of connecting, connected,
  disconnecting and disconnected holds (a listening pcb counts as connecting), and a client can be freed
  exactly when it is disconnecting or disconnected. Only a connected or disconnecting client has room to send.
\<close>

theorem client_state_partition:
  "(c_dns_token (cl s c) \<noteq> None \<longrightarrow> connecting E c s \<and> \<not> disconnected E c s \<and> \<not> freeable E c s)
   \<and> (c_dns_token (cl s c) = None \<longrightarrow>
        [x \<leftarrow> [connecting E c s, connected E c s, disconnecting E c s, disconnected E c s]. x] = [True]
        \<and> freeable E c s = (disconnecting E c s \<or> disconnected E c s))
   \<and> (canSend E c s \<longrightarrow> connected E c s \<or> disconnecting E c s)"
proof (cases "c_pcb (cl s c)")
  case None
  then show ?thesis by (simp add: query_defs)
next
  case (Some p)
  show ?thesis
    by (cases "pcb_state E (trace s) p")
      (simp_all add: query_defs Some less_tcp_state_def)
qed

text \<open>An established connection: it is connected and in none of the other states.\<close>

definition one_conn :: "nat sys" where
  "one_conn = upd 1 (\<lambda>k. k\<lparr>c_pcb := Some 10\<rparr>) boot"

theorem client_state_partition_witness:
  "[x \<leftarrow> [connecting calm 1 one_conn, connected calm 1 one_conn, disconnecting calm 1 one_conn,
      disconnected calm 1 one_conn]. x] = [True]
   \<and> canSend calm 1 one_conn \<and> (connected calm 1 one_conn \<or> disconnecting calm 1 one_conn)"
proof -
  have no: "c_dns_token (cl one_conn 1) = None"
    by (simp add: one_conn_def boot_def init_client_def)
  have room: "canSend calm 1 one_conn"
    by (simp add: one_conn_def canSend_def space_def calm_def)
  from client_state_partition [of one_conn 1 calm] no room show ?thesis by blast
qed

end
