(* ===== verification/Tcp_Api.thy ===== *)
theory Tcp_Api
  imports Client_State
begin

text \<open>
  The wrappers of the lwIP API in \<open>src/AsyncTCP.cpp\<close>, in both builds: with an operating system
  (\<open>NO_SYS\<close> off: the call is posted to the tcpip thread, or made directly by the holder of the core
  lock; the suffix \<open>_api\<close> is the function that runs there) and without one (ESP8266, suffix \<open>_nosys\<close>).
  The \<open>tcp_pcb **\<close> of the source is always the address of the client's \<open>_pcb\<close>, so the wrappers take the client.
  \<open>tcp_close\<close> and \<open>tcp_abort\<close> detach the pcb and purge the queue of the client's events.
\<close>

section \<open>Callbacks of a pcb and the purge\<close>

definition bind_tcp_callbacks :: "pcb \<Rightarrow> cid \<Rightarrow> ('h, 'm) sys_scheme \<Rightarrow> ('h, 'm) sys_scheme" where
  "bind_tcp_callbacks p c s =
     logs [Tcp_arg p (Some c), Tcp_recv p True, Tcp_sent p True, Tcp_err p True, Tcp_poll p True] s"

definition remove_events :: "cid \<Rightarrow> ('h, 'm) sys_scheme \<Rightarrow> nat \<times> ('h, 'm) sys_scheme" where
  "remove_events c s =
     (case remove_events_for_client c (queue s) of
        (n, q, calls) \<Rightarrow> (n, logs calls (s\<lparr>queue := q\<rparr>)))"

definition reset_tcp_callbacks :: "pcb \<Rightarrow> cid option \<Rightarrow> ('h, 'm) sys_scheme \<Rightarrow> ('h, 'm) sys_scheme" where
  "reset_tcp_callbacks p c s =
     (let s1 = logs [Tcp_arg p None, Tcp_sent p False, Tcp_recv p False, Tcp_err p False, Tcp_poll p False] s
      in case c of None \<Rightarrow> s1 | Some c' \<Rightarrow> snd (remove_events c' s1))"

definition set_pcb :: "cid \<Rightarrow> pcb option \<Rightarrow> ('h, 'm) sys_scheme \<Rightarrow> ('h, 'm) sys_scheme" where
  "set_pcb c p s = upd c (\<lambda>k. k\<lparr>c_pcb := p\<rparr>) s"

text \<open>\<open>if (tcp_close(pcb) != ERR_OK) tcp_abort(pcb)\<close>: the pcb is lwIP's afterwards.\<close>

definition close_or_abort :: "lwip \<Rightarrow> pcb \<Rightarrow> ('h, 'm) sys_scheme \<Rightarrow> ('h, 'm) sys_scheme" where
  "close_or_abort E p s =
     (let s1 = log (Tcp_close p) s
      in if close_ret E (trace s) p \<noteq> ERR_OK then log (Tcp_abort p) s1 else s1)"

section \<open>The build with an operating system\<close>

definition tcp_output_api :: "lwip \<Rightarrow> cid \<Rightarrow> ('h, 'm) sys_scheme \<Rightarrow> err \<times> ('h, 'm) sys_scheme" where
  "tcp_output_api E c s =
     (case c_pcb (cl s c) of None \<Rightarrow> (ERR_CONN, s)
      | Some p \<Rightarrow> (output_ret E (trace s) p, log (Tcp_output p) s))"

definition tcp_output_sys :: "lwip \<Rightarrow> cid \<Rightarrow> ('h, 'm) sys_scheme \<Rightarrow> err \<times> ('h, 'm) sys_scheme" where
  "tcp_output_sys E c s = (if c_pcb (cl s c) = None then (ERR_CONN, s) else tcp_output_api E c s)"

definition tcp_write_api :: "lwip \<Rightarrow> cid \<Rightarrow> u8 list \<Rightarrow> u8 \<Rightarrow> ('h, 'm) sys_scheme \<Rightarrow> err \<times> ('h, 'm) sys_scheme" where
  "tcp_write_api E c data flags s =
     (case c_pcb (cl s c) of None \<Rightarrow> (ERR_CONN, s)
      | Some p \<Rightarrow> (write_ret E (trace s) p, log (Tcp_write p data flags) s))"

definition tcp_write_sys :: "lwip \<Rightarrow> cid \<Rightarrow> u8 list \<Rightarrow> u8 \<Rightarrow> ('h, 'm) sys_scheme \<Rightarrow> err \<times> ('h, 'm) sys_scheme" where
  "tcp_write_sys E c data flags s =
     (if c_pcb (cl s c) = None then (ERR_CONN, s) else tcp_write_api E c data flags s)"

definition tcp_recved_api :: "cid \<Rightarrow> u32 \<Rightarrow> ('h, 'm) sys_scheme \<Rightarrow> err \<times> ('h, 'm) sys_scheme" where
  "tcp_recved_api c len s =
     (case c_pcb (cl s c) of None \<Rightarrow> (ERR_CONN, s) | Some p \<Rightarrow> (ERR_OK, log (Tcp_recved p len) s))"

definition tcp_recved_sys :: "cid \<Rightarrow> u32 \<Rightarrow> ('h, 'm) sys_scheme \<Rightarrow> err \<times> ('h, 'm) sys_scheme" where
  "tcp_recved_sys c len s = (if c_pcb (cl s c) = None then (ERR_CONN, s) else tcp_recved_api c len s)"

definition tcp_close_api :: "lwip \<Rightarrow> cid \<Rightarrow> ('h, 'm) sys_scheme \<Rightarrow> err \<times> ('h, 'm) sys_scheme" where
  "tcp_close_api E c s =
     (case c_pcb (cl s c) of
        Some p \<Rightarrow>
          (let s1 = reset_tcp_callbacks p (Some c) s;
               s2 = close_or_abort E p s1
           in (ERR_OK, set_pcb c None s2))
      | None \<Rightarrow>
          (case remove_events c s of (n, s1) \<Rightarrow> (if n \<noteq> 0 then ERR_OK else ERR_CONN, s1)))"

definition tcp_close_sys :: "lwip \<Rightarrow> cid \<Rightarrow> ('h, 'm) sys_scheme \<Rightarrow> err \<times> ('h, 'm) sys_scheme" where
  "tcp_close_sys E c s = tcp_close_api E c s"

definition tcp_abort_api :: "cid \<Rightarrow> ('h, 'm) sys_scheme \<Rightarrow> err \<times> ('h, 'm) sys_scheme" where
  "tcp_abort_api c s =
     (case c_pcb (cl s c) of
        Some p \<Rightarrow>
          (let s1 = reset_tcp_callbacks p (Some c) s;
               s2 = log (Tcp_abort p) s1
           in (ERR_ABRT, set_pcb c None s2))
      | None \<Rightarrow>
          (case remove_events c s of (n, s1) \<Rightarrow> (if n \<noteq> 0 then ERR_OK else ERR_CONN, s1)))"

definition tcp_abort_sys :: "cid \<Rightarrow> ('h, 'm) sys_scheme \<Rightarrow> err \<times> ('h, 'm) sys_scheme" where
  "tcp_abort_sys c s = (if c_pcb (cl s c) = None then (ERR_CONN, s) else tcp_abort_api c s)"

text \<open>\<open>ESP_FAIL\<close> is -1.\<close>

definition ESP_FAIL :: err where
  "ESP_FAIL = Err_num (- 1)"

definition tcp_connect_sys :: "lwip \<Rightarrow> pcb option \<Rightarrow> ip_addr \<Rightarrow> u16 \<Rightarrow> ('h, 'm) sys_scheme \<Rightarrow> err \<times> ('h, 'm) sys_scheme" where
  "tcp_connect_sys E po addr port s =
     (case po of None \<Rightarrow> (ESP_FAIL, s)
      | Some p \<Rightarrow> (connect_ret E (trace s) p, log (Tcp_connect p addr port) s))"

text \<open>\<open>_tcp_bind\<close> and its api function: the pcb field they are given, and what it holds afterwards.\<close>

definition tcp_bind_api :: "lwip \<Rightarrow> pcb \<Rightarrow> ip_addr \<Rightarrow> u16 \<Rightarrow> ('h, 'm) sys_scheme \<Rightarrow> err \<times> pcb option \<times> ('h, 'm) sys_scheme" where
  "tcp_bind_api E p addr port s =
     (let err = bind_ret E (trace s) p;
          s1 = log (Tcp_bind p addr port) s
      in if err \<noteq> ERR_OK then (err, None, close_or_abort E p s1) else (err, Some p, s1))"

definition tcp_bind_sys :: "lwip \<Rightarrow> pcb option \<Rightarrow> ip_addr \<Rightarrow> u16 \<Rightarrow> ('h, 'm) sys_scheme \<Rightarrow> err \<times> pcb option \<times> ('h, 'm) sys_scheme" where
  "tcp_bind_sys E po addr port s =
     (case po of None \<Rightarrow> (ESP_FAIL, None, s) | Some p \<Rightarrow> tcp_bind_api E p addr port s)"

definition tcp_listen_sys :: "lwip \<Rightarrow> pcb option \<Rightarrow> u8 \<Rightarrow> ('h, 'm) sys_scheme \<Rightarrow> pcb option \<times> ('h, 'm) sys_scheme" where
  "tcp_listen_sys E po backlog s =
     (case po of None \<Rightarrow> (None, s)
      | Some p \<Rightarrow>
          (let n = (if backlog \<noteq> 0 then backlog else 0xFF)
           in (listen_ret E (trace s) p, log (Tcp_listen p n) s)))"

section \<open>The build without an operating system\<close>

definition tcp_output_nosys :: "lwip \<Rightarrow> cid \<Rightarrow> ('h, 'm) sys_scheme \<Rightarrow> err \<times> ('h, 'm) sys_scheme" where
  "tcp_output_nosys E c s =
     (case c_pcb (cl s c) of None \<Rightarrow> (ERR_CONN, s)
      | Some p \<Rightarrow> (output_ret E (trace s) p, log (Tcp_output p) s))"

definition tcp_write_nosys :: "lwip \<Rightarrow> cid \<Rightarrow> u8 list \<Rightarrow> u8 \<Rightarrow> ('h, 'm) sys_scheme \<Rightarrow> err \<times> ('h, 'm) sys_scheme" where
  "tcp_write_nosys E c data flags s =
     (case c_pcb (cl s c) of None \<Rightarrow> (ERR_CONN, s)
      | Some p \<Rightarrow> (write_ret E (trace s) p, log (Tcp_write p data flags) s))"

definition tcp_recved_nosys :: "cid \<Rightarrow> u32 \<Rightarrow> ('h, 'm) sys_scheme \<Rightarrow> err \<times> ('h, 'm) sys_scheme" where
  "tcp_recved_nosys c len s =
     (case c_pcb (cl s c) of None \<Rightarrow> (ERR_CONN, s) | Some p \<Rightarrow> (ERR_OK, log (Tcp_recved p len) s))"

definition tcp_close_nosys :: "lwip \<Rightarrow> cid \<Rightarrow> ('h, 'm) sys_scheme \<Rightarrow> err \<times> ('h, 'm) sys_scheme" where
  "tcp_close_nosys E c s =
     (case c_pcb (cl s c) of
        Some p \<Rightarrow>
          (let s1 = reset_tcp_callbacks p (Some c) s;
               s2 = close_or_abort E p s1
           in (ERR_OK, set_pcb c None s2))
      | None \<Rightarrow>
          (case remove_events c s of (n, s1) \<Rightarrow> (if n \<noteq> 0 then ERR_OK else ERR_CONN, s1)))"

definition tcp_abort_nosys :: "cid \<Rightarrow> ('h, 'm) sys_scheme \<Rightarrow> err \<times> ('h, 'm) sys_scheme" where
  "tcp_abort_nosys c s =
     (case c_pcb (cl s c) of
        Some p \<Rightarrow>
          (let s1 = reset_tcp_callbacks p (Some c) s;
               s2 = log (Tcp_abort p) s1
           in (ERR_ABRT, set_pcb c None s2))
      | None \<Rightarrow>
          (case remove_events c s of (n, s1) \<Rightarrow> (if n \<noteq> 0 then ERR_OK else ERR_CONN, s1)))"

definition tcp_connect_nosys :: "lwip \<Rightarrow> pcb option \<Rightarrow> ip_addr \<Rightarrow> u16 \<Rightarrow> ('h, 'm) sys_scheme \<Rightarrow> err \<times> ('h, 'm) sys_scheme" where
  "tcp_connect_nosys E po addr port s =
     (case po of None \<Rightarrow> (ESP_FAIL, s)
      | Some p \<Rightarrow> (connect_ret E (trace s) p, log (Tcp_connect p addr port) s))"

definition tcp_bind_nosys :: "lwip \<Rightarrow> pcb option \<Rightarrow> ip_addr \<Rightarrow> u16 \<Rightarrow> ('h, 'm) sys_scheme \<Rightarrow> err \<times> pcb option \<times> ('h, 'm) sys_scheme" where
  "tcp_bind_nosys E po addr port s =
     (case po of None \<Rightarrow> (ESP_FAIL, None, s)
      | Some p \<Rightarrow>
          (let err = bind_ret E (trace s) p;
               s1 = log (Tcp_bind p addr port) s
           in if err \<noteq> ERR_OK then (err, None, close_or_abort E p s1) else (err, Some p, s1)))"

definition tcp_listen_nosys :: "lwip \<Rightarrow> pcb option \<Rightarrow> u8 \<Rightarrow> ('h, 'm) sys_scheme \<Rightarrow> pcb option \<times> ('h, 'm) sys_scheme" where
  "tcp_listen_nosys E po backlog s =
     (case po of None \<Rightarrow> (None, s)
      | Some p \<Rightarrow> (listen_ret E (trace s) p, log (Tcp_listen p (if backlog \<noteq> 0 then backlog else 0xFF)) s))"

section \<open>The build switch\<close>

definition tcp_output :: "lwip \<Rightarrow> cid \<Rightarrow> ('h, 'm) sys_scheme \<Rightarrow> err \<times> ('h, 'm) sys_scheme" where
  "tcp_output E = (if no_sys E then tcp_output_nosys E else tcp_output_sys E)"

definition tcp_write :: "lwip \<Rightarrow> cid \<Rightarrow> u8 list \<Rightarrow> u8 \<Rightarrow> ('h, 'm) sys_scheme \<Rightarrow> err \<times> ('h, 'm) sys_scheme" where
  "tcp_write E = (if no_sys E then tcp_write_nosys E else tcp_write_sys E)"

definition tcp_recved :: "lwip \<Rightarrow> cid \<Rightarrow> u32 \<Rightarrow> ('h, 'm) sys_scheme \<Rightarrow> err \<times> ('h, 'm) sys_scheme" where
  "tcp_recved E = (if no_sys E then tcp_recved_nosys else tcp_recved_sys)"

definition tcp_close :: "lwip \<Rightarrow> cid \<Rightarrow> ('h, 'm) sys_scheme \<Rightarrow> err \<times> ('h, 'm) sys_scheme" where
  "tcp_close E = (if no_sys E then tcp_close_nosys E else tcp_close_sys E)"

definition tcp_abort :: "lwip \<Rightarrow> cid \<Rightarrow> ('h, 'm) sys_scheme \<Rightarrow> err \<times> ('h, 'm) sys_scheme" where
  "tcp_abort E = (if no_sys E then tcp_abort_nosys else tcp_abort_sys)"

definition tcp_connect :: "lwip \<Rightarrow> pcb option \<Rightarrow> ip_addr \<Rightarrow> u16 \<Rightarrow> ('h, 'm) sys_scheme \<Rightarrow> err \<times> ('h, 'm) sys_scheme" where
  "tcp_connect E = (if no_sys E then tcp_connect_nosys E else tcp_connect_sys E)"

definition tcp_bind :: "lwip \<Rightarrow> pcb option \<Rightarrow> ip_addr \<Rightarrow> u16 \<Rightarrow> ('h, 'm) sys_scheme \<Rightarrow> err \<times> pcb option \<times> ('h, 'm) sys_scheme" where
  "tcp_bind E = (if no_sys E then tcp_bind_nosys E else tcp_bind_sys E)"

definition tcp_listen :: "lwip \<Rightarrow> pcb option \<Rightarrow> u8 \<Rightarrow> ('h, 'm) sys_scheme \<Rightarrow> pcb option \<times> ('h, 'm) sys_scheme" where
  "tcp_listen E = (if no_sys E then tcp_listen_nosys E else tcp_listen_sys E)"

section \<open>What a call can do to the rest of the system\<close>

text \<open>
  Every operation the application can reach relates the state before and the state after in the same
  way: calls are only added to the trace; a pcb is only ever given up; a client's events are untouched
  or all purged, and no event is added; the stack of callback contexts is as deep as before; no client gets its facade
  back. A client dies only when nothing pins it, its pcb is gone then, and only then can a context on its stack be marked and
  freed memory of it be read. The relation is a preorder, so it follows the operations down into callbacks.
\<close>

definition events_of :: "cid \<Rightarrow> event list \<Rightarrow> event list" where
  "events_of c q = filter (\<lambda>e. ev_impl e = Some c) q"

definition evolves_client :: "'h client \<Rightarrow> 'h client \<Rightarrow> bool" where
  "evolves_client k k' \<longleftrightarrow>
     (c_pcb k' = c_pcb k \<or> c_pcb k' = None)
     \<and> length (c_cb_ctx k') = length (c_cb_ctx k)
     \<and> (c_dead k' = c_dead k \<longrightarrow> map client_is_valid (c_cb_ctx k') = map client_is_valid (c_cb_ctx k))
     \<and> (c_dead k \<longrightarrow> c_dead k') \<and> (c_facade k' \<longrightarrow> c_facade k)
     \<and> (c_dead k' \<and> \<not> c_dead k \<longrightarrow> c_pcb k' = None \<and> c_pins k = 0)
     \<and> c_pins k \<le> c_pins k' \<and> (c_freed_read k \<longrightarrow> c_freed_read k')
     \<and> (c_freed_read k' \<longrightarrow> c_freed_read k \<or> c_dead k' \<and> \<not> c_dead k)"

definition evolves :: "('h, 'm) sys_scheme \<Rightarrow> ('h, 'm) sys_scheme \<Rightarrow> bool" where
  "evolves s s' \<longleftrightarrow>
     (\<exists>t. trace s' = trace s @ t)
     \<and> (\<forall>c. evolves_client (cl s c) (cl s' c))
     \<and> (\<forall>c. events_of c (queue s') = events_of c (queue s) \<or> events_of c (queue s') = [])
     \<and> set (queue s') \<subseteq> set (queue s) \<and> scheduled s' = scheduled s"

lemma evolves_client_refl [simp]: "evolves_client k k"
  by (simp add: evolves_client_def)

lemma evolves_client_trans: "evolves_client a b \<Longrightarrow> evolves_client b c \<Longrightarrow> evolves_client a c"
  unfolding evolves_client_def by (elim conjE, intro conjI) (metis le_zero_eq le_trans)+

lemma evolves_refl [simp, inv_intros]: "evolves s s"
  by (simp add: evolves_def)

lemma evolves_trans [trans]: "evolves a b \<Longrightarrow> evolves b c \<Longrightarrow> evolves a c"
  unfolding evolves_def
  by (intro conjI) (metis append.assoc, metis evolves_client_trans, metis, blast, simp)

lemma evolves_pcb: "evolves s s' \<Longrightarrow> c_pcb (cl s c) = None \<Longrightarrow> c_pcb (cl s' c) = None"
  unfolding evolves_def evolves_client_def by metis

lemma evolves_pcb_Some: "evolves s s' \<Longrightarrow> c_pcb (cl s' c) = Some p \<Longrightarrow> c_pcb (cl s c) = Some p"
  unfolding evolves_def evolves_client_def by (metis option.distinct(1))

lemma evolves_events: "evolves s s' \<Longrightarrow> events_of c (queue s) = [] \<Longrightarrow> events_of c (queue s') = []"
  unfolding evolves_def by metis

lemma evolves_here: "evolves s s' \<Longrightarrow> evolves_client (cl s c) (cl s' c)"
  by (simp add: evolves_def)

lemma evolves_ctx:
  "evolves s s' \<Longrightarrow> c_dead (cl s' c) = c_dead (cl s c) \<Longrightarrow>
   map client_is_valid (c_cb_ctx (cl s' c)) = map client_is_valid (c_cb_ctx (cl s c))"
  by (drule evolves_here [where c = c]) (simp add: evolves_client_def)

lemma evolves_ctx_length: "evolves s s' \<Longrightarrow> length (c_cb_ctx (cl s' c)) = length (c_cb_ctx (cl s c))"
  by (drule evolves_here [where c = c]) (simp add: evolves_client_def)

lemma evolves_alive: "evolves s s' \<Longrightarrow> c_pcb (cl s' c) \<noteq> None \<Longrightarrow> c_dead (cl s' c) = c_dead (cl s c)"
  by (drule evolves_here [where c = c]) (auto simp: evolves_client_def)

lemma evolves_pinned: "evolves s s' \<Longrightarrow> c_pins (cl s c) > 0 \<Longrightarrow> c_dead (cl s' c) = c_dead (cl s c)"
  by (drule evolves_here [where c = c]) (auto simp: evolves_client_def)

lemma evolves_dead: "evolves s s' \<Longrightarrow> c_dead (cl s c) \<Longrightarrow> c_dead (cl s' c)"
  by (drule evolves_here [where c = c]) (simp add: evolves_client_def)

lemma evolves_freed:
  "evolves s s' \<Longrightarrow> c_freed_read (cl s' c) \<Longrightarrow>
   c_freed_read (cl s c) \<or> c_pins (cl s c) = 0 \<and> \<not> c_dead (cl s c) \<and> c_dead (cl s' c)"
  by (drule evolves_here [where c = c]) (auto simp: evolves_client_def)

lemma evolves_trace: "evolves s s' \<Longrightarrow> \<exists>t. trace s' = trace s @ t"
  unfolding evolves_def by blast

lemma evolves_log [inv_intros]: "evolves s (log x s)" "evolves s (logs xs s)"
  by (auto simp: evolves_def)

lemma evolves_upd [inv_intros]: "evolves_client (cl s c) (f (cl s c)) \<Longrightarrow> evolves s (upd c f s)"
  by (auto simp: evolves_def)

lemma evolves_queue:
  "(\<And>c. events_of c q = events_of c (queue s) \<or> events_of c q = []) \<Longrightarrow> set q \<subseteq> set (queue s) \<Longrightarrow>
   evolves s (s\<lparr>queue := q\<rparr>)"
  by (simp add: evolves_def)

lemma events_of_purged: "events_of c (filter (\<lambda>e. ev_impl e \<noteq> Some c) q) = []"
  by (induction q) (auto simp: events_of_def)

lemma events_of_other: "d \<noteq> c \<Longrightarrow> events_of d (filter (\<lambda>e. ev_impl e \<noteq> Some c) q) = events_of d q"
  by (induction q) (auto simp: events_of_def)

lemma remove_events_eq:
  "remove_events c s =
     (length (events_of c (queue s)),
      logs (concat (map free_event (rev (events_of c (queue s)))))
        (s\<lparr>queue := filter (\<lambda>e. ev_impl e \<noteq> Some c) (queue s)\<rparr>))"
  by (simp add: remove_events_def remove_events_for_client_def events_of_def Let_def)

lemma evolves_remove [inv_intros]: "evolves s (snd (remove_events c s))"
proof -
  have "evolves s (s\<lparr>queue := filter (\<lambda>e. ev_impl e \<noteq> Some c) (queue s)\<rparr>)"
    by (rule evolves_queue) (metis events_of_purged events_of_other, auto)
  then show ?thesis
    unfolding remove_events_eq snd_conv by (rule evolves_trans) (rule evolves_log)
qed

lemma evolves_reset [inv_intros]: "evolves s (reset_tcp_callbacks p c s)"
  by (auto simp: reset_tcp_callbacks_def Let_def split: option.splits
      intro: evolves_log evolves_trans [OF evolves_log(2) evolves_remove])

lemma evolves_set_pcb_None [inv_intros]: "evolves s (set_pcb c None s)"
  by (auto simp: set_pcb_def evolves_client_def intro: evolves_upd)

lemma evolves_close_or_abort [inv_intros]: "evolves s (close_or_abort E p s)"
  by (auto simp: close_or_abort_def Let_def intro: evolves_log evolves_trans [OF evolves_log(1) evolves_log(1)])

lemma close_or_abort_simps [simp]:
  "clients (close_or_abort E p s) = clients s" "queue (close_or_abort E p s) = queue s"
  "servers (close_or_abort E p s) = servers s" "next_cid (close_or_abort E p s) = next_cid s"
  "rng (close_or_abort E p s) = rng s" "next_token (close_or_abort E p s) = next_token s"
  "scheduled (close_or_abort E p s) = scheduled s"
  "trace (close_or_abort E p s) =
     trace s @ Tcp_close p # (if close_ret E (trace s) p \<noteq> ERR_OK then [Tcp_abort p] else [])"
  by (simp_all add: close_or_abort_def Let_def)

lemma reset_simps [simp]:
  "clients (reset_tcp_callbacks p (Some c) s) = clients s"
  "servers (reset_tcp_callbacks p (Some c) s) = servers s"
  "scheduled (reset_tcp_callbacks p (Some c) s) = scheduled s"
  "next_token (reset_tcp_callbacks p (Some c) s) = next_token s"
  "queue (reset_tcp_callbacks p (Some c) s) = filter (\<lambda>e. ev_impl e \<noteq> Some c) (queue s)"
  "trace (reset_tcp_callbacks p (Some c) s) =
     trace s @ [Tcp_arg p None, Tcp_sent p False, Tcp_recv p False, Tcp_err p False, Tcp_poll p False]
       @ concat (map free_event (rev (events_of c (queue s))))"
  by (simp_all add: reset_tcp_callbacks_def remove_events_eq Let_def)

lemma set_pcb_simps [simp]:
  "clients (set_pcb c p s) = (clients s)(c := (clients s c)\<lparr>c_pcb := p\<rparr>)" "queue (set_pcb c p s) = queue s"
  "trace (set_pcb c p s) = trace s" "servers (set_pcb c p s) = servers s" "scheduled (set_pcb c p s) = scheduled s"
  "next_token (set_pcb c p s) = next_token s"
  by (simp_all add: set_pcb_def)

section \<open>The wrappers\<close>

lemma forget_no_pcb: "c_pcb (f c) = None \<Longrightarrow> f(c := (f c)\<lparr>c_pcb := None\<rparr>) = f"
  by (rule fun_upd_idem) (metis client.surjective client.update_convs(1))

lemma tcp_output_eq: "tcp_output E = tcp_output_api E"
  by (intro ext) (simp add: tcp_output_def tcp_output_nosys_def tcp_output_sys_def tcp_output_api_def)

lemma tcp_write_eq: "tcp_write E = tcp_write_api E"
  by (intro ext) (simp add: tcp_write_def tcp_write_nosys_def tcp_write_sys_def tcp_write_api_def)

lemma tcp_recved_eq: "tcp_recved E = tcp_recved_api"
  by (intro ext) (simp add: tcp_recved_def tcp_recved_nosys_def tcp_recved_sys_def tcp_recved_api_def)

lemma tcp_close_eq: "tcp_close E = tcp_close_api E"
  by (intro ext) (simp add: tcp_close_def tcp_close_nosys_def tcp_close_sys_def tcp_close_api_def)

lemma tcp_connect_eq: "tcp_connect E = tcp_connect_sys E"
  by (intro ext) (simp add: tcp_connect_def tcp_connect_nosys_def tcp_connect_sys_def)

lemma tcp_bind_eq: "tcp_bind E = tcp_bind_sys E"
  by (intro ext) (simp add: tcp_bind_def tcp_bind_nosys_def tcp_bind_sys_def tcp_bind_api_def split: option.split)

lemma tcp_listen_eq: "tcp_listen E = tcp_listen_sys E"
  by (intro ext) (simp add: tcp_listen_def tcp_listen_nosys_def tcp_listen_sys_def Let_def split: option.split)

lemma tcp_abort_Some: "c_pcb (cl s c) = Some p \<Longrightarrow> tcp_abort E c s = tcp_abort_api c s"
  by (simp add: tcp_abort_def tcp_abort_nosys_def tcp_abort_sys_def tcp_abort_api_def)

lemma tcp_abort_None: "c_pcb (cl s c) = None \<Longrightarrow>
    tcp_abort E c s = (if no_sys E then tcp_abort_api c s else (ERR_CONN, s))"
  by (simp add: tcp_abort_def tcp_abort_nosys_def tcp_abort_sys_def tcp_abort_api_def)

lemma evolves_output [inv_intros]: "evolves s (snd (tcp_output E c s))"
  by (auto simp: tcp_output_eq tcp_output_api_def evolves_log split: option.splits)

lemma evolves_write [inv_intros]: "evolves s (snd (tcp_write E c d f s))"
  by (auto simp: tcp_write_eq tcp_write_api_def evolves_log split: option.splits)

lemma evolves_recved [inv_intros]: "evolves s (snd (tcp_recved E c n s))"
  by (auto simp: tcp_recved_eq tcp_recved_api_def evolves_log split: option.splits)

lemma clients_output [simp]: "clients (snd (tcp_output E c s)) = clients s" "queue (snd (tcp_output E c s)) = queue s"
  by (auto simp: tcp_output_eq tcp_output_api_def split: option.splits)

lemma clients_recved [simp]: "clients (snd (tcp_recved E c n s)) = clients s" "queue (snd (tcp_recved E c n s)) = queue s"
  by (auto simp: tcp_recved_eq tcp_recved_api_def split: option.splits)

lemma clients_write [simp]: "clients (snd (tcp_write E c d f s)) = clients s" "queue (snd (tcp_write E c d f s)) = queue s"
  by (auto simp: tcp_write_eq tcp_write_api_def split: option.splits)

lemma tcp_close_Some:
  "c_pcb (cl s c) = Some p \<Longrightarrow>
   tcp_close E c s = (ERR_OK, set_pcb c None (close_or_abort E p (reset_tcp_callbacks p (Some c) s)))"
  by (simp add: tcp_close_eq tcp_close_api_def Let_def)

lemma tcp_close_None:
  "c_pcb (cl s c) = None \<Longrightarrow>
   tcp_close E c s = (if events_of c (queue s) \<noteq> [] then ERR_OK else ERR_CONN, snd (remove_events c s))"
  by (simp add: tcp_close_eq tcp_close_api_def remove_events_eq)

lemma evolves_tcp_close [inv_intros]: "evolves s (snd (tcp_close E c s))"
proof (cases "c_pcb (cl s c)")
  case None
  then show ?thesis by (simp add: tcp_close_None evolves_remove)
next
  case (Some p)
  have "evolves s (reset_tcp_callbacks p (Some c) s)" by (rule evolves_reset)
  also have "evolves \<dots> (close_or_abort E p (reset_tcp_callbacks p (Some c) s))" by (rule evolves_close_or_abort)
  also have "evolves \<dots> (set_pcb c None (close_or_abort E p (reset_tcp_callbacks p (Some c) s)))"
    by (rule evolves_set_pcb_None)
  finally show ?thesis by (simp add: tcp_close_Some [OF Some])
qed

lemma evolves_abort_api: "evolves s (snd (tcp_abort_api c s))"
proof (cases "c_pcb (cl s c)")
  case None
  then show ?thesis by (simp add: tcp_abort_api_def evolves_remove split: prod.splits) (metis evolves_remove snd_conv)
next
  case (Some p)
  have "evolves s (reset_tcp_callbacks p (Some c) s)" by (rule evolves_reset)
  also have "evolves \<dots> (log (Tcp_abort p) (reset_tcp_callbacks p (Some c) s))" by (rule evolves_log)
  also have "evolves \<dots> (set_pcb c None (log (Tcp_abort p) (reset_tcp_callbacks p (Some c) s)))"
    by (rule evolves_set_pcb_None)
  finally show ?thesis by (simp add: tcp_abort_api_def Some Let_def)
qed

lemma evolves_tcp_abort [inv_intros]: "evolves s (snd (tcp_abort E c s))"
  by (cases "c_pcb (cl s c)") (auto simp: tcp_abort_Some tcp_abort_None evolves_abort_api)

lemma tcp_close_post:
  "c_pcb (cl (snd (tcp_close E c s)) c) = None" "events_of c (queue (snd (tcp_close E c s))) = []"
  "fst (tcp_close E c s) = (if c_pcb (cl s c) \<noteq> None \<or> events_of c (queue s) \<noteq> [] then ERR_OK else ERR_CONN)"
  by (cases "c_pcb (cl s c)";
      simp add: tcp_close_Some tcp_close_None remove_events_eq events_of_purged)+

lemma tcp_close_clients:
  "clients (snd (tcp_close E c s)) = (clients s)(c := (clients s c)\<lparr>c_pcb := None\<rparr>)"
  by (cases "c_pcb (cl s c)") (simp_all add: tcp_close_Some tcp_close_None remove_events_eq forget_no_pcb)

lemma tcp_abort_clients:
  "clients (snd (tcp_abort E c s)) = (clients s)(c := (clients s c)\<lparr>c_pcb := None\<rparr>)"
  by (cases "c_pcb (cl s c)") (simp_all add: tcp_abort_Some tcp_abort_None tcp_abort_api_def remove_events_eq Let_def forget_no_pcb)

lemma tcp_close_queue:
  "queue (snd (tcp_close E c s)) = filter (\<lambda>e. ev_impl e \<noteq> Some c) (queue s)"
  by (cases "c_pcb (cl s c)") (simp_all add: tcp_close_Some tcp_close_None remove_events_eq)

lemma tcp_abort_post:
  "c_pcb (cl (snd (tcp_abort E c s)) c) = None"
  "fst (tcp_abort E c s) \<noteq> ERR_CONN \<Longrightarrow> events_of c (queue (snd (tcp_abort E c s))) = []"
  "fst (tcp_abort E c s) \<noteq> ERR_CONN \<longleftrightarrow> c_pcb (cl s c) \<noteq> None \<or> no_sys E \<and> events_of c (queue s) \<noteq> []"
  by (cases "c_pcb (cl s c)";
      simp add: tcp_abort_Some tcp_abort_None tcp_abort_api_def remove_events_eq Let_def events_of_purged split: if_splits)+

section \<open>Properties\<close>

text \<open>
  C4: the postcondition of \<open>_tcp_close\<close>, from any state and so also when lwIP took the pcb away or an
  error event arrived between the caller's test and the call: the client has no pcb, no event for it
  is queued, nothing else of any client and no other client's event changed, and the result is not
  \<open>ERR_OK\<close> exactly when there was neither a pcb nor a purged event (otherwise the disconnect callback must run). With a pcb the
  calls are, in this order: every callback of the pcb cleared, the purged events' buffers freed, and
  \<open>tcp_close\<close>, with \<open>tcp_abort\<close> after it exactly when it failed.
\<close>

theorem tcp_close_releases:
  "case tcp_close E c s of (r, s') \<Rightarrow>
     clients s' = (clients s)(c := (clients s c)\<lparr>c_pcb := None\<rparr>)
     \<and> queue s' = filter (\<lambda>e. ev_impl e \<noteq> Some c) (queue s)
     \<and> (r \<noteq> ERR_OK) = (c_pcb (cl s c) = None \<and> events_of c (queue s) = [])
     \<and> trace s' = trace s
         @ (case c_pcb (cl s c) of None \<Rightarrow> []
            | Some p \<Rightarrow> [Tcp_arg p None, Tcp_sent p False, Tcp_recv p False, Tcp_err p False, Tcp_poll p False])
         @ concat (map free_event (rev (events_of c (queue s))))
         @ (case c_pcb (cl s c) of None \<Rightarrow> []
            | Some p \<Rightarrow> Tcp_close p #
               (if close_ret E (trace (reset_tcp_callbacks p (Some c) s)) p = ERR_OK then [] else [Tcp_abort p]))"
  by (cases "c_pcb (cl s c)")
    (simp_all add: tcp_close_Some tcp_close_None remove_events_eq forget_no_pcb)

text \<open>
  The two builds of the wrappers do the same, except for \<open>_tcp_abort\<close> of a client without a pcb:
  the build without an operating system purges the client's events there and reports \<open>ERR_OK\<close> when there
  were any, the other returns \<open>ERR_CONN\<close> and leaves them queued, so its \<open>ERR_OK\<close> result, which the
  comment in the source describes, never occurs.
\<close>

theorem builds_agree:
  "tcp_output_sys E = tcp_output_nosys E \<and> tcp_write_sys E = tcp_write_nosys E
   \<and> tcp_recved_sys = (tcp_recved_nosys :: cid \<Rightarrow> u32 \<Rightarrow> ('h, 'm) sys_scheme \<Rightarrow> err \<times> ('h, 'm) sys_scheme)
   \<and> tcp_close_sys E = tcp_close_nosys E
   \<and> tcp_connect_sys E = tcp_connect_nosys E \<and> tcp_bind_sys E = tcp_bind_nosys E
   \<and> tcp_listen_sys E = tcp_listen_nosys E
   \<and> tcp_abort_sys c (s :: ('h, 'm) sys_scheme) = (if c_pcb (cl s c) = None then (ERR_CONN, s) else tcp_abort_nosys c s)
   \<and> fst (tcp_abort_sys c s) \<noteq> ERR_OK"
proof -
  have "tcp_output_sys E = tcp_output_nosys E" "tcp_write_sys E = tcp_write_nosys E"
    "tcp_recved_sys = tcp_recved_nosys" "tcp_close_sys E = tcp_close_nosys E" for E
    by (auto simp: fun_eq_iff tcp_output_sys_def tcp_output_api_def tcp_output_nosys_def tcp_write_sys_def
        tcp_write_api_def tcp_write_nosys_def tcp_recved_sys_def tcp_recved_api_def tcp_recved_nosys_def
        tcp_close_sys_def tcp_close_api_def tcp_close_nosys_def)
  moreover have "tcp_connect_sys E = tcp_connect_nosys E" "tcp_bind_sys E = tcp_bind_nosys E"
    "tcp_listen_sys E = tcp_listen_nosys E"
    by (auto simp: fun_eq_iff tcp_connect_sys_def tcp_connect_nosys_def tcp_bind_sys_def tcp_bind_api_def
        tcp_bind_nosys_def tcp_listen_sys_def tcp_listen_nosys_def Let_def split: option.split)
  moreover have "tcp_abort_sys c s = (if c_pcb (cl s c) = None then (ERR_CONN, s) else tcp_abort_nosys c s)"
    by (simp add: tcp_abort_sys_def tcp_abort_api_def tcp_abort_nosys_def)
  moreover have "fst (tcp_abort_sys c s) \<noteq> ERR_OK"
    by (cases "c_pcb (cl s c)") (simp_all add: tcp_abort_sys_def tcp_abort_api_def Let_def)
  ultimately show ?thesis by blast
qed

end
