(* ===== verification/Client.thy ===== *)
theory Client
  imports Tcp_Api "HOL-Library.Monad_Syntax"
begin

text \<open>
  \<open>AsyncClientImpl\<close> of \<open>src/AsyncTCP.cpp\<close>: the operations of the application (connect, close, abort, add, send,
  ack, ...) and the handlers the dispatcher calls (\<open>_connected\<close>, \<open>_error\<close>, \<open>_recv\<close>, \<open>_fin\<close>, \<open>_sent\<close>, \<open>_poll\<close>,
  \<open>_dns_found\<close>). A callback may call any operation again, so an operation that runs callbacks takes the
  function \<open>cb\<close> that runs one; theory \<open>App\<close> closes the recursion. The TLS hooks of a client
  (\<open>AsyncClientHooks\<close>, virtual functions) are the record \<open>hooks\<close> of functions. \<open>None\<close> is a run that does not come back.
\<close>

section \<open>What is called back\<close>

type_synonym ('h, 'm) runner = "cid \<Rightarrow> cbev \<Rightarrow> ('h, 'm) sys_scheme \<Rightarrow> ('h, 'm) sys_scheme option"

record ('h, 'm) hooks =
  onConnected :: "cid \<Rightarrow> ('h, 'm) sys_scheme \<Rightarrow> (bool \<times> ('h, 'm) sys_scheme) option"
  onRecv :: "cid \<Rightarrow> pbuf list \<Rightarrow> ('h, 'm) sys_scheme \<Rightarrow> (bool \<times> ('h, 'm) sys_scheme) option"
  onSent :: "cid \<Rightarrow> u16 \<Rightarrow> ('h, 'm) sys_scheme \<Rightarrow> (bool \<times> ('h, 'm) sys_scheme) option"
  onPoll :: "cid \<Rightarrow> ('h, 'm) sys_scheme \<Rightarrow> (bool \<times> ('h, 'm) sys_scheme) option"
  onWrite :: "('h, 'm) runner \<Rightarrow> cid \<Rightarrow> u8 list \<Rightarrow> ('h, 'm) sys_scheme \<Rightarrow> (int \<times> ('h, 'm) sys_scheme) option"
  onClosing :: "cid \<Rightarrow> ('h, 'm) sys_scheme \<Rightarrow> ('h, 'm) sys_scheme option"
  onError :: "cid \<Rightarrow> err \<Rightarrow> ('h, 'm) sys_scheme \<Rightarrow> ('h, 'm) sys_scheme option"
  onDelete :: "cid \<Rightarrow> ('h, 'm) sys_scheme \<Rightarrow> ('h, 'm) sys_scheme option"

definition call_app :: "('h, 'm) runner \<Rightarrow> cid \<Rightarrow> handler option \<Rightarrow> (handler \<Rightarrow> cbev) \<Rightarrow> ('h, 'm) sys_scheme \<Rightarrow> ('h, 'm) sys_scheme option" where
  "call_app cb c h mk s = (case h of None \<Rightarrow> Some s | Some f \<Rightarrow> cb c (mk f) s)"

abbreviation hooked :: "('h, 'm) sys_scheme \<Rightarrow> cid \<Rightarrow> bool" where
  "hooked s c \<equiv> c_hooks (cl s c) \<noteq> None"

section \<open>The callback contexts\<close>

definition push_ctx :: "cid \<Rightarrow> ('h, 'm) sys_scheme \<Rightarrow> ('h, 'm) sys_scheme" where
  "push_ctx c = upd c (\<lambda>k. k\<lparr>c_cb_ctx := new_ctx # c_cb_ctx k\<rparr>)"

definition pop_ctx :: "cid \<Rightarrow> ('h, 'm) sys_scheme \<Rightarrow> ('h, 'm) sys_scheme" where
  "pop_ctx c = upd c (\<lambda>k. k\<lparr>c_cb_ctx := tl (c_cb_ctx k)\<rparr>)"

definition top_ctx :: "cid \<Rightarrow> ('h, 'm) sys_scheme \<Rightarrow> ctx" where
  "top_ctx c s = (case c_cb_ctx (cl s c) of [] \<Rightarrow> new_ctx | x # _ \<Rightarrow> x)"

definition set_top :: "(ctx \<Rightarrow> ctx) \<Rightarrow> cid \<Rightarrow> ('h, 'm) sys_scheme \<Rightarrow> ('h, 'm) sys_scheme" where
  "set_top f c = upd c (\<lambda>k. k\<lparr>c_cb_ctx := (case c_cb_ctx k of [] \<Rightarrow> [] | x # xs \<Rightarrow> f x # xs)\<rparr>)"

section \<open>Owners\<close>

text \<open>
  One more or one fewer \<open>shared_ptr\<close> to the implementation. \<open>note_freed\<close> stands where a member function reads the object again after a
  callback, in \<open>s\<close> before it and in \<open>s'\<close> after it: if the object was destroyed in between, that read is recorded.
\<close>

definition pin :: "cid \<Rightarrow> ('h, 'm) sys_scheme \<Rightarrow> ('h, 'm) sys_scheme" where
  "pin c = upd c (\<lambda>k. k\<lparr>c_pins := Suc (c_pins k)\<rparr>)"

definition unpin :: "cid \<Rightarrow> ('h, 'm) sys_scheme \<Rightarrow> ('h, 'm) sys_scheme" where
  "unpin c = upd c (\<lambda>k. k\<lparr>c_pins := c_pins k - 1\<rparr>)"

definition note_freed :: "cid \<Rightarrow> ('h, 'm) sys_scheme \<Rightarrow> ('h, 'm) sys_scheme \<Rightarrow> ('h, 'm) sys_scheme" where
  "note_freed c s s' =
     (if c_dead (cl s' c) \<and> \<not> c_dead (cl s c) then upd c (\<lambda>k. k\<lparr>c_freed_read := True\<rparr>) s' else s')"

section \<open>Closing\<close>

text \<open>\<open>_close\<close>: with \<open>ERR_OK\<close> it reads \<open>_server_discard_cb\<close> after the disconnect callback.\<close>

definition close_impl :: "lwip \<Rightarrow> ('h, 'm) hooks \<Rightarrow> ('h, 'm) runner \<Rightarrow> cid \<Rightarrow> ('h, 'm) sys_scheme \<Rightarrow> (err \<times> ('h, 'm) sys_scheme) option" where
  "close_impl E H cb c s =
     do {
       s1 \<leftarrow> (if hooked s c \<and> c_pcb (cl s c) \<noteq> None then onClosing H c s else Some s);
       let (err, s2) = tcp_close E c s1;
       s3 \<leftarrow> (if err = ERR_OK then call_app cb c (c_discard_cb (cl s2 c)) Cb_discard s2 else Some s2);
       let s3' = note_freed c s2 s3;
       s4 \<leftarrow> (if err = ERR_OK then call_app cb c (c_server_discard_cb (cl s3' c)) Cb_server_discard s3' else Some s3');
       Some (err, s4)
     }"

definition clear_token :: "cid \<Rightarrow> ('h, 'm) sys_scheme \<Rightarrow> ('h, 'm) sys_scheme" where
  "clear_token c = upd c (\<lambda>k. k\<lparr>c_dns_token := None\<rparr>)"

definition close :: "lwip \<Rightarrow> ('h, 'm) hooks \<Rightarrow> ('h, 'm) runner \<Rightarrow> cid \<Rightarrow> ('h, 'm) sys_scheme \<Rightarrow> ('h, 'm) sys_scheme option" where
  "close E H cb c s =
     (let s1 = clear_token c s;
          s2 = (if c_pcb (cl s1 c) \<noteq> None
                then let pending = c_rx_ack_len (cl s1 c) + (\<Sum>x \<leftarrow> c_cb_ctx (cl s1 c). ucast (ack_len x));
                         s' = upd c (\<lambda>k. k\<lparr>c_rx_ack_len := 0\<rparr>) s1
                     in if pending \<noteq> 0 then snd (tcp_recved E c pending s') else s'
                else s1)
      in map_option snd (close_impl E H cb c s2))"

text \<open>
  \<open>_error\<close>. When the error callback destroyed the object it returns, and the context goes with its stack frame;
  after the disconnect callback there is no such test.
\<close>

definition error_impl :: "('h, 'm) runner \<Rightarrow> cid \<Rightarrow> err \<Rightarrow> ('h, 'm) sys_scheme \<Rightarrow> ('h, 'm) sys_scheme option" where
  "error_impl cb c err s =
     do {
       let s1 = push_ctx c s;
       s2 \<leftarrow> call_app cb c (c_error_cb (cl s1 c)) (\<lambda>h. Cb_error h err) s1;
       let s3 = pop_ctx c s2;
       if \<not> client_is_valid (top_ctx c s2) then Some s3
       else do {
         s4 \<leftarrow> call_app cb c (c_discard_cb (cl s3 c)) Cb_discard s3;
         let s5 = note_freed c s3 s4;
         call_app cb c (c_server_discard_cb (cl s5 c)) Cb_server_discard s5
       }
     }"

definition abort :: "lwip \<Rightarrow> ('h, 'm) hooks \<Rightarrow> ('h, 'm) runner \<Rightarrow> cid \<Rightarrow> ('h, 'm) sys_scheme \<Rightarrow> (err \<times> ('h, 'm) sys_scheme) option" where
  "abort E H cb c s =
     do {
       let s1 = clear_token c s;
       s2 \<leftarrow> (if hooked s1 c \<and> c_pcb (cl s1 c) \<noteq> None then onClosing H c s1 else Some s1);
       let (err, s3) = tcp_abort E c s2;
       s4 \<leftarrow> (if err \<noteq> ERR_CONN then error_impl cb c ERR_ABRT s3 else Some s3);
       Some (err, s4)
     }"

section \<open>Dialing\<close>

definition start_async_task :: "lwip \<Rightarrow> ('h, 'm) sys_scheme \<Rightarrow> bool \<times> ('h, 'm) sys_scheme" where
  "start_async_task E s = (no_sys E \<or> task_ok E (trace s), if no_sys E then s else log Start_task s)"

definition connect :: "lwip \<Rightarrow> cid \<Rightarrow> ip_addr \<Rightarrow> u16 \<Rightarrow> ('h, 'm) sys_scheme \<Rightarrow> bool \<times> ('h, 'm) sys_scheme" where
  "connect E c addr port s =
     (let s1 = clear_token c s in
      if c_pcb (cl s1 c) \<noteq> None then (False, s1)
      else case start_async_task E s1 of (started, s2) \<Rightarrow>
        if \<not> started then (False, s2)
        else
          let s3 = log Tcp_new s2 in
          case new_pcb E (trace s2) of
            None \<Rightarrow> (False, s3)
          | Some p \<Rightarrow>
              (let s4 = bind_tcp_callbacks p c s3
               in case tcp_connect E (Some p) addr port s4 of (err, s5) \<Rightarrow>
                 if err \<noteq> ERR_OK
                 then (False, log (Tcp_abort p) (reset_tcp_callbacks p (Some c) s5))
                 else (True, s5)))"

definition connect_host :: "lwip \<Rightarrow> cid \<Rightarrow> string \<Rightarrow> u16 \<Rightarrow> ('h, 'm) sys_scheme \<Rightarrow> bool \<times> ('h, 'm) sys_scheme" where
  "connect_host E c host port s =
     (case start_async_task E s of (started, s1) \<Rightarrow>
        if \<not> started then (False, s1)
        else
          let s2 = upd c (\<lambda>k. k\<lparr>c_dns_token := Some (next_token s1)\<rparr>) (s1\<lparr>next_token := Suc (next_token s1)\<rparr>);
              s3 = log New_object s2
          in if \<not> alloc_ok E (trace s2) then (False, s3)
             else
               let s4 = log (Dns_query host) s3
               in case dns_ret E (trace s3) of (err, addr) \<Rightarrow>
                 if err = ERR_OK then connect E c addr port s4
                 else if err = ERR_INPROGRESS then (True, pin c (upd c (\<lambda>k. k\<lparr>c_connect_port := port\<rparr>) s4))
                 else (False, s4))"

section \<open>Sending and acknowledging\<close>

text \<open>
  \<open>add\<close> and \<open>write\<close>, which go on with the object after the TLS hook: \<open>data\<close> is the buffer of the application (\<open>None\<close> the null pointer) and its length the
  argument \<open>size\<close>. The result is the number of bytes taken.
\<close>

definition add :: "lwip \<Rightarrow> ('h, 'm) hooks \<Rightarrow> ('h, 'm) runner \<Rightarrow> cid \<Rightarrow> u8 list option \<Rightarrow> u8 \<Rightarrow> ('h, 'm) sys_scheme \<Rightarrow> (nat \<times> ('h, 'm) sys_scheme) option" where
  "add E H cb c data flags s =
     (case data of
        None \<Rightarrow> Some (0, s)
      | Some bytes \<Rightarrow>
          if c_pcb (cl s c) = None \<or> bytes = [] then Some (0, s)
          else
            let room = unat (space E c s) in
            if room = 0 then Some (0, s)
            else
              let will_send = (if room < length bytes then room else length bytes);
                  plain = (\<lambda>s'. case tcp_write E c (take will_send bytes) flags s' of (err, s'') \<Rightarrow>
                                  (if err \<noteq> ERR_OK then 0 else will_send, s''))
              in if hooked s c
                 then do {
                   (n, s1) \<leftarrow> onWrite H cb c bytes s;
                   Some (if n \<ge> 0 then (nat n, s1) else plain (note_freed c s s1))
                 }
                 else Some (plain s))"

definition send :: "lwip \<Rightarrow> cid \<Rightarrow> ('h, 'm) sys_scheme \<Rightarrow> bool \<times> ('h, 'm) sys_scheme" where
  "send E c s =
     (let backup = c_tx_last_packet (cl s c);
          s1 = upd c (\<lambda>k. k\<lparr>c_tx_last_packet := millis E (trace s)\<rparr>) s
      in case tcp_output E c s1 of (err, s2) \<Rightarrow>
           if err = ERR_OK then (True, s2)
           else (False, upd c (\<lambda>k. k\<lparr>c_tx_last_packet := backup\<rparr>) s2))"

definition write_impl :: "lwip \<Rightarrow> ('h, 'm) hooks \<Rightarrow> ('h, 'm) runner \<Rightarrow> cid \<Rightarrow> u8 list option \<Rightarrow> u8 \<Rightarrow> ('h, 'm) sys_scheme \<Rightarrow> (nat \<times> ('h, 'm) sys_scheme) option" where
  "write_impl E H cb c data flags s =
     do {
       (will_send, s1) \<leftarrow> add E H cb c data flags s;
       if will_send = 0 then Some (0, s1)
       else case send E c (note_freed c s s1) of (ok, s2) \<Rightarrow> Some (if ok then will_send else 0, s2)
     }"

definition ack :: "lwip \<Rightarrow> cid \<Rightarrow> u32 \<Rightarrow> ('h, 'm) sys_scheme \<Rightarrow> u32 \<times> ('h, 'm) sys_scheme" where
  "ack E c len s =
     (let len' = (if len > c_rx_ack_len (cl s c) then c_rx_ack_len (cl s c) else len);
          s1 = (if len' \<noteq> 0 then snd (tcp_recved E c len' s) else s)
      in (len', upd c (\<lambda>k. k\<lparr>c_rx_ack_len := c_rx_ack_len k - len'\<rparr>) s1))"

definition ackPacket :: "lwip \<Rightarrow> cid \<Rightarrow> pbuf option \<Rightarrow> ('h, 'm) sys_scheme \<Rightarrow> ('h, 'm) sys_scheme" where
  "ackPacket E c pb s =
     (case pb of None \<Rightarrow> s
      | Some b \<Rightarrow> log (Pbuf_free [b]) (snd (tcp_recved E c (ucast (pb_len b)) s)))"

definition ackLater :: "cid \<Rightarrow> ('h, 'm) sys_scheme \<Rightarrow> ('h, 'm) sys_scheme" where
  "ackLater c = upd c (\<lambda>k. k\<lparr>c_cb_ctx := map (\<lambda>x. x\<lparr>ack_later := True\<rparr>) (c_cb_ctx k)\<rparr>)"

section \<open>The handlers of the dispatcher\<close>

definition connected_prep :: "lwip \<Rightarrow> cid \<Rightarrow> pcb option \<Rightarrow> ('h, 'm) sys_scheme \<Rightarrow> ('h, 'm) sys_scheme" where
  "connected_prep E c p s =
     (let s1 = set_pcb c p s;
          s2 = (if p \<noteq> None then upd c (\<lambda>k. k\<lparr>c_rx_last_packet := millis E (trace s1)\<rparr>) s1 else s1)
      in upd c (\<lambda>k. k\<lparr>c_tx_last_packet := 0, c_rx_last_ack := 0\<rparr>) s2)"

definition connected_impl :: "lwip \<Rightarrow> ('h, 'm) hooks \<Rightarrow> ('h, 'm) runner \<Rightarrow> cid \<Rightarrow> pcb option \<Rightarrow> ('h, 'm) sys_scheme \<Rightarrow> ('h, 'm) sys_scheme option" where
  "connected_impl E H cb c p s =
     do {
       let s3 = connected_prep E c p s;
       (handled, s4) \<leftarrow> (if hooked s3 c then onConnected H c s3 else Some (False, s3));
       if handled then Some s4 else call_app cb c (c_connect_cb (cl s4 c)) Cb_connect s4
     }"

text \<open>
  The parts of the loop of \<open>_recv\<close>: the start of a round, the \<open>onData\<close> callback of a buffer, the test whether
  the callback destroyed or closed the client, and the acknowledgement of the buffer.
\<close>

definition recv_prep :: "lwip \<Rightarrow> cid \<Rightarrow> ('h, 'm) sys_scheme \<Rightarrow> ('h, 'm) sys_scheme" where
  "recv_prep E c s =
     set_top (\<lambda>x. x\<lparr>ack_later := False\<rparr>) c (upd c (\<lambda>k. k\<lparr>c_rx_last_packet := millis E (trace s)\<rparr>) s)"

definition recv_done :: "lwip \<Rightarrow> cid \<Rightarrow> ('h, 'm) sys_scheme \<Rightarrow> ('h, 'm) sys_scheme" where
  "recv_done E c s =
     (let n = ucast (ack_len (top_ctx c s))
      in set_top (\<lambda>x. x\<lparr>ack_len := 0\<rparr>) c
           (if \<not> ack_later (top_ctx c s) then snd (tcp_recved E c n s)
            else upd c (\<lambda>k. k\<lparr>c_rx_ack_len := c_rx_ack_len k + n\<rparr>) s))"

definition gone :: "cid \<Rightarrow> ('h, 'm) sys_scheme \<Rightarrow> bool" where
  "gone c s \<longleftrightarrow> \<not> client_is_valid (top_ctx c s) \<or> c_pcb (cl s c) = None"

definition recv_app :: "('h, 'm) runner \<Rightarrow> cid \<Rightarrow> pbuf \<Rightarrow> ('h, 'm) sys_scheme \<Rightarrow> ('h, 'm) sys_scheme option" where
  "recv_app cb c b s =
     (let s3 = set_top (\<lambda>x. x\<lparr>ack_len := pb_len b\<rparr>) c s
      in if c_facade (cl s3 c) then call_app cb c (c_recv_cb (cl s3 c)) (\<lambda>h. Cb_recv h (pb_data b)) s3 else Some s3)"

text \<open>
  The loop of \<open>_recv\<close> over the chain. The result holds the buffers it did not get to, when the client was
  destroyed or closed by a callback.
\<close>

fun recv_loop :: "lwip \<Rightarrow> ('h, 'm) runner \<Rightarrow> cid \<Rightarrow> pbuf list \<Rightarrow> ('h, 'm) sys_scheme \<Rightarrow> (pbuf list \<times> ('h, 'm) sys_scheme) option" where
  "recv_loop E cb c [] s = Some ([], s)"
| "recv_loop E cb c (b # pb) s =
     (case c_pb_cb (cl (recv_prep E c s) c) of
        Some h \<Rightarrow>
          (case cb c (Cb_packet h b) (recv_prep E c s) of
             None \<Rightarrow> None
           | Some s3 \<Rightarrow> if gone c s3 then Some (pb, s3) else recv_loop E cb c pb s3)
      | None \<Rightarrow>
          (case recv_app cb c b (recv_prep E c s) of
             None \<Rightarrow> None
           | Some s4 \<Rightarrow>
               if gone c (log (Pbuf_free [b]) s4) then Some (pb, log (Pbuf_free [b]) s4)
               else recv_loop E cb c pb (recv_done E c (log (Pbuf_free [b]) s4))))"

text \<open>\<open>_recv\<close>. A context that was marked is not unlinked, but its frame is gone all the same when the function returns.\<close>

definition recv_impl :: "lwip \<Rightarrow> ('h, 'm) hooks \<Rightarrow> ('h, 'm) runner \<Rightarrow> cid \<Rightarrow> pbuf list \<Rightarrow> ('h, 'm) sys_scheme \<Rightarrow> ('h, 'm) sys_scheme option" where
  "recv_impl E H cb c pb s =
     do {
       (handled, s1) \<leftarrow> (if hooked s c then onRecv H c pb s else Some (False, s));
       if handled then Some s1
       else do {
         (left, s2) \<leftarrow> recv_loop E cb c pb (push_ctx c s1);
         let s3 = (if left \<noteq> [] then log (Pbuf_free left) s2 else s2);
         Some (pop_ctx c s3)
       }
     }"

definition fin_impl :: "lwip \<Rightarrow> ('h, 'm) hooks \<Rightarrow> ('h, 'm) runner \<Rightarrow> cid \<Rightarrow> ('h, 'm) sys_scheme \<Rightarrow> ('h, 'm) sys_scheme option" where
  "fin_impl E H cb c s = (if c_pcb (cl s c) = None then Some s else close E H cb c s)"

definition sent_impl :: "lwip \<Rightarrow> ('h, 'm) hooks \<Rightarrow> ('h, 'm) runner \<Rightarrow> cid \<Rightarrow> u16 \<Rightarrow> ('h, 'm) sys_scheme \<Rightarrow> ('h, 'm) sys_scheme option" where
  "sent_impl E H cb c len s =
     (if c_pcb (cl s c) = None then Some s
      else do {
        (handled, s1) \<leftarrow> (if hooked s c then onSent H c len s else Some (False, s));
        if handled then Some s1
        else do {
          let now = millis E (trace s1);
          let s2 = upd c (\<lambda>k. k\<lparr>c_rx_last_packet := now, c_rx_last_ack := now\<rparr>) s1;
          call_app cb c (c_sent_cb (cl s2 c))
            (\<lambda>h. Cb_sent h len (c_rx_last_packet (cl s2 c) - c_tx_last_packet (cl s2 c))) s2
        }
      })"

text \<open>The two timeouts of \<open>_poll\<close>; \<open>now\<close> is the millisecond clock, all arithmetic is on 32 bits.\<close>

definition one_day :: u32 where
  "one_day = 86400000"

definition ack_timed_out :: "u32 \<Rightarrow> 'h client \<Rightarrow> bool" where
  "ack_timed_out now k \<longleftrightarrow>
     c_ack_timeout k \<noteq> 0 \<and> c_rx_last_ack k - c_tx_last_packet k + one_day < one_day
     \<and> now - c_tx_last_packet k \<ge> c_ack_timeout k"

definition rx_timed_out :: "u32 \<Rightarrow> 'h client \<Rightarrow> bool" where
  "rx_timed_out now k \<longleftrightarrow> c_rx_timeout k \<noteq> 0 \<and> now - c_rx_last_packet k \<ge> c_rx_timeout k * 1000"

definition poll_impl :: "lwip \<Rightarrow> ('h, 'm) hooks \<Rightarrow> ('h, 'm) runner \<Rightarrow> cid \<Rightarrow> pcb \<Rightarrow> ('h, 'm) sys_scheme \<Rightarrow> ('h, 'm) sys_scheme option" where
  "poll_impl E H cb c p s =
     (if c_pcb (cl s c) = None then Some s
      else if c_pcb (cl s c) \<noteq> Some p then Some s
      else
        let now = millis E (trace s); k = cl s c in
        if ack_timed_out now k \<and> c_timeout_cb k \<noteq> None
        then call_app cb c (c_timeout_cb k) (\<lambda>h. Cb_timeout h (now - c_tx_last_packet k)) s
        else if rx_timed_out now k then map_option snd (close_impl E H cb c s)
        else do {
          (handled, s1) \<leftarrow> (if hooked s c then onPoll H c s else Some (False, s));
          if handled then Some s1 else call_app cb c (c_poll_cb (cl s1 c)) Cb_poll s1
        })"

definition dns_found :: "lwip \<Rightarrow> ('h, 'm) runner \<Rightarrow> cid \<Rightarrow> ip_addr \<Rightarrow> ('h, 'm) sys_scheme \<Rightarrow> ('h, 'm) sys_scheme option" where
  "dns_found E cb c addr s =
     (let s1 = clear_token c s
      in if \<not> ip_isany E addr then Some (snd (connect E c addr (c_connect_port (cl s1 c)) s1))
         else error_impl cb c (Err_num (- 55)) s1)"

section \<open>Construction and destruction\<close>

definition new_client :: "lwip \<Rightarrow> u32 \<Rightarrow> cid \<Rightarrow> pcb option \<Rightarrow> ('h, 'm) sys_scheme \<Rightarrow> ('h, 'm) sys_scheme" where
  "new_client E garbage c p s =
     (let s1 = set_pcb c p (upd c (\<lambda>_. init_client garbage) s)
      in case p of
           None \<Rightarrow> s1
         | Some q \<Rightarrow> bind_tcp_callbacks q c (upd c (\<lambda>k. k\<lparr>c_rx_last_packet := millis E (trace s1)\<rparr>) s1))"

text \<open>
  The destructor of the implementation, and the one of the facade, which closes the transport and then gives up its
  reference. \<open>onDelete\<close> is the destructor of the hooks, which deletes their TLS session. \<open>release\<close> is what the end of any \<open>shared_ptr\<close> to
  the implementation does: the last one destroys it, at once and in the middle of whatever is running.
\<close>

definition mark_dead :: "cid \<Rightarrow> ('h, 'm) sys_scheme \<Rightarrow> ('h, 'm) sys_scheme" where
  "mark_dead c = upd c (\<lambda>k. k\<lparr>c_dead := True\<rparr>)"

definition clear_hooks :: "cid \<Rightarrow> ('h, 'm) sys_scheme \<Rightarrow> ('h, 'm) sys_scheme" where
  "clear_hooks c = upd c (\<lambda>k. k\<lparr>c_hooks := None\<rparr>)"

definition invalidate :: "cid \<Rightarrow> ('h, 'm) sys_scheme \<Rightarrow> ('h, 'm) sys_scheme" where
  "invalidate c = upd c (\<lambda>k. k\<lparr>c_cb_ctx := map (\<lambda>x. x\<lparr>client_is_valid := False\<rparr>) (c_cb_ctx k)\<rparr>)"

definition destroy_impl :: "lwip \<Rightarrow> ('h, 'm) hooks \<Rightarrow> ('h, 'm) runner \<Rightarrow> cid \<Rightarrow> ('h, 'm) sys_scheme \<Rightarrow> ('h, 'm) sys_scheme option" where
  "destroy_impl E H cb c s =
     do {
       let s0 = mark_dead c s;
       s1 \<leftarrow> (if hooked s0 c then map_option (clear_hooks c) (onDelete H c s0) else Some s0);
       s2 \<leftarrow> (if c_pcb (cl s1 c) \<noteq> None then map_option snd (close_impl E H cb c s1) else Some s1);
       Some (invalidate c s2)
     }"

definition release :: "lwip \<Rightarrow> ('h, 'm) hooks \<Rightarrow> ('h, 'm) runner \<Rightarrow> cid \<Rightarrow> ('h, 'm) sys_scheme \<Rightarrow> ('h, 'm) sys_scheme option" where
  "release E H cb c s =
     (if \<not> c_facade (cl s c) \<and> list_all (\<lambda>e. ev_impl e \<noteq> Some c) (queue s) \<and> c_pins (cl s c) = 0 \<and> \<not> c_dead (cl s c)
      then destroy_impl E H cb c s else Some s)"

definition close_facade :: "lwip \<Rightarrow> ('h, 'm) hooks \<Rightarrow> ('h, 'm) runner \<Rightarrow> cid \<Rightarrow> ('h, 'm) sys_scheme \<Rightarrow> ('h, 'm) sys_scheme option" where
  "close_facade E H cb c s = close E H cb c (upd c (\<lambda>k. k\<lparr>c_facade := False\<rparr>) s)"

text \<open>\<open>delete\<close> of the facade by the application. Its own reference holds the implementation until its body has run.\<close>

definition drop_facade :: "lwip \<Rightarrow> ('h, 'm) hooks \<Rightarrow> ('h, 'm) runner \<Rightarrow> cid \<Rightarrow> ('h, 'm) sys_scheme \<Rightarrow> ('h, 'm) sys_scheme option" where
  "drop_facade E H cb c s =
     do {
       s1 \<leftarrow> close_facade E H cb c (pin c s);
       release E H cb c (unpin c s1)
     }"

section \<open>Contexts and small steps\<close>

lemma ctx_ops_frame [simp]:
  "queue (push_ctx c s) = queue s" "queue (pop_ctx c s) = queue s" "queue (set_top f c s) = queue s"
  "scheduled (push_ctx c s) = scheduled s" "scheduled (pop_ctx c s) = scheduled s" "scheduled (set_top f c s) = scheduled s"
  "trace (push_ctx c s) = trace s" "trace (pop_ctx c s) = trace s" "trace (set_top f c s) = trace s"
  "servers (push_ctx c s) = servers s" "servers (pop_ctx c s) = servers s" "servers (set_top f c s) = servers s"
  "c_pcb (cl (push_ctx c s) d) = c_pcb (cl s d)" "c_pcb (cl (pop_ctx c s) d) = c_pcb (cl s d)"
  "c_pcb (cl (set_top f c s) d) = c_pcb (cl s d)"
  by (simp_all add: push_ctx_def pop_ctx_def set_top_def)

lemma evolves_clear_token [inv_intros]: "evolves s (clear_token c s)"
  by (auto simp: clear_token_def evolves_client_def intro: evolves_upd)

lemma clear_token_simps [simp]:
  "c_pcb (cl (clear_token c s) d) = c_pcb (cl s d)" "queue (clear_token c s) = queue s"
  "trace (clear_token c s) = trace s" "c_dns_token (cl (clear_token c s) c) = None"
  "c_hooks (cl (clear_token c s) d) = c_hooks (cl s d)" "c_rx_ack_len (cl (clear_token c s) d) = c_rx_ack_len (cl s d)"
  "c_cb_ctx (cl (clear_token c s) d) = c_cb_ctx (cl s d)" "c_connect_port (cl (clear_token c s) d) = c_connect_port (cl s d)"
  by (simp_all add: clear_token_def)

lemma evolves_set_top [inv_intros]:
  "(\<And>x. client_is_valid (f x) = client_is_valid x) \<Longrightarrow> evolves s (set_top f c s)"
  by (auto simp: set_top_def evolves_client_def split: list.splits intro!: evolves_upd)

lemma evolves_upd_field [inv_intros]:
  "evolves s (upd c (\<lambda>k. c_rx_last_packet_update (f k) k) s)" "evolves s (upd c (\<lambda>k. c_tx_last_packet_update (f k) k) s)"
  "evolves s (upd c (\<lambda>k. c_rx_ack_len_update (f k) k) s)" "evolves s (upd c (\<lambda>k. c_rx_last_ack_update (f k) k) s)"
  "evolves s (upd c (\<lambda>k. c_dns_token_update (g k) k) s)" "evolves s (upd c (\<lambda>k. c_connect_port_update (h k) k) s)"
  by (auto simp: evolves_client_def intro!: evolves_upd)

lemma pin_simps [simp]:
  "queue (pin c s) = queue s" "queue (unpin c s) = queue s" "trace (pin c s) = trace s" "trace (unpin c s) = trace s"
  "servers (pin c s) = servers s" "servers (unpin c s) = servers s" "scheduled (pin c s) = scheduled s"
  "scheduled (unpin c s) = scheduled s" "rng (pin c s) = rng s" "rng (unpin c s) = rng s"
  "clients (pin c s) = (clients s)(c := (clients s c)\<lparr>c_pins := Suc (c_pins (clients s c))\<rparr>)"
  "clients (unpin c s) = (clients s)(c := (clients s c)\<lparr>c_pins := c_pins (clients s c) - 1\<rparr>)"
  by (simp_all add: pin_def unpin_def)

lemma evolves_pin [inv_intros]: "evolves s (pin c s)"
  by (auto simp: pin_def evolves_client_def intro: evolves_upd)

lemma evolves_unpin:
  assumes "evolves (pin c s) s'"
  shows "evolves s (unpin c s')"
proof -
  have "evolves_client (cl s d) (cl (unpin c s') d)" for d
    using evolves_here [OF assms, of d] by (cases "d = c") (auto simp: evolves_client_def)
  then show ?thesis using assms by (simp add: evolves_def)
qed

lemma note_freed_simps [simp]:
  "queue (note_freed c s s') = queue s'" "trace (note_freed c s s') = trace s'" "servers (note_freed c s s') = servers s'"
  "scheduled (note_freed c s s') = scheduled s'" "park (note_freed c s s') = park s'" "tls_active (note_freed c s s') = tls_active s'"
  "c_pcb (cl (note_freed c s s') d) = c_pcb (cl s' d)" "c_hooks (cl (note_freed c s s') d) = c_hooks (cl s' d)"
  "c_dead (cl (note_freed c s s') d) = c_dead (cl s' d)" "c_cb_ctx (cl (note_freed c s s') d) = c_cb_ctx (cl s' d)"
  "c_server_discard_cb (cl (note_freed c s s') d) = c_server_discard_cb (cl s' d)"
  by (simp_all add: note_freed_def)

lemma note_freed_same [simp]: "note_freed c s s = s"
  by (simp add: note_freed_def)

lemma note_freed_alive: "c_dead (cl s' c) = c_dead (cl s c) \<Longrightarrow> note_freed c s s' = s'"
  by (simp add: note_freed_def)

lemma evolves_note:
  assumes "evolves s s'"
  shows "evolves s (note_freed c s s')"
proof -
  have "evolves_client (cl s d) (cl (note_freed c s s') d)" for d
    using evolves_here [OF assms, of d] by (cases "d = c") (auto simp: evolves_client_def note_freed_def)
  then show ?thesis using assms by (simp add: evolves_def)
qed

lemma evolves_fields:
  "clients s' = clients s \<Longrightarrow> queue s' = queue s \<Longrightarrow> trace s' = trace s \<Longrightarrow> scheduled s' = scheduled s \<Longrightarrow> evolves s s'"
  by (simp add: evolves_def)

lemma evolves_push_pop:
  assumes "evolves (push_ctx c s) s'"
  shows "evolves s (pop_ctx c s')"
proof -
  have "evolves_client (cl s d) (cl (pop_ctx c s') d)" for d
    using evolves_here [OF assms, of d] unfolding evolves_client_def push_ctx_def pop_ctx_def
    by (cases "d = c") (auto simp: new_ctx_def map_tl [symmetric] simp del: map_tl)
  then show ?thesis using assms by (simp add: evolves_def)
qed

lemma top_valid_evolves:
  "evolves s s' \<Longrightarrow> c_dead (cl s' c) = c_dead (cl s c) \<Longrightarrow> client_is_valid (top_ctx c s) \<Longrightarrow> client_is_valid (top_ctx c s')"
  by (drule (1) evolves_ctx [of _ _ c]) (auto simp: top_ctx_def new_ctx_def split: list.splits)

lemma top_valid_open:
  "evolves s s' \<Longrightarrow> c_pcb (cl s' c) \<noteq> None \<Longrightarrow> client_is_valid (top_ctx c s) \<Longrightarrow> client_is_valid (top_ctx c s')"
  by (rule top_valid_evolves [OF _ evolves_alive])

section \<open>Work left for the callbacks\<close>

text \<open>
  A callback only runs further callbacks by closing or aborting a client that has a pcb or a queued event,
  and then that client has neither: the number of such clients bounds the depth of the recursion.
\<close>

definition live :: "('h, 'm) sys_scheme \<Rightarrow> cid set" where
  "live s = {c. c_pcb (cl s c) \<noteq> None}"

definition pending :: "('h, 'm) sys_scheme \<Rightarrow> cid set" where
  "pending s = {c. events_of c (queue s) \<noteq> []}"

definition work :: "('h, 'm) sys_scheme \<Rightarrow> nat" where
  "work s = card (live s) + card (pending s)"

lemma finite_pending [simp]: "finite (pending s)"
proof -
  have "pending s \<subseteq> (\<lambda>e. the (ev_impl e)) ` set (queue s)"
    by (force simp: pending_def events_of_def filter_empty_conv)
  then show ?thesis by (rule finite_surj [rotated]) simp
qed

lemma evolves_live: "evolves s s' \<Longrightarrow> live s' \<subseteq> live s"
  by (auto simp: live_def dest: evolves_pcb)

lemma evolves_finite: "evolves s s' \<Longrightarrow> finite (live s) \<Longrightarrow> finite (live s')"
  by (meson evolves_live finite_subset)

lemma evolves_pending: "evolves s s' \<Longrightarrow> pending s' \<subseteq> pending s"
  by (auto simp: pending_def dest: evolves_events)

lemma evolves_work: "evolves s s' \<Longrightarrow> finite (live s) \<Longrightarrow> work s' \<le> work s"
  unfolding work_def by (intro add_mono card_mono evolves_live evolves_pending) auto

lemma work_decreases:
  assumes "evolves s s'" and "finite (live s)" and "c \<in> live s \<union> pending s" and "c \<notin> live s' \<union> pending s'"
  shows "work s' < work s"
proof (cases "c \<in> live s")
  case True
  then have "live s' \<subset> live s" using assms(1,4) evolves_live by auto
  then have "card (live s') < card (live s)" by (rule psubset_card_mono [OF assms(2)])
  moreover have "card (pending s') \<le> card (pending s)"
    using assms(1) by (intro card_mono evolves_pending) auto
  ultimately show ?thesis by (simp add: work_def)
next
  case False
  then have "pending s' \<subset> pending s" using assms evolves_pending by auto
  then have "card (pending s') < card (pending s)" by (rule psubset_card_mono [rotated]) simp
  moreover have "card (live s') \<le> card (live s)"
    using assms(1,2) by (intro card_mono evolves_live)
  ultimately show ?thesis by (simp add: work_def)
qed

lemma tcp_close_work:
  "fst (tcp_close E c s) = ERR_OK \<Longrightarrow> finite (live s) \<Longrightarrow> work (snd (tcp_close E c s)) < work s"
  by (rule work_decreases [OF evolves_tcp_close, where c = c])
    (auto simp: live_def pending_def tcp_close_post split: if_splits)

lemma tcp_abort_work:
  "fst (tcp_abort E c s) \<noteq> ERR_CONN \<Longrightarrow> finite (live s) \<Longrightarrow> work (snd (tcp_abort E c s)) < work s"
  by (rule work_decreases [OF evolves_tcp_abort, where c = c])
    (auto simp: live_def pending_def tcp_abort_post)

section \<open>Runs that evolve and come back\<close>

text \<open>
  \<open>safe k s f m\<close>: the run \<open>m\<close> from \<open>s\<close>, whose result carries the state \<open>f\<close>, ends in a state that evolves from \<open>s\<close>
  and, when fewer than \<open>k\<close> clients are live or pending, does come back. The rules follow the shape of a
  definition, so each operation is settled by one pass over its code.
\<close>

definition safe :: "nat \<Rightarrow> ('h, 'm) sys_scheme \<Rightarrow> ('a \<Rightarrow> ('h, 'm) sys_scheme) \<Rightarrow> 'a option \<Rightarrow> bool" where
  "safe k s f m \<longleftrightarrow> (\<forall>x. m = Some x \<longrightarrow> evolves s (f x)) \<and> (finite (live s) \<longrightarrow> work s < k \<longrightarrow> m \<noteq> None)"

definition runner_safe :: "nat \<Rightarrow> ('h, 'm) runner \<Rightarrow> bool" where
  "runner_safe k cb \<longleftrightarrow> (\<forall>c e s. safe k s (\<lambda>x. x) (cb c e s))"

lemma safe_evolves: "safe k s f m \<Longrightarrow> m = Some x \<Longrightarrow> evolves s (f x)"
  by (simp add: safe_def)

lemma safe_total: "safe k s f m \<Longrightarrow> finite (live s) \<Longrightarrow> work s < k \<Longrightarrow> \<exists>x. m = Some x"
  by (auto simp: safe_def)

lemma safe_Some: "evolves s (f x) \<Longrightarrow> safe k s f (Some x)"
  by (simp add: safe_def)

lemma safe_bind:
  assumes m: "safe k s f m" and h: "\<And>x. m = Some x \<Longrightarrow> evolves s (f x) \<Longrightarrow> safe k (f x) g (h x)"
  shows "safe k s g (m \<bind> h)"
proof (cases m)
  case None
  with m show ?thesis by (simp add: safe_def)
next
  case (Some x)
  then have ev: "evolves s (f x)" using m by (rule safe_evolves [rotated])
  from h [OF Some ev] show ?thesis
    by (auto simp: safe_def Some intro: evolves_trans [OF ev] dest: evolves_finite [OF ev] evolves_work [OF ev])
qed

lemma safe_after:
  assumes ev: "evolves s s1" and m: "safe k s1 f m"
  shows "safe k s f m"
  using m evolves_work [OF ev] evolves_finite [OF ev]
  by (auto simp: safe_def intro: evolves_trans [OF ev])

lemma safe_mono: "safe k s f m \<Longrightarrow> k' \<le> k \<Longrightarrow> safe k' s f m"
  by (auto simp: safe_def)

lemma runner_safe_mono: "runner_safe k cb \<Longrightarrow> k' \<le> k \<Longrightarrow> runner_safe k' cb"
  unfolding runner_safe_def by (blast intro: safe_mono)

lemma safe_note: "safe k s (\<lambda>x. x) m \<Longrightarrow> safe k s (note_freed c s) m"
  by (auto simp: safe_def intro: evolves_note)

lemma safe_map: "safe k s (\<lambda>x. f (g x)) m \<Longrightarrow> safe k s f (map_option g m)"
  by (auto simp: safe_def)

lemma safe_call_app: "runner_safe k cb \<Longrightarrow> safe k s (\<lambda>x. x) (call_app cb c h mk s)"
  by (auto simp: call_app_def runner_safe_def intro: safe_Some split: option.splits)

lemma safe_close_decreases:
  assumes "fst (tcp_close E c s) = ERR_OK" and "safe k (snd (tcp_close E c s)) f m"
  shows "safe (Suc k) s f m"
  using assms(2) tcp_close_work [OF assms(1)] evolves_finite [OF evolves_tcp_close]
  by (fastforce simp: safe_def intro: evolves_trans [OF evolves_tcp_close])

lemma safe_abort_decreases:
  assumes "fst (tcp_abort E c s) \<noteq> ERR_CONN" and "safe k (snd (tcp_abort E c s)) f m"
  shows "safe (Suc k) s f m"
  using assms(2) tcp_abort_work [OF assms(1)] evolves_finite [OF evolves_tcp_abort]
  by (fastforce simp: safe_def intro: evolves_trans [OF evolves_tcp_abort])

section \<open>The contract of the hooks the operations call\<close>

text \<open>
  \<open>onClosing\<close>, \<open>onError\<close>, \<open>onWrite\<close> and the destructor run inside operations of the application. \<open>onWrite\<close> may close
  the client; the others return, and change nothing but the hooks' own state, the number of sessions and the trace.
\<close>

definition leaf_step :: "('h, 'm) sys_scheme \<Rightarrow> ('h, 'm) sys_scheme \<Rightarrow> bool" where
  "leaf_step s s' \<longleftrightarrow>
     (\<exists>t. trace s' = trace s @ t) \<and> queue s' = queue s \<and> scheduled s' = scheduled s \<and> park s' = park s
     \<and> (\<forall>d. \<exists>h. cl s' d = (cl s d)\<lparr>c_hooks := h\<rparr>)"

lemma leaf_step_evolves:
  assumes "leaf_step s s'"
  shows "evolves s s'"
proof -
  have "evolves_client (cl s d) (cl s' d)" for d
  proof -
    obtain h where "cl s' d = (cl s d)\<lparr>c_hooks := h\<rparr>" using assms unfolding leaf_step_def by blast
    then show ?thesis by (simp add: evolves_client_def)
  qed
  with assms show ?thesis by (simp add: leaf_step_def evolves_def)
qed

lemma leaf_step_refl [simp]: "leaf_step s s"
proof -
  have "\<exists>h. cl s d = (cl s d)\<lparr>c_hooks := h\<rparr>" for d
    by (rule exI [of _ "c_hooks (cl s d)"]) simp
  then show ?thesis by (simp add: leaf_step_def)
qed

lemma leaf_step_log: "leaf_step s (log x s)"
proof -
  have "\<exists>h. cl s d = (cl s d)\<lparr>c_hooks := h\<rparr>" for d
    by (rule exI [of _ "c_hooks (cl s d)"]) simp
  then show ?thesis by (simp add: leaf_step_def)
qed

lemma leaf_step_trans:
  assumes ab: "leaf_step a b" and bc: "leaf_step b c"
  shows "leaf_step a c"
proof -
  have "\<exists>h. cl c d = (cl a d)\<lparr>c_hooks := h\<rparr>" for d
  proof -
    obtain h1 h2 where "cl b d = (cl a d)\<lparr>c_hooks := h1\<rparr>" "cl c d = (cl b d)\<lparr>c_hooks := h2\<rparr>"
      using ab bc unfolding leaf_step_def by blast
    then have "cl c d = (cl a d)\<lparr>c_hooks := h2\<rparr>" by simp
    then show ?thesis by blast
  qed
  then show ?thesis using ab bc by (auto simp: leaf_step_def)
qed

lemma leaf_step_hooks: "leaf_step s (upd c (\<lambda>k. k\<lparr>c_hooks := f k\<rparr>) s)"
proof -
  have "\<exists>h. (if d = c then (cl s c)\<lparr>c_hooks := f (cl s c)\<rparr> else cl s d) = (cl s d)\<lparr>c_hooks := h\<rparr>" for d
    by (cases "d = c") (auto intro: exI [of _ "f (cl s c)"] exI [of _ "c_hooks (cl s d)"])
  then show ?thesis by (simp add: leaf_step_def fun_upd_def)
qed

lemma close_tail_safe:
  assumes cb: "runner_safe k cb"
  shows "safe (Suc k) s snd
      (let (err, s2) = tcp_close E c s in
        (if err = ERR_OK then call_app cb c (c_discard_cb (cl s2 c)) Cb_discard s2 else Some s2) \<bind>
        (\<lambda>s3. let s3' = note_freed c s2 s3 in
          (if err = ERR_OK then call_app cb c (c_server_discard_cb (cl s3' c)) Cb_server_discard s3' else Some s3') \<bind>
        (\<lambda>s4. Some (err, s4))))"
proof (cases "fst (tcp_close E c s) = ERR_OK")
  case True
  show ?thesis
    by (rule safe_close_decreases [OF True])
      (simp add: True split_beta Let_def, rule safe_bind [OF safe_note [OF safe_call_app [OF cb]]],
        rule safe_bind [OF safe_call_app [OF cb]], simp add: safe_Some)
next
  case False
  then show ?thesis
    using evolves_tcp_close [of s E c] by (simp add: split_beta Let_def safe_Some)
qed

text \<open>\<open>cb'\<close> gives every result \<open>cb\<close> gives, and perhaps more: a runner with more fuel.\<close>

definition runner_le :: "('h, 'm) runner \<Rightarrow> ('h, 'm) runner \<Rightarrow> bool" where
  "runner_le cb cb' \<longleftrightarrow> (\<forall>c e s s'. cb c e s = Some s' \<longrightarrow> cb' c e s = Some s')"

locale leaf_hooks =
  fixes H :: "('h, 'm) hooks"
  assumes closing: "\<exists>s'. onClosing H c s = Some s' \<and> leaf_step s s'"
    and error: "\<exists>s'. onError H c e s = Some s' \<and> leaf_step s s'"
    and deleting: "\<exists>s'. onDelete H c s = Some s' \<and> leaf_step s s'"
    and writing: "runner_safe k cb \<Longrightarrow> safe (Suc k) s snd (onWrite H cb c d s)"
    and writing_le: "runner_le cb cb' \<Longrightarrow> onWrite H cb c d s = Some r \<Longrightarrow> onWrite H cb' c d s = Some r"
begin

lemma closing_safe: "safe k s (\<lambda>x. x) (onClosing H c s)"
  using closing [of c s] by (auto simp: safe_def dest: leaf_step_evolves)

lemma error_safe: "safe k s (\<lambda>x. x) (onError H c e s)"
  using error [of c e s] by (auto simp: safe_def dest: leaf_step_evolves)

lemma deleting_safe: "safe k s (\<lambda>x. x) (onDelete H c s)"
  using deleting [of c s] by (auto simp: safe_def dest: leaf_step_evolves)

lemma close_impl_safe: "runner_safe k cb \<Longrightarrow> safe (Suc k) s snd (close_impl E H cb c s)"
  unfolding close_impl_def
  by (rule safe_bind [where f = "\<lambda>x. x"], simp add: closing_safe safe_Some, rule close_tail_safe)

lemma close_impl_gone:
  assumes cb: "runner_safe k cb" and run: "close_impl E H cb c s = Some (e, s')"
  shows "c_pcb (cl s' c) = None \<and> events_of c (queue s') = []"
proof -
  obtain s1 where s1: "(if hooked s c \<and> c_pcb (cl s c) \<noteq> None then onClosing H c s else Some s) = Some s1"
    using run by (auto simp: close_impl_def bind_eq_Some_conv)
  let ?s2 = "snd (tcp_close E c s1)"
  have eq: "close_impl E H cb c s = (if fst (tcp_close E c s1) = ERR_OK
      then call_app cb c (c_discard_cb (cl ?s2 c)) Cb_discard ?s2 \<bind>
        (\<lambda>s3. call_app cb c (c_server_discard_cb (cl s3 c)) Cb_server_discard (note_freed c ?s2 s3) \<bind>
          (\<lambda>s4. Some (fst (tcp_close E c s1), s4)))
      else Some (fst (tcp_close E c s1), ?s2))"
    unfolding close_impl_def s1 by (simp add: split_beta Let_def)
  have "evolves ?s2 s'"
    using run safe_evolves [OF safe_call_app [OF cb]] evolves_trans [OF evolves_note]
    unfolding eq by (auto simp: bind_eq_Some_conv split: if_splits) blast
  then show ?thesis using tcp_close_post(1,2) by (metis evolves_pcb evolves_events)
qed

lemma close_safe: "runner_safe k cb \<Longrightarrow> safe (Suc k) s (\<lambda>x. x) (close E H cb c s)"
  unfolding close_def Let_def
  by (rule safe_map, rule safe_after [rotated], erule close_impl_safe)
    (auto intro!: inv_intros intro: evolves_trans [OF evolves_clear_token]
      evolves_trans [OF evolves_clear_token evolves_trans [OF evolves_upd_field(3) evolves_recved]]
      evolves_trans [OF evolves_clear_token evolves_upd_field(3)])

end

lemma error_impl_safe:
  assumes cb: "runner_safe k cb"
  shows "safe k s (\<lambda>x. x) (error_impl cb c e s)"
proof -
  have run: "safe k s' (\<lambda>x. x) (call_app cb c h mk s')" for s' h mk
    by (rule safe_call_app [OF cb])
  show ?thesis
  proof (cases "call_app cb c (c_error_cb (cl (push_ctx c s) c)) (\<lambda>h. Cb_error h e) (push_ctx c s)")
    case None
    have "live (push_ctx c s) = live s" "pending (push_ctx c s) = pending s"
      by (simp_all add: live_def pending_def)
    then have "\<not> (finite (live s) \<and> work s < k)"
      using run [of "push_ctx c s" "c_error_cb (cl (push_ctx c s) c)" "\<lambda>h. Cb_error h e"] None by (auto simp: safe_def work_def)
    with None show ?thesis by (auto simp: error_impl_def safe_def)
  next
    case (Some s2)
    then have ev: "evolves (push_ctx c s) s2" by (rule safe_evolves [OF run])
    then have popped: "evolves s (pop_ctx c s2)" by (rule evolves_push_pop)
    let ?s3 = "pop_ctx c s2"
    have "safe k ?s3 (\<lambda>x. x)
            (call_app cb c (c_discard_cb (cl ?s3 c)) Cb_discard ?s3 \<bind>
             (\<lambda>s4. let s5 = note_freed c ?s3 s4 in call_app cb c (c_server_discard_cb (cl s5 c)) Cb_server_discard s5))"
      unfolding Let_def by (intro safe_bind [OF safe_note [where c = c]] run)
    from safe_after [OF popped this] popped show ?thesis by (simp add: error_impl_def Some Let_def safe_Some)
  qed
qed

lemma abort_tail_safe:
  assumes cb: "runner_safe k cb"
  shows "safe (Suc k) s snd
      (case tcp_abort E c s of (err, s3) \<Rightarrow>
        (if err \<noteq> ERR_CONN then error_impl cb c ERR_ABRT s3 else Some s3) \<bind> (\<lambda>s4. Some (err, s4)))"
proof (cases "fst (tcp_abort E c s) \<noteq> ERR_CONN")
  case True
  show ?thesis
    by (rule safe_abort_decreases [OF True])
      (use True in \<open>simp add: split_beta, intro safe_bind [where f = "\<lambda>x. x"] error_impl_safe cb safe_Some, simp\<close>)
next
  case False
  then show ?thesis
    using evolves_tcp_abort [of s E c] by (simp add: split_beta safe_Some)
qed

lemma start_async_task_frame [simp]:
  "clients (snd (start_async_task E s)) = clients s" "queue (snd (start_async_task E s)) = queue s"
  "next_token (snd (start_async_task E s)) = next_token s"
  by (simp_all add: start_async_task_def)

lemma evolves_start [inv_intros]: "evolves s (snd (start_async_task E s))"
  by (auto simp: start_async_task_def intro: evolves_log)

lemma evolves_bind_callbacks [inv_intros]: "evolves s (bind_tcp_callbacks p c s)"
  by (auto simp: bind_tcp_callbacks_def intro: evolves_log)

lemma evolves_tcp_connect [inv_intros]: "evolves s (snd (tcp_connect E p a port s))"
  by (auto simp: tcp_connect_eq tcp_connect_sys_def evolves_log split: option.splits)

lemma evolves_connect [inv_intros]: "evolves s (snd (connect E c addr port s))"
proof -
  let ?s1 = "clear_token c s"
  let ?s2 = "snd (start_async_task E ?s1)"
  let ?s3 = "log Tcp_new ?s2"
  have ev1: "evolves s ?s1" by (rule evolves_clear_token)
  have ev3: "evolves s ?s2" "evolves s ?s3"
    by (meson ev1 evolves_trans evolves_start evolves_log)+
  have ev5: "evolves s (snd (tcp_connect E (Some p) addr port (bind_tcp_callbacks p c ?s3)))" for p
    by (meson ev3 evolves_trans evolves_bind_callbacks evolves_tcp_connect)
  then have "evolves s (log (Tcp_abort p) (reset_tcp_callbacks p (Some c)
      (snd (tcp_connect E (Some p) addr port (bind_tcp_callbacks p c ?s3)))))" for p
    by (meson evolves_trans evolves_reset evolves_log)
  with ev1 ev3 ev5 show ?thesis
    by (auto simp: connect_def Let_def split_beta split: option.splits)
qed

lemma evolves_fresh_token: "evolves s (upd c (c_dns_token_update f) (s\<lparr>next_token := n\<rparr>))"
  by (auto simp: evolves_def evolves_client_def)

lemma evolves_connect_host [inv_intros]: "evolves s (snd (connect_host E c host port s))"
proof -
  let ?s1 = "snd (start_async_task E s)"
  let ?s2 = "upd c (\<lambda>k. k\<lparr>c_dns_token := Some (next_token ?s1)\<rparr>) (?s1\<lparr>next_token := Suc (next_token ?s1)\<rparr>)"
  let ?s4 = "log (Dns_query host) (log New_object ?s2)"
  have ev1: "evolves s ?s1" by (rule evolves_start)
  have ev2: "evolves s ?s2" by (rule evolves_trans [OF ev1 evolves_fresh_token])
  have ev3: "evolves s (log New_object ?s2)" by (rule evolves_trans [OF ev2 evolves_log(1)])
  have ev4: "evolves s ?s4" by (rule evolves_trans [OF ev3 evolves_log(1)])
  have ev5: "evolves s (snd (connect E c a port ?s4))" for a by (rule evolves_trans [OF ev4 evolves_connect])
  have ev6: "evolves s (pin c (upd c (\<lambda>k. k\<lparr>c_connect_port := port\<rparr>) ?s4))"
    by (rule evolves_trans [OF evolves_trans [OF ev4 evolves_upd_field(6)] evolves_pin])
  show ?thesis using ev1 ev2 ev3 ev4 ev5 ev6
    by (simp add: connect_host_def Let_def split_beta)
qed

lemma evolves_tx_stamp: "evolves s (upd c (\<lambda>k. k\<lparr>c_tx_last_packet := x\<rparr>) s)"
  by (rule evolves_upd_field(2))

lemma evolves_send [inv_intros]: "evolves s (snd (send E c s))"
proof -
  let ?s1 = "upd c (\<lambda>k. k\<lparr>c_tx_last_packet := millis E (trace s)\<rparr>) s"
  let ?s2 = "snd (tcp_output E c ?s1)"
  have "evolves s ?s2"
    by (rule evolves_trans [OF evolves_tx_stamp evolves_output])
  moreover from this have "evolves s (upd c (\<lambda>k. k\<lparr>c_tx_last_packet := y\<rparr>) ?s2)" for y
    by (rule evolves_trans) (rule evolves_tx_stamp)
  ultimately show ?thesis
    by (simp add: send_def Let_def split_beta del: upd_simps)
qed

lemma evolves_ack [inv_intros]: "evolves s (snd (ack E c n s))"
proof -
  let ?n = "if n > c_rx_ack_len (cl s c) then c_rx_ack_len (cl s c) else n"
  have "evolves s (if ?n \<noteq> 0 then snd (tcp_recved E c ?n s) else s)"
    by (simp add: evolves_recved)
  then show ?thesis
    unfolding ack_def Let_def snd_conv by (rule evolves_trans) (rule evolves_upd_field(3))
qed

lemma evolves_ackPacket [inv_intros]: "evolves s (ackPacket E c pb s)"
  by (auto simp: ackPacket_def intro: evolves_trans [OF evolves_recved evolves_log(1)] split: option.splits)

lemma evolves_ackLater [inv_intros]: "evolves s (ackLater c s)"
  by (auto simp: ackLater_def evolves_client_def comp_def intro!: evolves_upd)

lemma evolves_apply_setter [inv_intros]: "evolves s (upd c (apply_setter x) s)"
  by (rule evolves_upd) (cases x; simp add: evolves_client_def)

context leaf_hooks begin

lemma abort_safe: "runner_safe k cb \<Longrightarrow> safe (Suc k) s snd (abort E H cb c s)"
  unfolding abort_def Let_def
  by (rule safe_after [OF evolves_clear_token [of _ c]], rule safe_bind [where f = "\<lambda>x. x"])
    (simp_all add: closing_safe safe_Some abort_tail_safe)

lemma add_safe:
  assumes cb: "runner_safe k cb"
  shows "safe (Suc k) s snd (add E H cb c d f s)"
proof -
  have plain: "safe (Suc k) s' snd (Some (case tcp_write E c x f s' of (err, s'') \<Rightarrow> (if err \<noteq> ERR_OK then (0::nat) else n, s'')))"
    for s' x n
    using evolves_write [of s' E c x f] by (simp add: split_beta safe_Some)
  have hook: "safe (Suc k) s snd (onWrite H cb c x s \<bind> (\<lambda>(n, s1). Some (if n \<ge> 0 then (nat n, s1) else g (note_freed c s s1))))"
    if "\<And>s'. evolves s' (snd (g s'))" for x and g :: "('h, 'm) sys_scheme \<Rightarrow> nat \<times> ('h, 'm) sys_scheme"
  proof (cases "onWrite H cb c x s")
    case None
    then show ?thesis using writing [OF cb, of s c x] by (auto simp: safe_def)
  next
    case (Some r)
    then have ev: "evolves s (snd r)" using safe_evolves [OF writing [OF cb]] by blast
    then show ?thesis
      using evolves_trans [OF evolves_note [OF ev] that] by (simp add: Some split_beta safe_Some)
  qed
  have tcp: "evolves s' (snd (case tcp_write E c x f s' of (err, s'') \<Rightarrow> (if err \<noteq> ERR_OK then (0::nat) else n, s'')))" for s' x n
    using evolves_write [of s' E c x f] by (simp add: split_beta)
  show ?thesis
    unfolding add_def Let_def
    by (auto simp: safe_Some plain intro!: hook tcp split: option.split)
qed

lemma write_impl_safe:
  assumes cb: "runner_safe k cb"
  shows "safe (Suc k) s snd (write_impl E H cb c d f s)"
proof (cases "add E H cb c d f s")
  case None
  then show ?thesis using add_safe [OF cb, of s E c d f] by (auto simp: safe_def write_impl_def)
next
  case (Some r)
  then have ev: "evolves s (snd r)" using safe_evolves [OF add_safe [OF cb]] by blast
  then have "evolves s (snd (send E c (note_freed c s (snd r))))"
    by (rule evolves_trans [OF evolves_note evolves_send])
  then show ?thesis using ev by (simp add: write_impl_def Some split_beta safe_Some)
qed

text \<open>Dropping the facade closes the transport and, when nothing else holds the implementation, destroys it there and then.\<close>

lemma close_gone:
  assumes "runner_safe k cb" and "close E H cb c s = Some s'"
  shows "c_pcb (cl s' c) = None \<and> events_of c (queue s') = []"
  using assms(2) close_impl_gone [OF assms(1)] by (auto simp: close_def Let_def)

lemma close_facade_safe: "runner_safe k cb \<Longrightarrow> safe (Suc k) s (\<lambda>x. x) (close_facade E H cb c s)"
  unfolding close_facade_def
  by (rule safe_after [rotated], erule close_safe) (auto simp: evolves_client_def intro!: evolves_upd)

lemma destroy_hook:
  obtains s1 where "(if hooked (mark_dead c s) c then map_option (clear_hooks c) (onDelete H c (mark_dead c s)) else Some (mark_dead c s)) = Some s1"
    "leaf_step (mark_dead c s) s1" "c_hooks (cl s1 c) = None"
proof (cases "hooked (mark_dead c s) c")
  case True
  obtain s2 where "onDelete H c (mark_dead c s) = Some s2" "leaf_step (mark_dead c s) s2"
    using deleting [of c "mark_dead c s"] by blast
  moreover have "leaf_step s2 (clear_hooks c s2)" unfolding clear_hooks_def by (rule leaf_step_hooks)
  ultimately show thesis using True leaf_step_trans by (intro that [of "clear_hooks c s2"]) (auto simp: clear_hooks_def)
qed (use that in auto)

lemma destroy_closed:
  assumes "c_pcb (cl s c) = None"
  obtains s1 where "destroy_impl E H cb c s = Some (invalidate c s1)" "leaf_step (mark_dead c s) s1" "c_dead (cl s1 c)"
    "c_pcb (cl s1 c) = None" "c_facade (cl s1 c) = c_facade (cl s c)" "queue s1 = queue s" "c_hooks (cl s1 c) = None"
proof -
  obtain s1 where s1: "(if hooked (mark_dead c s) c then map_option (clear_hooks c) (onDelete H c (mark_dead c s)) else Some (mark_dead c s)) = Some s1"
    "leaf_step (mark_dead c s) s1" "c_hooks (cl s1 c) = None" by (rule destroy_hook)
  obtain h where h: "cl s1 c = (cl (mark_dead c s) c)\<lparr>c_hooks := h\<rparr>" using s1(2) unfolding leaf_step_def by blast
  then have p: "c_pcb (cl s1 c) = None" "c_dead (cl s1 c)" "c_facade (cl s1 c) = c_facade (cl s c)"
    using assms by (simp_all add: mark_dead_def)
  have q: "queue s1 = queue s" using s1(2) by (simp add: leaf_step_def mark_dead_def)
  have "destroy_impl E H cb c s = Some (invalidate c s1)"
    unfolding destroy_impl_def Let_def s1(1) by (simp add: p)
  then show thesis using that s1(2,3) p q by blast
qed

lemma destroy_safe:
  assumes "\<not> c_dead (cl s c)" and "c_pins (cl s c) = 0" and "c_pcb (cl s c) = None"
  shows "safe k s (\<lambda>x. x) (destroy_impl E H cb c s)"
proof -
  obtain s1 where s1: "destroy_impl E H cb c s = Some (invalidate c s1)" "leaf_step (mark_dead c s) s1" "c_dead (cl s1 c)"
    using destroy_closed [OF assms(3)] by metis
  have "evolves s (mark_dead c s)"
    unfolding mark_dead_def by (rule evolves_upd) (simp add: evolves_client_def assms)
  then have ev: "evolves s s1" by (rule evolves_trans) (rule leaf_step_evolves [OF s1(2)])
  have "evolves_client (cl s d) (cl (invalidate c s1) d)" for d
    using evolves_here [OF ev, of d] s1(3) assms(1) by (cases "d = c") (auto simp: evolves_client_def invalidate_def)
  then have "evolves s (invalidate c s1)" using ev by (simp add: evolves_def invalidate_def)
  then show ?thesis by (simp add: s1(1) safe_Some)
qed

lemma release_safe: "c_pcb (cl s c) = None \<Longrightarrow> safe k s (\<lambda>x. x) (release E H cb c s)"
  by (simp add: release_def safe_Some destroy_safe)

lemma drop_facade_safe:
  assumes cb: "runner_safe k cb"
  shows "safe (Suc k) s (\<lambda>x. x) (drop_facade E H cb c s)"
proof (cases "close_facade E H cb c (pin c s)")
  case None
  have l: "live (pin c s) = live s" by (auto simp: live_def)
  then have "work (pin c s) = work s" by (simp add: work_def pending_def)
  with l show ?thesis
    using close_facade_safe [OF cb, of "pin c s" E c] None by (auto simp: safe_def drop_facade_def)
next
  case (Some s1)
  have "evolves (pin c s) s1" by (rule safe_evolves [OF close_facade_safe [OF cb] Some])
  then have ev: "evolves s (unpin c s1)" by (rule evolves_unpin)
  have "c_pcb (cl (unpin c s1) c) = None" using close_gone [OF cb Some [unfolded close_facade_def]] by simp
  from safe_after [OF ev release_safe [OF this]] show ?thesis by (simp add: drop_facade_def Some)
qed

end

section \<open>The handlers evolve\<close>

lemma safe_case:
  assumes "safe k s f m" and "\<And>x. m = Some x \<Longrightarrow> evolves s (f x) \<Longrightarrow> safe k (f x) g (h x)"
  shows "safe k s g (case m of None \<Rightarrow> None | Some x \<Rightarrow> h x)"
proof -
  have "(case m of None \<Rightarrow> None | Some x \<Rightarrow> h x) = (m \<bind> h)" by (cases m) auto
  with safe_bind [OF assms] show ?thesis by simp
qed

lemma evolves_rx_stamp: "evolves s (upd c (\<lambda>k. k\<lparr>c_rx_last_packet := x\<rparr>) s)"
  by (rule evolves_upd_field(1))

lemma evolves_ack_more: "evolves s (upd c (\<lambda>k. k\<lparr>c_rx_ack_len := c_rx_ack_len k + n\<rparr>) s)"
  by (rule evolves_upd_field(3))

lemma evolves_recv_prep: "evolves s (recv_prep E c s)"
  unfolding recv_prep_def by (rule evolves_trans [OF evolves_rx_stamp evolves_set_top]) simp

lemma evolves_recv_done: "evolves s (recv_done E c s)"
  unfolding recv_done_def Let_def
  by (rule evolves_trans [OF _ evolves_set_top]) (simp_all add: evolves_recved evolves_ack_more)

lemma recv_app_safe:
  assumes cb: "runner_safe k cb"
  shows "safe k s (\<lambda>x. x) (recv_app cb c b s)"
proof -
  let ?s = "set_top (\<lambda>x. x\<lparr>ack_len := pb_len b\<rparr>) c s"
  have "evolves s ?s" by (rule evolves_set_top) simp
  moreover have "safe k ?s (\<lambda>x. x) (call_app cb c (c_recv_cb (cl ?s c)) (\<lambda>h. Cb_recv h (pb_data b)) ?s)"
    by (rule safe_call_app [OF cb])
  ultimately show ?thesis
    unfolding recv_app_def Let_def by (auto intro: safe_after safe_Some)
qed

lemma recv_loop_safe:
  assumes cb: "runner_safe k cb"
  shows "safe k s snd (recv_loop E cb c pb s)"
proof (induction pb arbitrary: s)
  case (Cons b pb)
  have pkt: "safe k s (\<lambda>x. x) (cb c e s)" for e s using cb by (simp add: runner_safe_def)
  have step: "safe k s snd (if gone c (log (Pbuf_free [b]) s) then Some (pb, log (Pbuf_free [b]) s)
      else recv_loop E cb c pb (recv_done E c (log (Pbuf_free [b]) s)))" for s
    using safe_after [OF evolves_trans [OF evolves_log(1) evolves_recv_done] Cons.IH]
    by (auto intro!: safe_Some simp: evolves_log)
  have pstep: "safe k s snd (if gone c s then Some (pb, s) else recv_loop E cb c pb s)" for s
    using Cons.IH by (auto intro: safe_Some)
  have "safe k (recv_prep E c s) snd (recv_loop E cb c (b # pb) s)"
  proof (cases "c_pb_cb (cl (recv_prep E c s) c)")
    case None
    then show ?thesis unfolding recv_loop.simps None option.case
      by (intro safe_case [OF recv_app_safe [OF cb]] step)
  next
    case (Some h)
    then show ?thesis unfolding recv_loop.simps Some option.case
      by (intro safe_case [OF pkt] pstep)
  qed
  then show ?case by (rule safe_after [OF evolves_recv_prep])
qed (simp add: safe_Some)

lemma recv_tail_safe:
  assumes cb: "runner_safe k cb"
  shows "safe k s (\<lambda>x. x)
     (recv_loop E cb c pb (push_ctx c s) \<bind>
      (\<lambda>(left, s2). let s3 = (if left \<noteq> [] then log (Pbuf_free left) s2 else s2)
                    in Some (pop_ctx c s3)))"
proof (cases "recv_loop E cb c pb (push_ctx c s)")
  case None
  have "live (push_ctx c s) = live s" "pending (push_ctx c s) = pending s"
    by (simp_all add: live_def pending_def)
  then show ?thesis
    using recv_loop_safe [OF cb, of "push_ctx c s" E c pb] None by (auto simp: safe_def work_def)
next
  case (Some x)
  obtain l s2 where x: "x = (l, s2)" by fastforce
  have "evolves (push_ctx c s) s2"
    using safe_evolves [OF recv_loop_safe [OF cb] Some] x by simp
  then have ev: "evolves (push_ctx c s) (if l \<noteq> [] then log (Pbuf_free l) s2 else s2)"
    by (auto intro: evolves_trans evolves_log)
  show ?thesis
    using evolves_push_pop [OF ev] by (simp add: Some x Let_def safe_Some)
qed

lemma evolves_connected_prep: "evolves (set_pcb c p s) (connected_prep E c p s)"
proof -
  have "evolves s1 (upd c (\<lambda>k. k\<lparr>c_tx_last_packet := 0, c_rx_last_ack := 0\<rparr>) s1)" for s1
    by (rule evolves_upd) (simp add: evolves_client_def)
  then show ?thesis
    unfolding connected_prep_def Let_def by (rule evolves_trans [rotated]) (simp add: evolves_rx_stamp)
qed

section \<open>The contract of the hooks the handlers call\<close>

text \<open>
  The hooks of the handlers may run callbacks and close clients; what they owe is what every operation
  owes. \<open>k\<close> is the fuel of the callbacks they run.
\<close>

locale client_hooks = leaf_hooks H for H :: "('h, 'm) hooks" +
  fixes k :: nat
  assumes connected: "safe k s snd (onConnected H c s)"
    and received: "safe k s snd (onRecv H c pb s)"
    and sent: "safe k s snd (onSent H c n s)"
    and poll: "safe k s snd (onPoll H c s)"
begin

lemma fin_safe: "runner_safe k cb \<Longrightarrow> safe k s (\<lambda>x. x) (fin_impl E H cb c s)"
  unfolding fin_impl_def using safe_mono [OF close_safe, of k cb k] by (auto intro: safe_Some)

lemma recv_safe: "runner_safe k cb \<Longrightarrow> safe k s (\<lambda>x. x) (recv_impl E H cb c pb s)"
  unfolding recv_impl_def
  by (rule safe_bind [where f = snd])
    (auto simp: received safe_Some Let_def intro: recv_tail_safe [unfolded Let_def])

lemma sent_safe:
  assumes cb: "runner_safe k cb"
  shows "safe k s (\<lambda>x. x) (sent_impl E H cb c n s)"
proof -
  have ev: "evolves s1 (upd c (\<lambda>k. k\<lparr>c_rx_last_packet := x, c_rx_last_ack := x\<rparr>) s1)" for s1 x
    by (auto simp: evolves_client_def intro!: evolves_upd)
  have "safe k s (\<lambda>x. x)
     ((if hooked s c then onSent H c n s else Some (False, s)) \<bind>
      (\<lambda>(handled, s1). if handled then Some s1
        else let now = millis E (trace s1); s2 = upd c (\<lambda>k. k\<lparr>c_rx_last_packet := now, c_rx_last_ack := now\<rparr>) s1
             in call_app cb c (c_sent_cb (cl s2 c))
                 (\<lambda>h. Cb_sent h n (c_rx_last_packet (cl s2 c) - c_tx_last_packet (cl s2 c))) s2))"
    by (rule safe_bind [where f = snd])
      (auto simp: sent safe_Some Let_def intro: safe_after [OF ev safe_call_app [OF cb]])
  then show ?thesis by (simp add: sent_impl_def safe_Some Let_def)
qed

lemma poll_safe:
  assumes cb: "runner_safe k cb"
  shows "safe k s (\<lambda>x. x) (poll_impl E H cb c p s)"
proof -
  have close: "safe k s (\<lambda>x. x) (map_option snd (close_impl E H cb c s))"
    by (rule safe_map) (rule safe_mono [OF close_impl_safe [OF cb]], simp)
  have "safe k s (\<lambda>x. x)
     ((if hooked s c then onPoll H c s else Some (False, s)) \<bind>
      (\<lambda>(handled, s1). if handled then Some s1 else call_app cb c (c_poll_cb (cl s1 c)) Cb_poll s1))"
    by (rule safe_bind [where f = snd]) (auto simp: poll safe_Some safe_call_app [OF cb])
  then show ?thesis
    using close by (simp add: poll_impl_def safe_Some Let_def safe_call_app [OF cb])
qed

lemma connected_safe:
  assumes cb: "runner_safe k cb"
  shows "safe k (set_pcb c p s) (\<lambda>x. x) (connected_impl E H cb c p s)"
  unfolding connected_impl_def Let_def
  by (rule safe_after [OF evolves_connected_prep [of c p s E]], rule safe_bind [where f = snd])
    (auto simp: connected safe_Some safe_call_app [OF cb])

lemma dns_found_safe: "runner_safe k cb \<Longrightarrow> safe k s (\<lambda>x. x) (dns_found E cb c a s)"
  unfolding dns_found_def Let_def
  by (auto intro: safe_after [OF evolves_clear_token] error_impl_safe
      intro!: safe_Some evolves_trans [OF evolves_clear_token evolves_connect])


end

section \<open>The hooks of the base class\<close>

text \<open>The virtual functions of \<open>AsyncClientHooks\<close> that a subclass does not override.\<close>

definition default_hooks :: "('h, 'm) hooks" where
  "default_hooks =
     \<lparr>onConnected = (\<lambda>c s. Some (False, s)), onRecv = (\<lambda>c pb s. Some (False, s)), onSent = (\<lambda>c n s. Some (False, s)),
      onPoll = (\<lambda>c s. Some (False, s)), onWrite = (\<lambda>cb c d s. Some (-1, s)), onClosing = (\<lambda>c s. Some s),
      onError = (\<lambda>c e s. Some s), onDelete = (\<lambda>c s. Some s)\<rparr>"

interpretation plain: client_hooks default_hooks k for k
  by unfold_locales (simp_all add: default_hooks_def safe_Some)

section \<open>The timeouts\<close>

lemma sub_of_nat:
  fixes a b :: nat
  assumes "a \<le> b"
  shows "(of_nat b - of_nat a :: u32) = of_nat (b - a)"
  using assms by (simp add: of_nat_diff)

lemma of_nat_less_u32: "a < 2 ^ 32 \<Longrightarrow> b < 2 ^ 32 \<Longrightarrow> (of_nat a < (of_nat b :: u32)) = (a < b)"
  by (simp add: word_less_nat_alt unat_of_nat)

lemma of_nat_le_u32: "a < 2 ^ 32 \<Longrightarrow> b < 2 ^ 32 \<Longrightarrow> (of_nat a \<le> (of_nat b :: u32)) = (a \<le> b)"
  by (simp add: word_le_nat_alt unat_of_nat)

text \<open>
  C35: the acknowledgement timeout survives the wrap of the millisecond clock. Let a packet have been sent at time
  \<open>tx\<close>, the last acknowledgement have come at \<open>ak\<close>, and \<open>now\<close> be the time of the poll, all in unbounded
  milliseconds of which the client keeps the low 32 bits; the packet is less than 2 to the 32 milliseconds (49.7 days) old. With an
  acknowledgement at most a day before the packet the timeout fires exactly when \<open>to\<close> milliseconds have passed since the
  packet. With one that is older by more than a day (and less than 2 to the 32 milliseconds) it never fires, however long the packet
  waits: the comparison takes the old acknowledgement for a new one. A connection starts with the acknowledgement time 0, so when the
  first packet is sent more than a day after the clock was 0, and nothing was ever acknowledged, there is no timeout. With an acknowledgement that came after the
  packet it does not fire for 48.7 days; one that comes later than that (and before 49.7 days) is taken for
  a missing one.
\<close>

theorem ack_timeout_exact:
  assumes "c_tx_last_packet k = of_nat tx" and "c_rx_last_ack k = of_nat ak" and "c_ack_timeout k = of_nat to"
    and "0 < to" and "to < 2 ^ 32" and "tx \<le> now" and "now - tx < 2 ^ 32"
  shows "(ak < tx \<and> tx - ak \<le> 86400000 \<longrightarrow> ack_timed_out (of_nat now) k = (to \<le> now - tx))
    \<and> (ak < tx \<and> 86400000 < tx - ak \<and> tx - ak < 2 ^ 32 \<longrightarrow> \<not> ack_timed_out (of_nat now) k)
    \<and> (c_rx_last_ack k = 0 \<and> 86400000 < tx \<and> tx < 2 ^ 32 \<longrightarrow> \<not> ack_timed_out (of_nat now) k)
    \<and> (tx \<le> ak \<and> ak - tx < 2 ^ 32 - 86400000 \<longrightarrow> \<not> ack_timed_out (of_nat now) k)
    \<and> (tx \<le> ak \<and> 2 ^ 32 - 86400000 \<le> ak - tx \<and> ak - tx < 2 ^ 32 \<longrightarrow> ack_timed_out (of_nat now) k = (to \<le> now - tx))"
proof -
  have now: "(of_nat now - of_nat tx :: u32) = of_nat (now - tx)" by (rule sub_of_nat [OF assms(6)])
  have to: "(of_nat to :: u32) \<noteq> 0" using assms(4,5) by (simp add: word_unat_eq_iff unat_of_nat)
  have day: "(one_day :: u32) = of_nat 86400000" by (simp add: one_day_def)
  have late: "ack_timed_out (of_nat now) k = (to \<le> now - tx)" if "ak < tx" "tx - ak \<le> 86400000"
  proof -
    have "(of_nat ak - of_nat tx + one_day :: u32) = one_day - of_nat (tx - ak)"
      using sub_of_nat [of ak tx] that(1) by (simp add: algebra_simps)
    also have "\<dots> = of_nat (86400000 - (tx - ak))"
      unfolding day by (rule sub_of_nat) (use that in simp)
    finally have eq: "(of_nat ak - of_nat tx + one_day :: u32) = of_nat (86400000 - (tx - ak))" .
    have "(of_nat (86400000 - (tx - ak)) :: u32) < of_nat 86400000"
      using that by (subst of_nat_less_u32) auto
    then have "(of_nat ak - of_nat tx + one_day :: u32) < one_day"
      unfolding eq by (simp only: day)
    then show ?thesis
      using now to assms(5,7) by (simp add: ack_timed_out_def assms(1-3) of_nat_le_u32)
  qed
  have early: "\<not> ack_timed_out (of_nat now) k" if "tx \<le> ak" "ak - tx < 2 ^ 32 - 86400000"
  proof -
    have "(of_nat ak - of_nat tx + one_day :: u32) = of_nat (ak - tx + 86400000)"
      using sub_of_nat [of tx ak] that(1) by (simp add: day)
    moreover have "\<not> (of_nat (ak - tx + 86400000) :: u32) < of_nat 86400000"
      using that(2) by (subst of_nat_less_u32) auto
    ultimately show ?thesis by (simp add: ack_timed_out_def assms(1,2) day)
  qed
  have old: "\<not> ack_timed_out (of_nat now) k" if "c_rx_last_ack k = of_nat a" "a < tx" "86400000 < tx - a" "tx - a < 2 ^ 32" for a
  proof -
    have "(of_nat a - of_nat tx + one_day :: u32) = of_nat 86400000 - of_nat (tx - a)"
      using sub_of_nat [of a tx] that(2) by (simp add: algebra_simps day)
    also have "\<dots> = of_nat (2 ^ 32 + 86400000) - of_nat (tx - a)" by simp
    also have "\<dots> = of_nat (2 ^ 32 + 86400000 - (tx - a))" by (rule sub_of_nat) (use that(4) in simp)
    finally have eq: "(of_nat a - of_nat tx + one_day :: u32) = of_nat (2 ^ 32 + 86400000 - (tx - a))" .
    have "\<not> (of_nat (2 ^ 32 + 86400000 - (tx - a)) :: u32) < of_nat 86400000"
      using that(3,4) by (subst of_nat_less_u32) auto
    then show ?thesis using eq by (simp only: ack_timed_out_def assms(1) that(1) day simp_thms)
  qed
  have wrapped: "ack_timed_out (of_nat now) k = (to \<le> now - tx)"
    if "tx \<le> ak" "2 ^ 32 - 86400000 \<le> ak - tx" "ak - tx < 2 ^ 32"
  proof -
    have "(of_nat ak - of_nat tx + one_day :: u32) = of_nat (ak - tx + 86400000)"
      using sub_of_nat [of tx ak] that(1) by (simp add: day)
    also have "\<dots> = of_nat (2 ^ 32 + (ak - tx + 86400000 - 2 ^ 32))" using that(2) by simp
    also have "\<dots> = of_nat (ak - tx + 86400000 - 2 ^ 32)" unfolding of_nat_add by simp
    finally have eq: "(of_nat ak - of_nat tx + one_day :: u32) = of_nat (ak - tx + 86400000 - 2 ^ 32)" .
    have "(of_nat (ak - tx + 86400000 - 2 ^ 32) :: u32) < of_nat 86400000"
      using that(2,3) by (subst of_nat_less_u32) auto
    then have "(of_nat ak - of_nat tx + one_day :: u32) < one_day" unfolding eq by (simp only: day)
    then show ?thesis
      using now to assms(5,7) by (simp add: ack_timed_out_def assms(1-3) of_nat_le_u32)
  qed
  have fresh: "c_rx_last_ack k = 0 \<and> 86400000 < tx \<and> tx < 2 ^ 32 \<longrightarrow> \<not> ack_timed_out (of_nat now) k"
    using old [of 0] by simp
  show ?thesis using late early old [OF assms(2)] wrapped fresh by blast
qed

text \<open>
  A packet sent 5 milliseconds before the clock wraps, not acknowledged 6 seconds later; and one that a fresh connection sent two days
  after the start, not acknowledged one more day later.
\<close>

theorem ack_timeout_exact_witness:
  "ack_timed_out (of_nat 4294973291) ((init_client 0)\<lparr>c_tx_last_packet := of_nat 4294967291, c_rx_last_ack := of_nat 4294960000\<rparr>)
   \<and> \<not> ack_timed_out (of_nat 259200000) ((init_client 0)\<lparr>c_tx_last_packet := of_nat 172800000\<rparr>)"
proof -
  have fresh: "0 = (0::u32) \<and> 86400000 < (172800000::nat) \<and> 172800000 < (2::nat) ^ 32 \<longrightarrow>
      \<not> ack_timed_out (of_nat 259200000) ((init_client 0)\<lparr>c_tx_last_packet := of_nat 172800000\<rparr>)"
    using ack_timeout_exact [where k = "(init_client 0)\<lparr>c_tx_last_packet := of_nat 172800000\<rparr>" and tx = 172800000 and ak = 0
      and to = 5000 and now = 259200000] by (simp add: init_client_def MAX_ACK_TIME_def)
  have "(4294960000 < (4294967291::nat) \<and> 4294967291 - 4294960000 \<le> (86400000::nat) \<longrightarrow>
     ack_timed_out (of_nat 4294973291) ((init_client 0)\<lparr>c_tx_last_packet := of_nat 4294967291, c_rx_last_ack := of_nat 4294960000\<rparr>)
       = ((5000::nat) \<le> 4294973291 - 4294967291))"
    by (rule ack_timeout_exact [where tx = 4294967291 and ak = 4294960000 and to = 5000, THEN conjunct1])
      (simp_all add: init_client_def MAX_ACK_TIME_def)
  then show ?thesis using fresh by simp
qed

text \<open>
  The receive timeout, in seconds, is exact as long as it fits 32 bits in milliseconds, that is up to
  4294967 seconds: it fires exactly when that long nothing was received. A longer one is multiplied with
  wrap-around: one of 4294968 seconds closes the connection after 704 milliseconds.
\<close>

theorem rx_timeout_exact:
  assumes "c_rx_last_packet k = of_nat rx" and "c_rx_timeout k = of_nat secs" and "rx \<le> now" and "now - rx < 2 ^ 32"
  shows "(0 < secs \<and> secs \<le> 4294967 \<longrightarrow> rx_timed_out (of_nat now) k = (secs * 1000 \<le> now - rx))
    \<and> (secs = 4294968 \<longrightarrow> rx_timed_out (of_nat now) k = (704 \<le> now - rx))"
proof -
  have now: "(of_nat now - of_nat rx :: u32) = of_nat (now - rx)" by (rule sub_of_nat [OF assms(3)])
  have "rx_timed_out (of_nat now) k = (secs * 1000 \<le> now - rx)" if "0 < secs" "secs \<le> 4294967"
  proof -
    have ms: "(of_nat secs * 1000 :: u32) = of_nat (secs * 1000)" by simp
    have nz: "(of_nat secs :: u32) \<noteq> 0" using that by (simp add: word_unat_eq_iff unat_of_nat)
    show ?thesis
      unfolding rx_timed_out_def assms(1,2) now ms
      using nz that assms(4) by (simp add: of_nat_le_u32 del: of_nat_mult)
  qed
  moreover have "rx_timed_out (of_nat now) k = (704 \<le> now - rx)" if "secs = 4294968"
  proof -
    have ms: "(of_nat secs * 1000 :: u32) = of_nat 704" using that by simp
    have nz: "(of_nat secs :: u32) \<noteq> 0" using that by simp
    show ?thesis
      unfolding rx_timed_out_def assms(1,2) now ms
      using nz assms(4) of_nat_le_u32 [of 704 "now - rx"] by simp
  qed
  ultimately show ?thesis by blast
qed

theorem rx_timeout_exact_witness:
  "rx_timed_out (of_nat 4294968000) ((init_client (of_nat 4294967000))\<lparr>c_rx_timeout := of_nat 1\<rparr>)"
  using rx_timeout_exact [where k = "(init_client (of_nat 4294967000))\<lparr>c_rx_timeout := of_nat 1\<rparr>" and rx = 4294967000
      and secs = 1 and now = 4294968000] by (simp add: init_client_def)

end
