(* ===== verification/Bio_Buffer.thy ===== *)
theory Bio_Buffer
  imports Lwip
begin

text \<open>
  The ciphertext buffer between lwIP and mbedTLS (\<open>AsyncSecureSession::feedRxData\<close>, \<open>feedRx\<close>, \<open>read\<close> in
  \<open>src/AsyncSecureSession.cpp\<close>): a heap block with a read position, compacted and grown on demand up to a
  cap, and the chain of packet buffers that did not fit. The contract of a byte queue is the locale
  \<open>byte_fifo\<close>; the buffer is an interpretation of it.
\<close>

section \<open>The buffer\<close>

definition SSL_RX_BUF_SIZE :: nat where
  "SSL_RX_BUF_SIZE = 4096"

definition SSL_RX_BUF_MAX :: nat where
  "SSL_RX_BUF_MAX = 8192"

text \<open>\<open>rx_buf\<close> is the block \<open>_ssl_rx_buf\<close> points to, \<open>None\<close> when the allocation of the constructor failed.\<close>

record bio =
  rx_buf :: "u8 list option"
  rx_capacity :: nat
  rx_len :: nat
  rx_pos :: nat
  pending_pbufs :: "pbuf list"

definition new_bio :: "u8 list option \<Rightarrow> bio" where
  "new_bio mem =
     \<lparr>rx_buf = mem, rx_capacity = (if mem = None then 0 else SSL_RX_BUF_SIZE), rx_len = 0, rx_pos = 0, pending_pbufs = []\<rparr>"

text \<open>\<open>realloc\<close> keeps the bytes, the new ones are whatever the heap held (here 0).\<close>

definition realloc_to :: "nat \<Rightarrow> u8 list \<Rightarrow> u8 list" where
  "realloc_to n mem = take n mem @ replicate (n - length mem) 0"

definition compact :: "bio \<Rightarrow> u8 list \<Rightarrow> bio" where
  "compact b mem =
     (let remaining = rx_len b - rx_pos b;
          mem' = (if remaining > 0 then blit 0 (take remaining (drop (rx_pos b) mem)) mem else mem)
      in b\<lparr>rx_buf := Some mem', rx_len := remaining, rx_pos := 0\<rparr>)"

text \<open>\<open>ok\<close> says whether \<open>realloc\<close> succeeds.\<close>

definition feedRxData :: "bool \<Rightarrow> u8 list \<Rightarrow> bio \<Rightarrow> bool \<times> bio" where
  "feedRxData ok data b =
     (case rx_buf b of
        None \<Rightarrow> (True, b)
      | Some mem \<Rightarrow>
          if length data = 0 then (True, b)
          else
            let free0 = rx_capacity b - rx_len b;
                b1 = (if length data > free0 \<and> rx_pos b > 0 then compact b mem else b);
                free_at_tail = rx_capacity b1 - rx_len b1
            in if rx_len b1 + length data > SSL_RX_BUF_MAX then (False, b1)
               else if length data > free_at_tail \<and> \<not> ok then (False, b1)
               else
                 let need = rx_len b1 + length data;
                     b2 = (if length data > free_at_tail
                           then b1\<lparr>rx_buf := Some (realloc_to need (the (rx_buf b1))), rx_capacity := need\<rparr> else b1)
                 in (True, b2\<lparr>rx_buf := Some (blit (rx_len b2) data (the (rx_buf b2))), rx_len := rx_len b2 + length data\<rparr>))"

text \<open>\<open>read\<close>: the bytes copied out.\<close>

definition read_bio :: "nat \<Rightarrow> bio \<Rightarrow> u8 list \<times> bio" where
  "read_bio n b =
     (case rx_buf b of
        None \<Rightarrow> ([], b)
      | Some mem \<Rightarrow>
          if rx_pos b \<ge> rx_len b then ([], b)
          else
            let avail = rx_len b - rx_pos b;
                cp = (if avail < n then avail else n);
                b1 = b\<lparr>rx_pos := rx_pos b + cp\<rparr>
            in (take cp (drop (rx_pos b) mem),
                if rx_pos b1 \<ge> rx_len b1 then b1\<lparr>rx_len := 0, rx_pos := 0\<rparr> else b1))"

definition hasRxData :: "bio \<Rightarrow> bool" where
  "hasRxData b \<longleftrightarrow> rx_buf b \<noteq> None \<and> rx_pos b < rx_len b"

text \<open>
  \<open>feedRx\<close>: the held chain, with the new one behind it, goes into the buffer one packet buffer after the other;
  the one that does not fit and everything behind it stays held. The result is the number of bytes taken and
  the calls made; \<open>ok\<close> answers each \<open>realloc\<close>.
\<close>

fun drain :: "(bio \<Rightarrow> bool) \<Rightarrow> pbuf list \<Rightarrow> bio \<Rightarrow> nat \<times> call list \<times> bio" where
  "drain ok [] b = (0, [], b\<lparr>pending_pbufs := []\<rparr>)"
| "drain ok (p # ps) b =
     (case feedRxData (ok b) (pb_data p) b of
        (False, b') \<Rightarrow> (0, [], b'\<lparr>pending_pbufs := p # ps\<rparr>)
      | (True, b') \<Rightarrow>
          (case drain ok ps b' of (n, calls, b'') \<Rightarrow> (length (pb_data p) + n, Pbuf_free [p] # calls, b'')))"

definition feedRx :: "(bio \<Rightarrow> bool) \<Rightarrow> pbuf list \<Rightarrow> bio \<Rightarrow> nat \<times> call list \<times> bio" where
  "feedRx ok pb b =
     (let chained = (if pb \<noteq> [] \<and> pending_pbufs b \<noteq> [] then [Pbuf_chain (pending_pbufs b) pb] else [])
      in case drain ok (pending_pbufs b @ pb) b of (n, calls, b') \<Rightarrow> (n, chained @ calls, b'))"

section \<open>A byte queue\<close>

text \<open>
  The contract: \<open>put\<close> appends all of its bytes or none, \<open>get\<close> removes at most \<open>n\<close> bytes from the front and
  removes something when there is something. From it, over any sequence of operations, what comes out followed by what is left is
  what was accepted, in order.
\<close>

datatype fifo_op = Put bool "u8 list" | Get nat

locale byte_fifo =
  fixes inv :: "'b \<Rightarrow> bool"
    and contents :: "'b \<Rightarrow> u8 list"
    and put :: "bool \<Rightarrow> u8 list \<Rightarrow> 'b \<Rightarrow> bool \<times> 'b"
    and get :: "nat \<Rightarrow> 'b \<Rightarrow> u8 list \<times> 'b"
  assumes put_law: "inv b \<Longrightarrow> put ok d b = (r, b') \<Longrightarrow> inv b' \<and> contents b' = contents b @ (if r then d else [])"
    and get_law: "inv b \<Longrightarrow> get n b = (d, b') \<Longrightarrow> inv b' \<and> d = take n (contents b) \<and> contents b' = drop n (contents b)"
begin

fun run :: "fifo_op list \<Rightarrow> 'b \<Rightarrow> u8 list \<times> u8 list \<times> 'b" where
  "run [] b = ([], [], b)"
| "run (Put ok d # ops) b =
     (case put ok d b of (r, b') \<Rightarrow> case run ops b' of (i, out, b'') \<Rightarrow> ((if r then d else []) @ i, out, b''))"
| "run (Get n # ops) b =
     (case get n b of (d, b') \<Rightarrow> case run ops b' of (i, out, b'') \<Rightarrow> (i, d @ out, b''))"

lemma run_in_order: "inv b \<Longrightarrow> run ops b = (i, out, b') \<Longrightarrow> inv b' \<and> contents b @ i = out @ contents b'"
proof (induction ops arbitrary: b i out b')
  case (Cons op ops)
  show ?case
  proof (cases op)
    case (Put ok d)
    obtain r b1 where p: "put ok d b = (r, b1)" by fastforce
    obtain i1 out1 b2 where r: "run ops b1 = (i1, out1, b2)" by (metis prod_cases3)
    from put_law [OF Cons.prems(1) p] Cons.IH [OF _ r] Cons.prems(2) p r Put show ?thesis by auto
  next
    case (Get n)
    obtain d b1 where p: "get n b = (d, b1)" by fastforce
    obtain i1 out1 b2 where r: "run ops b1 = (i1, out1, b2)" by (metis prod_cases3)
    have "inv b1" "d = take n (contents b)" "contents b1 = drop n (contents b)"
      using get_law [OF Cons.prems(1) p] by auto
    with Cons.IH [OF _ r] have "inv b2" "drop n (contents b) @ i1 = out1 @ contents b2" by auto
    then show ?thesis using Cons.prems(2) p r Get \<open>d = _\<close> by auto (metis append.assoc append_take_drop_id)
  qed
qed auto

end

section \<open>The buffer is a byte queue\<close>

definition bio_inv :: "bio \<Rightarrow> bool" where
  "bio_inv b \<longleftrightarrow>
     (case rx_buf b of None \<Rightarrow> False
      | Some mem \<Rightarrow> length mem = rx_capacity b \<and> rx_pos b \<le> rx_len b \<and> rx_len b \<le> rx_capacity b
                  \<and> rx_capacity b \<le> SSL_RX_BUF_MAX)"

definition bio_bytes :: "bio \<Rightarrow> u8 list" where
  "bio_bytes b = (case rx_buf b of None \<Rightarrow> [] | Some mem \<Rightarrow> drop (rx_pos b) (take (rx_len b) mem))"

lemma length_blit: "at + length src \<le> length mem \<Longrightarrow> length (blit at src mem) = length mem"
  by (simp add: blit_def)

lemma take_blit: "at + length src \<le> length mem \<Longrightarrow> take (at + length src) (blit at src mem) = take at mem @ src"
  by (simp add: blit_def)

lemma length_bio_bytes: "bio_inv b \<Longrightarrow> length (bio_bytes b) = rx_len b - rx_pos b"
  by (auto simp: bio_inv_def bio_bytes_def split: option.splits)

lemma compact_ok:
  assumes "bio_inv b" and "rx_buf b = Some mem"
  shows "bio_inv (compact b mem)" "bio_bytes (compact b mem) = bio_bytes b" "rx_pos (compact b mem) = 0"
    "rx_capacity (compact b mem) = rx_capacity b" "rx_len (compact b mem) = rx_len b - rx_pos b"
  using assms
  by (auto simp: compact_def bio_inv_def bio_bytes_def Let_def blit_def drop_take)

lemma bio_new: "length mem = SSL_RX_BUF_SIZE \<Longrightarrow> bio_inv (new_bio (Some mem)) \<and> bio_bytes (new_bio (Some mem)) = []"
  by (simp add: new_bio_def bio_inv_def bio_bytes_def SSL_RX_BUF_SIZE_def SSL_RX_BUF_MAX_def)

lemma append_ok:
  assumes inv: "bio_inv b" and buf: "rx_buf b = Some mem" and cap: "rx_len b + length d \<le> rx_capacity b"
  shows "bio_inv (b\<lparr>rx_buf := Some (blit (rx_len b) d mem), rx_len := rx_len b + length d\<rparr>)"
    "bio_bytes (b\<lparr>rx_buf := Some (blit (rx_len b) d mem), rx_len := rx_len b + length d\<rparr>) = bio_bytes b @ d"
proof -
  have "length mem = rx_capacity b" "rx_pos b \<le> rx_len b" using inv buf by (auto simp: bio_inv_def)
  with inv buf cap show "bio_inv (b\<lparr>rx_buf := Some (blit (rx_len b) d mem), rx_len := rx_len b + length d\<rparr>)"
    "bio_bytes (b\<lparr>rx_buf := Some (blit (rx_len b) d mem), rx_len := rx_len b + length d\<rparr>) = bio_bytes b @ d"
    by (simp_all add: bio_inv_def bio_bytes_def length_blit take_blit)
qed

lemma grow_ok:
  assumes inv: "bio_inv b" and buf: "rx_buf b = Some mem" and n: "rx_capacity b \<le> n" "n \<le> SSL_RX_BUF_MAX"
  shows "bio_inv (b\<lparr>rx_buf := Some (realloc_to n mem), rx_capacity := n\<rparr>)"
    "bio_bytes (b\<lparr>rx_buf := Some (realloc_to n mem), rx_capacity := n\<rparr>) = bio_bytes b"
  using assms by (auto simp: bio_inv_def bio_bytes_def realloc_to_def)

text \<open>The state after the optional compaction: everything unread is kept, and it was made only for want of room.\<close>

lemma feed_prepare:
  assumes inv: "bio_inv b" and buf: "rx_buf b = Some mem"
    and b1: "b1 = (if length d > rx_capacity b - rx_len b \<and> rx_pos b > 0 then compact b mem else b)"
  shows "bio_inv b1" "bio_bytes b1 = bio_bytes b" "rx_capacity b1 = rx_capacity b" "rx_buf b1 \<noteq> None"
    "rx_len b1 + length d \<le> SSL_RX_BUF_MAX \<longleftrightarrow> length (bio_bytes b) + length d \<le> SSL_RX_BUF_MAX"
    "length d \<le> rx_capacity b1 - rx_len b1 \<longleftrightarrow>
       length (bio_bytes b) + length d \<le> rx_capacity b \<or> rx_len b + length d \<le> rx_capacity b"
  using assms compact_ok [OF inv buf] length_bio_bytes [OF inv]
  by (auto simp: bio_inv_def compact_def Let_def)

lemma feed_law:
  assumes inv: "bio_inv b" and run: "feedRxData ok d b = (r, b')"
  shows "bio_inv b'" "bio_bytes b' = bio_bytes b @ (if r then d else [])"
    "r \<longleftrightarrow> d = [] \<or> length (bio_bytes b) + length d \<le> SSL_RX_BUF_MAX
              \<and> (ok \<or> length (bio_bytes b) + length d \<le> rx_capacity b)"
proof -
  obtain mem where buf: "rx_buf b = Some mem" using inv by (auto simp: bio_inv_def split: option.splits)
  define b1 where "b1 = (if length d > rx_capacity b - rx_len b \<and> rx_pos b > 0 then compact b mem else b)"
  note p = feed_prepare [OF inv buf b1_def]
  obtain mem1 where buf1: "rx_buf b1 = Some mem1" using p(4) by blast
  have len: "length (bio_bytes b) \<le> rx_len b" by (simp add: length_bio_bytes [OF inv])
  have lens: "rx_len b1 \<le> rx_capacity b1" using p(1) buf1 by (simp add: bio_inv_def)
  have goal: "bio_inv b' \<and> bio_bytes b' = bio_bytes b @ (if r then d else [])
     \<and> (r \<longleftrightarrow> d = [] \<or> length (bio_bytes b) + length d \<le> SSL_RX_BUF_MAX
              \<and> (ok \<or> length (bio_bytes b) + length d \<le> rx_capacity b))"
  proof (cases "d = []")
    case True
    with run buf inv show ?thesis by (auto simp: feedRxData_def)
  next
    case ne: False
    consider (cap) "rx_len b1 + length d > SSL_RX_BUF_MAX"
      | (oom) "rx_len b1 + length d \<le> SSL_RX_BUF_MAX" "length d > rx_capacity b1 - rx_len b1" "\<not> ok"
      | (grow) "rx_len b1 + length d \<le> SSL_RX_BUF_MAX" "length d > rx_capacity b1 - rx_len b1" "ok"
      | (fits) "rx_len b1 + length d \<le> SSL_RX_BUF_MAX" "length d \<le> rx_capacity b1 - rx_len b1"
      by linarith
    then show ?thesis
    proof cases
      case cap
      with run buf ne p show ?thesis by (simp add: feedRxData_def Let_def b1_def [symmetric])
    next
      case oom
      with run buf ne p len show ?thesis by (simp add: feedRxData_def Let_def b1_def [symmetric])
    next
      case grow
      let ?n = "rx_len b1 + length d"
      let ?b2 = "b1\<lparr>rx_buf := Some (realloc_to ?n mem1), rx_capacity := ?n\<rparr>"
      have n: "rx_capacity b1 \<le> ?n" using grow by simp
      note g = grow_ok [OF p(1) buf1 n grow(1)]
      note a = append_ok [OF g(1), of "realloc_to ?n mem1" d]
      have "(r, b') = (True, ?b2\<lparr>rx_buf := Some (blit (rx_len ?b2) d (realloc_to ?n mem1)), rx_len := rx_len ?b2 + length d\<rparr>)"
        using run buf buf1 ne grow by (simp add: feedRxData_def Let_def b1_def [symmetric])
      then show ?thesis using a g p grow by simp
    next
      case fits
      note a = append_ok [OF p(1) buf1, of d]
      have "(r, b') = (True, b1\<lparr>rx_buf := Some (blit (rx_len b1) d mem1), rx_len := rx_len b1 + length d\<rparr>)"
        using run buf buf1 ne fits by (simp add: feedRxData_def Let_def b1_def [symmetric])
      then show ?thesis using a p fits len lens by auto
    qed
  qed
  then show "bio_inv b'" "bio_bytes b' = bio_bytes b @ (if r then d else [])"
    "r \<longleftrightarrow> d = [] \<or> length (bio_bytes b) + length d \<le> SSL_RX_BUF_MAX
              \<and> (ok \<or> length (bio_bytes b) + length d \<le> rx_capacity b)" by auto
qed

lemma read_law:
  assumes inv: "bio_inv b" and run: "read_bio n b = (d, b')"
  shows "bio_inv b' \<and> d = take n (bio_bytes b) \<and> bio_bytes b' = drop n (bio_bytes b)"
proof -
  obtain mem where buf: "rx_buf b = Some mem" "length mem = rx_capacity b" "rx_pos b \<le> rx_len b" "rx_len b \<le> rx_capacity b"
      "rx_capacity b \<le> SSL_RX_BUF_MAX"
    using inv by (auto simp: bio_inv_def split: option.splits)
  have eq: "take (min n (rx_len b - rx_pos b)) (drop (rx_pos b) mem) = take n (drop (rx_pos b) (take (rx_len b) mem))"
    using buf by (simp add: drop_take min.commute)
  show ?thesis
  proof (cases "rx_pos b < rx_len b")
    case False
    with run buf inv show ?thesis by (auto simp: read_bio_def bio_bytes_def)
  next
    case True
    then show ?thesis
      using run buf eq
      by (cases "rx_len b - rx_pos b < n")
        (auto simp: read_bio_def Let_def bio_inv_def bio_bytes_def min_def add.commute split: if_splits)
  qed
qed

interpretation bio: byte_fifo bio_inv bio_bytes feedRxData read_bio
proof unfold_locales
  fix ok d b r b'
  assume "bio_inv b" "feedRxData ok d b = (r, b')"
  then show "bio_inv b' \<and> bio_bytes b' = bio_bytes b @ (if r then d else [])" using feed_law(1,2) by blast
next
  fix n b d b'
  assume "bio_inv b" "read_bio n b = (d, b')"
  then show "bio_inv b' \<and> d = take n (bio_bytes b) \<and> bio_bytes b' = drop n (bio_bytes b)" by (rule read_law)
qed

lemma held_irrelevant [simp]:
  "bio_inv (b\<lparr>pending_pbufs := x\<rparr>) = bio_inv b" "bio_bytes (b\<lparr>pending_pbufs := x\<rparr>) = bio_bytes b"
  by (simp_all add: bio_inv_def bio_bytes_def cong: option.case_cong)

lemma drain_law:
  "bio_inv b \<Longrightarrow> drain ok ps b = (n, calls, b') \<Longrightarrow>
   bio_inv b' \<and> (\<exists>taken. ps = taken @ pending_pbufs b' \<and> calls = map (\<lambda>p. Pbuf_free [p]) taken
     \<and> bio_bytes b' = bio_bytes b @ concat (map pb_data taken) \<and> n = length (concat (map pb_data taken)))"
proof (induction ps arbitrary: b n calls b')
  case Nil
  then have "b' = b\<lparr>pending_pbufs := []\<rparr>" "n = 0" "calls = []" by auto
  then show ?case using Nil by simp
next
  case (Cons p ps)
  obtain r b1 where f: "feedRxData (ok b) (pb_data p) b = (r, b1)" by fastforce
  note fl = feed_law [OF Cons.prems(1) f]
  show ?case
  proof (cases r)
    case False
    with Cons.prems f have "b' = b1\<lparr>pending_pbufs := p # ps\<rparr>" "n = 0" "calls = []" by auto
    then show ?thesis using fl False by simp
  next
    case True
    obtain n1 calls1 b2 where d: "drain ok ps b1 = (n1, calls1, b2)" by (metis prod_cases3)
    from Cons.IH [OF fl(1) d] obtain taken where t: "bio_inv b2" "ps = taken @ pending_pbufs b2"
      "calls1 = map (\<lambda>p. Pbuf_free [p]) taken" "bio_bytes b2 = bio_bytes b1 @ concat (map pb_data taken)"
      "n1 = length (concat (map pb_data taken))" by blast
    with Cons.prems(2) f d True fl show ?thesis by (intro conjI exI [of _ "p # taken"]) auto
  qed
qed

text \<open>The ciphertext a session holds: in the buffer, then in the chain.\<close>

definition held_bytes :: "bio \<Rightarrow> u8 list" where
  "held_bytes b = bio_bytes b @ concat (map pb_data (pending_pbufs b))"

text \<open>
  The references the library owes on a packet buffer by a list of calls: \<open>pbuf_chain\<close> takes one more on the head of
  the chain it appends (documented behaviour of lwIP), \<open>pbuf_free\<close> gives one back.
\<close>

fun ref_change :: "pbuf \<Rightarrow> call \<Rightarrow> int" where
  "ref_change p (Pbuf_chain h t) = (if t \<noteq> [] \<and> hd t = p then 1 else 0)"
| "ref_change p (Pbuf_free l) = (if p \<in> set l then -1 else 0)"
| "ref_change p _ = 0"

definition refs_after :: "pbuf \<Rightarrow> int \<Rightarrow> call list \<Rightarrow> int" where
  "refs_after p n calls = n + (\<Sum>x \<leftarrow> calls. ref_change p x)"

lemma ref_change_frees: "(\<Sum>x \<leftarrow> map (\<lambda>p. Pbuf_free [p]) ps. ref_change q x) = - int (count_list ps q)"
  by (induction ps) auto

lemma feedRx_law:
  assumes inv: "bio_inv b" and run: "feedRx ok pb b = (n, calls, b')"
  obtains taken where "bio_inv b'" "pending_pbufs b @ pb = taken @ pending_pbufs b'"
    "calls = (if pb \<noteq> [] \<and> pending_pbufs b \<noteq> [] then [Pbuf_chain (pending_pbufs b) pb] else []) @ map (\<lambda>p. Pbuf_free [p]) taken"
    "bio_bytes b' = bio_bytes b @ concat (map pb_data taken)" "n = length (concat (map pb_data taken))"
proof -
  obtain n1 c1 b1 where d: "drain ok (pending_pbufs b @ pb) b = (n1, c1, b1)" by (metis prod_cases3)
  from drain_law [OF inv d] run d that show thesis by (auto simp: feedRx_def Let_def)
qed

section \<open>Properties\<close>

text \<open>
  The buffer takes a chunk exactly when, with what is unread, it stays within the cap of 8192 bytes and
  either fits the block or the block could be grown; it then appends the chunk whole, and otherwise it keeps
  what it had. Compaction is therefore never the reason for a refusal, and nothing unread is ever lost or moved.
\<close>

theorem feedRxData_accepts:
  assumes "bio_inv b"
  shows "case feedRxData ok d b of (r, b') \<Rightarrow>
     bio_inv b' \<and> bio_bytes b' = bio_bytes b @ (if r then d else [])
     \<and> r = (d = [] \<or> length (bio_bytes b) + length d \<le> SSL_RX_BUF_MAX
             \<and> (ok \<or> length (bio_bytes b) + length d \<le> rx_capacity b))"
  using feed_law [OF assms] by (auto split: prod.splits)

theorem feedRxData_accepts_witness:
  "fst (feedRxData False [22, 3, 1] (new_bio (Some (replicate 4096 0))))
   \<and> bio_bytes (snd (feedRxData False [22, 3, 1] (new_bio (Some (replicate 4096 0))))) = [22, 3, 1]"
proof -
  have i: "bio_inv (new_bio (Some (replicate 4096 0)))" "bio_bytes (new_bio (Some (replicate 4096 0))) = []"
    using bio_new [of "replicate 4096 0"] by (simp_all add: SSL_RX_BUF_SIZE_def)
  from feedRxData_accepts [OF i(1), where ok = False and d = "[22, 3, 1]"] i(2) show ?thesis
    by (simp add: split_beta SSL_RX_BUF_MAX_def new_bio_def SSL_RX_BUF_SIZE_def)
qed

text \<open>
  C3: whatever sequence of deliveries from lwIP and reads by mbedTLS, the bytes read followed by the bytes
  unread are the bytes unread at the start followed by the chunks accepted: ciphertext is neither lost,
  duplicated nor reordered.
\<close>

theorem bio_stream_in_order:
  assumes "bio_inv b" and "bio.run ops b = (accepted, out, b')"
  shows "bio_bytes b @ accepted = out @ bio_bytes b'"
  using bio.run_in_order [OF assms] by simp

theorem bio_stream_in_order_witness:
  "bio_bytes (new_bio (Some (replicate 4096 0))) @ [1, 2, 3] =
   [1, 2] @ bio_bytes (snd (snd (bio.run [Put True [1, 2, 3], Get 2] (new_bio (Some (replicate 4096 0))))))"
proof (rule bio_stream_in_order [where ops = "[Put True [1, 2, 3], Get 2]"])
  show "bio_inv (new_bio (Some (replicate 4096 0)))"
    using bio_new [of "replicate 4096 0"] by (simp add: SSL_RX_BUF_SIZE_def)
  show "bio.run [Put True [1, 2, 3], Get 2] (new_bio (Some (replicate 4096 0))) =
     ([1, 2, 3], [1, 2], snd (snd (bio.run [Put True [1, 2, 3], Get 2] (new_bio (Some (replicate 4096 0))))))"
    by (simp add: new_bio_def feedRxData_def read_bio_def blit_def Let_def SSL_RX_BUF_SIZE_def SSL_RX_BUF_MAX_def
        split: prod.split)
qed

text \<open>
  \<open>feedRx\<close> keeps the wire order across the chain it holds back: buffered bytes, then held chain, then the new
  chain. The bytes it reports, which the caller acknowledges to lwIP, are exactly the ones that moved into the
  buffer, and exactly the packet buffers they were in are freed, each once.
\<close>

theorem feedRx_wire_order:
  assumes "bio_inv b" and "feedRx ok pb b = (n, calls, b')"
  shows "held_bytes b' = held_bytes b @ concat (map pb_data pb)
     \<and> bio_inv b' \<and> length (bio_bytes b') = length (bio_bytes b) + n
     \<and> (\<exists>taken. pending_pbufs b @ pb = taken @ pending_pbufs b'
          \<and> [x \<leftarrow> calls. \<exists>l. x = Pbuf_free l] = map (\<lambda>p. Pbuf_free [p]) taken)"
proof -
  obtain taken where t: "bio_inv b'" "pending_pbufs b @ pb = taken @ pending_pbufs b'"
    "calls = (if pb \<noteq> [] \<and> pending_pbufs b \<noteq> [] then [Pbuf_chain (pending_pbufs b) pb] else []) @ map (\<lambda>p. Pbuf_free [p]) taken"
    "bio_bytes b' = bio_bytes b @ concat (map pb_data taken)" "n = length (concat (map pb_data taken))"
    by (rule feedRx_law [OF assms])
  have "concat (map pb_data (pending_pbufs b)) @ concat (map pb_data pb) = concat (map pb_data (taken @ pending_pbufs b'))"
    by (metis concat_append map_append t(2))
  moreover have "[x \<leftarrow> calls. \<exists>l. x = Pbuf_free l] = map (\<lambda>p. Pbuf_free [p]) taken"
    unfolding t(3) by (simp add: filter_map comp_def)
  ultimately show ?thesis using t by (auto simp: held_bytes_def)
qed

theorem feedRx_wire_order_witness:
  "held_bytes (snd (snd (feedRx (\<lambda>_. True) [\<lparr>pb_id = 7, pb_data = [1, 2]\<rparr>] (new_bio (Some (replicate 4096 0)))))) = [1, 2]"
proof -
  have i: "bio_inv (new_bio (Some (replicate 4096 0)))"
    using bio_new [of "replicate 4096 0"] by (simp add: SSL_RX_BUF_SIZE_def)
  have h: "held_bytes (new_bio (Some (replicate 4096 0))) = []"
    by (simp add: held_bytes_def new_bio_def bio_bytes_def)
  obtain n calls b' where r: "feedRx (\<lambda>_. True) [\<lparr>pb_id = 7, pb_data = [1, 2]\<rparr>] (new_bio (Some (replicate 4096 0))) = (n, calls, b')"
    by (metis prod_cases3)
  show ?thesis using feedRx_wire_order [OF i r] r h by simp
qed

text \<open>
  A chain delivered while another is still held is not released by \<open>feedRx\<close>. \<open>pbuf_chain\<close> takes a
  second reference on its first buffer, and \<open>feedRx\<close> gives back one; so after everything has been consumed, one reference
  on that buffer is left that no one holds, and it never returns to lwIP's pool.
\<close>

theorem feedRx_leaks_chained_buffer:
  assumes "bio_inv b" and "pending_pbufs b \<noteq> []" and "pb \<noteq> []" and "distinct (pending_pbufs b @ pb)"
    and "feedRx ok pb b = (n, calls, b')" and "pending_pbufs b' = []"
  shows "refs_after (hd pb) 1 calls = 1"
proof -
  obtain taken where t: "pending_pbufs b @ pb = taken @ pending_pbufs b'"
    "calls = (if pb \<noteq> [] \<and> pending_pbufs b \<noteq> [] then [Pbuf_chain (pending_pbufs b) pb] else []) @ map (\<lambda>p. Pbuf_free [p]) taken"
    using feedRx_law [OF assms(1,5)] by metis
  have "count_list (pending_pbufs b @ pb) (hd pb) = 1"
    using hd_in_set [OF assms(3)] assms(4)
    by (auto simp: count_list_eq_length_filter distinct_length_filter Int_Un_distrib2 disjoint_iff)
  then show ?thesis
    using assms(2,3,6) t by (simp add: refs_after_def ref_change_frees del: map_map)
qed

theorem feedRx_leaks_chained_buffer_witness:
  "refs_after \<lparr>pb_id = 8, pb_data = [3]\<rparr> 1
     (fst (snd (feedRx (\<lambda>_. True) [\<lparr>pb_id = 8, pb_data = [3]\<rparr>]
        ((new_bio (Some (replicate 4096 0)))\<lparr>pending_pbufs := [\<lparr>pb_id = 7, pb_data = [1, 2]\<rparr>]\<rparr>)))) = 1"
proof -
  let ?b = "(new_bio (Some (replicate 4096 0)))\<lparr>pending_pbufs := [\<lparr>pb_id = 7, pb_data = [1, 2]\<rparr>]\<rparr>"
  let ?pb = "[\<lparr>pb_id = 8, pb_data = [3]\<rparr>]"
  have i: "bio_inv ?b" using bio_new [of "replicate 4096 0"] by (simp add: SSL_RX_BUF_SIZE_def)
  obtain n calls b' where r: "feedRx (\<lambda>_. True) ?pb ?b = (n, calls, b')" by (metis prod_cases3)
  have "pending_pbufs b' = []"
    using r by (auto simp: feedRx_def new_bio_def feedRxData_def Let_def blit_def SSL_RX_BUF_SIZE_def
        SSL_RX_BUF_MAX_def split: prod.splits)
  then show ?thesis using feedRx_leaks_chained_buffer [OF i _ _ _ r] r by simp
qed

text \<open>
  Without its buffer (the allocation in the constructor failed, which nothing checks) a session reports
  every byte delivered as taken and frees the chain, but keeps nothing: the caller acknowledges data that is gone.
\<close>

theorem feedRx_without_buffer_drops:
  "case feedRx ok pb (new_bio None) of (n, calls, b') \<Rightarrow>
     n = length (concat (map pb_data pb)) \<and> calls = map (\<lambda>p. Pbuf_free [p]) pb \<and> bio_bytes b' = [] \<and> pending_pbufs b' = []
     \<and> \<not> hasRxData b'"
proof -
  have "drain ok ps b = (length (concat (map pb_data ps)), map (\<lambda>p. Pbuf_free [p]) ps, b\<lparr>pending_pbufs := []\<rparr>)"
    if "rx_buf b = None" for b ps
    using that by (induction ps) (auto simp: feedRxData_def)
  from this [of "new_bio None"] show ?thesis
    by (simp add: feedRx_def Let_def new_bio_def bio_bytes_def hasRxData_def)
qed

end
