(* ===== verification/Tls_Session.thy ===== *)
theory Tls_Session
  imports Client Bio_Buffer
begin

unbundle bit_operations_syntax

text \<open>
  The mbedTLS session of the ESP32 build (\<open>AsyncSecureSession\<close> in \<open>src/AsyncSecureSession.cpp\<close>): its set-up, the
  handshake, reading and writing, over the ciphertext buffer of theory \<open>Bio_Buffer\<close>. mbedTLS is not part
  of the repository: the record \<open>mbed\<close> says what its functions return, as functions of the trace. The ones that use the
  two BIO callbacks are programs (\<open>bio_io\<close>) that call them and go on with the answers; the answers are entries of
  the trace. A session is the state of the hooks of its client.
\<close>

section \<open>State\<close>

text \<open>\<open>setClientCredentials\<close>; buffers carry their lengths.\<close>

record creds =
  cr_host :: "string option"
  cr_root_ca :: "u8 list option"
  cr_cli_cert :: "u8 list option"
  cr_cli_key :: "u8 list option"
  cr_key_pwd :: "string option"

record session =
  ss_pcb :: "pcb option"
  ss_handshake_done :: bool
  ss_start_time :: u32
  ss_timeout :: u32
  ss_bio :: bio
  ss_creds :: creds
  ss_have_ca :: bool
  ss_have_cert :: bool
  ss_have_key :: bool

type_synonym tsys = "session sys"

text \<open>
  What mbedTLS does with its BIO callbacks in one call of it: send ciphertext, or ask for at most so many bytes, and
  go on with the result (a count or an error code, and the bytes).
\<close>

datatype 'a bio_io =
    Bio_done 'a
  | Bio_send "u8 list" "int \<Rightarrow> 'a bio_io"
  | Bio_recv nat "int \<Rightarrow> u8 list \<Rightarrow> 'a bio_io"

record mbed =
  m_config :: "call list \<Rightarrow> int"
  m_crt_parse :: "call list \<Rightarrow> u8 list \<Rightarrow> int"
  m_parse_key :: "call list \<Rightarrow> u8 list \<Rightarrow> string option \<Rightarrow> int"
  m_conf_psk :: "call list \<Rightarrow> u8 list \<Rightarrow> string \<Rightarrow> int"
  m_hostname :: "call list \<Rightarrow> string \<Rightarrow> int"
  m_setup :: "call list \<Rightarrow> int"
  m_handshake :: "call list \<Rightarrow> int bio_io"
  m_verify :: "call list \<Rightarrow> int"
  m_verify_skipped :: "call list \<Rightarrow> bool"
  m_write :: "call list \<Rightarrow> u8 list \<Rightarrow> int bio_io"
  m_read :: "call list \<Rightarrow> nat \<Rightarrow> (int \<times> u8 list) bio_io"
  m_malloc :: "call list \<Rightarrow> u8 list option"
  m_realloc_ok :: "call list \<Rightarrow> bio \<Rightarrow> bool"
  m_psk_enabled :: bool
  m_psk_max :: nat

text \<open>The error codes the code tests by name.\<close>

definition WANT_READ :: int where "WANT_READ = - 0x6900"
definition WANT_WRITE :: int where "WANT_WRITE = - 0x6880"
definition PEER_CLOSE_NOTIFY :: int where "PEER_CLOSE_NOTIFY = - 0x7880"
definition CONN_EOF :: int where "CONN_EOF = - 0x7280"
definition NET_SEND_FAILED :: int where "NET_SEND_FAILED = - 0x004E"

definition can_retry :: "int \<Rightarrow> bool" where
  "can_retry r \<longleftrightarrow> r = WANT_READ \<or> r = WANT_WRITE"

definition SSL_HANDSHAKE_TIMEOUT :: u32 where
  "SSL_HANDSHAKE_TIMEOUT = 10000"

text \<open>
  \<open>_handle_error\<close> returns its argument; the flag says that it writes to the log. \<open>_ssl_mfln_code\<close> maps a fragment length to the code of the
  extension, 0 for none.
\<close>

definition handle_error :: "int \<Rightarrow> bool \<times> int" where
  "handle_error e = (e \<noteq> - 30848 \<and> e \<noteq> NET_SEND_FAILED, e)"

definition ssl_mfln_code :: "nat \<Rightarrow> u8" where
  "ssl_mfln_code len = (if len = 512 then 1 else if len = 1024 then 2 else if len = 2048 then 3 else if len = 4096 then 4 else 0)"

section \<open>Construction\<close>

text \<open>
  \<open>_rng_init\<close>: the result and the new \<open>_conf_initialized\<close>. With version 4 of mbedTLS \<open>ps\<close> is the answer of \<open>psa_crypto_init\<close>; with version 3
  the generator is seeded and the answer of the seeding is not looked at. The constructor looks at the result only to log it.
\<close>

definition rng_init :: "bool \<Rightarrow> int \<Rightarrow> bool \<Rightarrow> int \<times> bool" where
  "rng_init v4 ps conf_initialized =
     (if conf_initialized then (0, True)
      else if v4 then (if ps \<noteq> 0 then (-1, False) else (0, True))
      else (0, True))"

definition no_creds :: creds where
  "no_creds = \<lparr>cr_host = None, cr_root_ca = None, cr_cli_cert = None, cr_cli_key = None, cr_key_pwd = None\<rparr>"

definition new_session :: "mbed \<Rightarrow> call list \<Rightarrow> session" where
  "new_session M t =
     \<lparr>ss_pcb = None, ss_handshake_done = False, ss_start_time = 0, ss_timeout = SSL_HANDSHAKE_TIMEOUT,
      ss_bio = new_bio (m_malloc M t), ss_creds = no_creds, ss_have_ca = False, ss_have_cert = False, ss_have_key = False\<rparr>"

definition setClientCredentials :: "creds \<Rightarrow> session \<Rightarrow> session" where
  "setClientCredentials k x = x\<lparr>ss_creds := k\<rparr>"

text \<open>The destructor frees a chain it still holds.\<close>

definition free_session :: "session \<Rightarrow> call list" where
  "free_session x = (if pending_pbufs (ss_bio x) \<noteq> [] then [Pbuf_free (pending_pbufs (ss_bio x))] else [])"

definition delete_session :: "session \<Rightarrow> tsys \<Rightarrow> tsys" where
  "delete_session x s = (logs (free_session x) s)\<lparr>tls_active := tls_active s - 1\<rparr>"

definition session_close :: "session \<Rightarrow> session" where
  "session_close x = x\<lparr>ss_handshake_done := False, ss_pcb := None\<rparr>"

definition handshakeTimeoutElapsed :: "lwip \<Rightarrow> call list \<Rightarrow> session \<Rightarrow> bool" where
  "handshakeTimeoutElapsed E t x \<longleftrightarrow> ss_start_time x \<noteq> 0 \<and> millis E t - ss_start_time x > ss_timeout x"

section \<open>Pre-shared keys\<close>

text \<open>A key is given in hexadecimal, as the bytes of a C string.\<close>

definition hex_digit :: "u8 \<Rightarrow> u8 option" where
  "hex_digit c =
     (if c \<ge> 48 \<and> c \<le> 57 then Some (c - 48)
      else if c \<ge> 65 \<and> c \<le> 70 then Some (c - 55)
      else if c \<ge> 97 \<and> c \<le> 102 then Some (c - 87)
      else None)"

fun psk_bytes :: "u8 list \<Rightarrow> u8 list option" where
  "psk_bytes [] = Some []"
| "psk_bytes [c] = None"
| "psk_bytes (c # d # r) =
     (case hex_digit c of None \<Rightarrow> None
      | Some x \<Rightarrow> (case hex_digit d of None \<Rightarrow> None
                   | Some y \<Rightarrow> map_option (\<lambda>xs. (push_bit 4 x OR y) # xs) (psk_bytes r)))"

definition parse_psk :: "nat \<Rightarrow> u8 list \<Rightarrow> u8 list option" where
  "parse_psk maxlen key = (if odd (length key) \<or> length key > 2 * maxlen then None else psk_bytes key)"

section \<open>Starting a client\<close>

definition delete_certs :: "session \<Rightarrow> session" where
  "delete_certs x = x\<lparr>ss_have_ca := False, ss_have_cert := False, ss_have_key := False\<rparr>"

text \<open>The peer's authentication: a CA certificate, a pre-shared key, or none.\<close>

definition start_auth :: "mbed \<Rightarrow> call list \<Rightarrow> u8 list option \<Rightarrow> (string \<times> u8 list) option \<Rightarrow> session \<Rightarrow> int \<times> session" where
  "start_auth M t ca psk x =
     (case ca of
        Some crt \<Rightarrow>
          (let ret = m_crt_parse M t crt; x1 = x\<lparr>ss_have_ca := True\<rparr>
           in if ret < 0 then (ret, delete_certs x1) else (0, x1))
      | None \<Rightarrow>
          (case psk of
             Some (ident, key) \<Rightarrow>
               if \<not> m_psk_enabled M then (-1, x)
               else (case parse_psk (m_psk_max M) key of
                       None \<Rightarrow> (-1, x)
                     | Some bytes \<Rightarrow> (m_conf_psk M t bytes ident, x))
           | None \<Rightarrow> (0, x)))"

definition start_identity :: "mbed \<Rightarrow> call list \<Rightarrow> u8 list option \<Rightarrow> u8 list option \<Rightarrow> u8 list option \<Rightarrow> string option \<Rightarrow> session \<Rightarrow> int \<times> session" where
  "start_identity M t ca cert key pwd x =
     (case (ca, cert, key) of
        (Some _, Some crt, Some k) \<Rightarrow>
          (let ret = m_crt_parse M t crt; x1 = x\<lparr>ss_have_cert := True\<rparr>
           in if ret < 0 then (ret, delete_certs x1)
              else let ret2 = m_parse_key M t k pwd; x2 = x1\<lparr>ss_have_key := True\<rparr>
                   in if ret2 \<noteq> 0 then (ret2, delete_certs x2) else (0, x2))
      | _ \<Rightarrow> (0, x))"

text \<open>\<open>_startSSLClient\<close>\<close>

definition start_ssl_client ::
  "mbed \<Rightarrow> call list \<Rightarrow> pcb option \<Rightarrow> string option \<Rightarrow> u8 list option \<Rightarrow> u8 list option \<Rightarrow> u8 list option \<Rightarrow> (string \<times> u8 list) option
   \<Rightarrow> string option \<Rightarrow> session \<Rightarrow> int \<times> session" where
  "start_ssl_client M t p host ca cert key psk pwd x =
     (if p = None then (-1, x)
      else if m_config M t \<noteq> 0 then (m_config M t, x)
      else case start_auth M t ca psk x of (r1, x1) \<Rightarrow>
        if r1 \<noteq> 0 then (r1, x1)
        else case start_identity M t ca cert key pwd x1 of (r2, x2) \<Rightarrow>
          if r2 \<noteq> 0 then (r2, x2)
          else case host of None \<Rightarrow> (-1, delete_certs x2) | Some h \<Rightarrow>
            if length h > 253 then (-1, delete_certs x2)
            else if m_hostname M t h \<noteq> 0 then (m_hostname M t h, delete_certs x2)
            else if m_setup M t \<noteq> 0 then (m_setup M t, delete_certs x2)
            else (0, x2\<lparr>ss_pcb := p, ss_start_time := 0\<rparr>))"

text \<open>
  The public entry points. A null pointer is None; the PEM texts get the byte after their end, the NUL that mbedTLS wants to see. An identity
  without a key, or a key without an identity, is no pre-shared key.
\<close>

definition startSSLClientInsecure :: "mbed \<Rightarrow> call list \<Rightarrow> pcb option \<Rightarrow> string option \<Rightarrow> session \<Rightarrow> int \<times> session" where
  "startSSLClientInsecure M t p host x = start_ssl_client M t p host None None None None None x"

definition startSSLClient_psk :: "mbed \<Rightarrow> call list \<Rightarrow> pcb option \<Rightarrow> string option \<Rightarrow> string option \<Rightarrow> u8 list option \<Rightarrow> session \<Rightarrow> int \<times> session" where
  "startSSLClient_psk M t p host ident key x =
     start_ssl_client M t p host None None None (case (ident, key) of (Some i, Some k) \<Rightarrow> Some (i, k) | _ \<Rightarrow> None) None x"

definition startSSLClient_buf ::
  "mbed \<Rightarrow> call list \<Rightarrow> pcb option \<Rightarrow> string option \<Rightarrow> u8 list option \<Rightarrow> u8 list option \<Rightarrow> u8 list option \<Rightarrow> string option \<Rightarrow> session \<Rightarrow> int \<times> session" where
  "startSSLClient_buf M t p host ca cert key pwd x = start_ssl_client M t p host ca cert key None pwd x"

definition startSSLClient_pem ::
  "mbed \<Rightarrow> call list \<Rightarrow> pcb option \<Rightarrow> string option \<Rightarrow> u8 list option \<Rightarrow> u8 list option \<Rightarrow> u8 list option \<Rightarrow> string option \<Rightarrow> session \<Rightarrow> int \<times> session" where
  "startSSLClient_pem M t p host ca cert key pwd x =
     startSSLClient_buf M t p host (map_option (\<lambda>b. b @ [0]) ca) (map_option (\<lambda>b. b @ [0]) cert) (map_option (\<lambda>b. b @ [0]) key) pwd x"

definition startClient :: "mbed \<Rightarrow> call list \<Rightarrow> pcb option \<Rightarrow> session \<Rightarrow> int \<times> session" where
  "startClient M t p x =
     (if p = None then (-1, x)
      else
        let k = ss_creds x; host = (case cr_host k of None \<Rightarrow> [] | Some h \<Rightarrow> h)
        in if cr_root_ca k = None then startSSLClientInsecure M t p (Some host) x
           else startSSLClient_buf M t p (Some host) (cr_root_ca k) (cr_cli_cert k) (cr_cli_key k) (cr_key_pwd k) x)"

section \<open>The session of a client\<close>

definition upd_session :: "cid \<Rightarrow> (session \<Rightarrow> session) \<Rightarrow> tsys \<Rightarrow> tsys" where
  "upd_session c f s = upd c (\<lambda>k. k\<lparr>c_hooks := map_option f (c_hooks k)\<rparr>) s"

definition sess :: "tsys \<Rightarrow> cid \<Rightarrow> session" where
  "sess s c = the (c_hooks (cl s c))"

text \<open>
  \<open>_lwip_ssl_send\<close> and \<open>_lwip_ssl_recv\<close>, with what they return to mbedTLS. \<open>TCP_WRITE_FLAG_COPY\<close> is 1.
\<close>

definition lwip_ssl_send :: "lwip \<Rightarrow> cid \<Rightarrow> u8 list \<Rightarrow> tsys \<Rightarrow> int \<times> tsys" where
  "lwip_ssl_send E c buf s =
     (case ss_pcb (sess s c) of
        None \<Rightarrow> (NET_SEND_FAILED, s)
      | Some p \<Rightarrow>
          let s1 = log (Tcp_write p buf 1) s
          in if write_ret E (trace s) p = ERR_OK
             then let s2 = log (Tcp_output p) s1; err = output_ret E (trace s1) p
                  in if err = ERR_OK then (int (length buf), s2)
                     else if err = ERR_MEM then (WANT_WRITE, s2)
                     else (NET_SEND_FAILED, s2)
             else (NET_SEND_FAILED, s1))"

definition lwip_ssl_recv :: "cid \<Rightarrow> nat \<Rightarrow> tsys \<Rightarrow> int \<times> u8 list \<times> tsys" where
  "lwip_ssl_recv c n s =
     (if \<not> hasRxData (ss_bio (sess s c)) then (WANT_READ, [], s)
      else case read_bio n (ss_bio (sess s c)) of (bytes, b) \<Rightarrow>
        (int (length bytes), bytes, upd_session c (\<lambda>x. x\<lparr>ss_bio := b\<rparr>) s))"

text \<open>One call of mbedTLS, with its calls of the callbacks.\<close>

primrec run_bio :: "lwip \<Rightarrow> cid \<Rightarrow> 'a bio_io \<Rightarrow> tsys \<Rightarrow> 'a \<times> tsys" where
  "run_bio E c (Bio_done x) = (\<lambda>s. (x, s))"
| "run_bio E c (Bio_send buf k) = (\<lambda>s. case lwip_ssl_send E c buf s of (r, s1) \<Rightarrow>
     run_bio E c (k r) (log (Ssl_bio c r []) s1))"
| "run_bio E c (Bio_recv n k) = (\<lambda>s. case lwip_ssl_recv c n s of (r, bytes, s1) \<Rightarrow>
     run_bio E c (k r bytes) (log (Ssl_bio c r bytes) s1))"

text \<open>\<open>notifyConnect\<close>, \<open>notifyData\<close>, \<open>notifyError\<close>: the callbacks of the application, given a facade.\<close>

definition notify :: "('h, 'm) runner \<Rightarrow> cid \<Rightarrow> handler option \<Rightarrow> (handler \<Rightarrow> cbev) \<Rightarrow> ('h, 'm) sys_scheme \<Rightarrow> ('h, 'm) sys_scheme option" where
  "notify cb c h mk s = (if c_facade (cl s c) then call_app cb c h mk s else Some s)"

definition runSSLHandshake :: "lwip \<Rightarrow> mbed \<Rightarrow> (session, unit) runner \<Rightarrow> cid \<Rightarrow> tsys \<Rightarrow> (int \<times> tsys) option" where
  "runSSLHandshake E M cb c s =
     (if ss_pcb (sess s c) = None then Some (-1, s)
      else
        let s1 = (if ss_start_time (sess s c) = 0 then upd_session c (\<lambda>x. x\<lparr>ss_start_time := millis E (trace s)\<rparr>) s else s)
        in case run_bio E c (m_handshake M (trace s1)) (log (Ssl_handshake c) s1) of (ret, s2) \<Rightarrow>
             if ret \<noteq> 0
             then Some (if \<not> can_retry ret then ret
                        else if millis E (trace s2) - ss_start_time (sess s2 c) > ss_timeout (sess s2 c) then -1 else ret, s2)
             else if ss_have_ca (sess s2 c) \<and> m_verify M (trace s2) \<noteq> 0 \<and> \<not> m_verify_skipped M (trace s2) then Some (-1, s2)
             else do {
               let s3 = upd_session c (\<lambda>x. x\<lparr>ss_handshake_done := True\<rparr>) s2;
               s4 \<leftarrow> notify cb c (c_connect_cb (cl s3 c)) Cb_connect s3;
               Some (0, s4)
             })"

definition ssl_write :: "lwip \<Rightarrow> mbed \<Rightarrow> cid \<Rightarrow> u8 list \<Rightarrow> tsys \<Rightarrow> int \<times> tsys" where
  "ssl_write E M c data s =
     (if ss_pcb (sess s c) = None then (-1, s)
      else run_bio E c (m_write M (trace s) data) (log (Ssl_write c data) s))"

definition sslRead :: "lwip \<Rightarrow> mbed \<Rightarrow> cid \<Rightarrow> nat \<Rightarrow> tsys \<Rightarrow> int \<times> u8 list \<times> tsys" where
  "sslRead E M c n s =
     (if ss_pcb (sess s c) = None then (-1, [], s)
      else case run_bio E c (m_read M (trace s) n) (log (Ssl_read c n) s) of ((ret, plain), s1) \<Rightarrow>
           if ret = WANT_READ \<or> ret = WANT_WRITE then (0, [], s1)
           else if ret = PEER_CLOSE_NOTIFY \<or> ret = CONN_EOF then (0, [], s1)
           else if ret < 0 then (-1, [], s1)
           else (ret, take (nat ret) plain, s1))"

definition feed :: "mbed \<Rightarrow> cid \<Rightarrow> pbuf list \<Rightarrow> tsys \<Rightarrow> nat \<times> tsys" where
  "feed M c pb s =
     (case feedRx (m_realloc_ok M (trace s)) pb (ss_bio (sess s c)) of (n, calls, b) \<Rightarrow>
        (n, logs calls (upd_session c (\<lambda>x. x\<lparr>ss_bio := b\<rparr>) s)))"

section \<open>The session touches its own state and the trace only\<close>

lemma leaf_upd_session: "leaf_step s (upd_session c f s)"
  unfolding upd_session_def by (rule leaf_step_hooks)

lemma leaf_logs: "leaf_step s (logs xs s)"
proof -
  have "\<exists>h. cl s d = (cl s d)\<lparr>c_hooks := h\<rparr>" for d
    by (rule exI [of _ "c_hooks (cl s d)"]) simp
  then show ?thesis by (simp add: leaf_step_def)
qed

lemma leaf_delete: "leaf_step s (delete_session x s)"
  using leaf_logs [of s "free_session x"] by (simp add: leaf_step_def delete_session_def)

lemma leaf_send: "leaf_step s (snd (lwip_ssl_send E c buf s))"
  by (auto simp: lwip_ssl_send_def Let_def leaf_step_log split: option.split
      intro: leaf_step_trans [OF leaf_step_log leaf_step_log])

lemma leaf_recv: "leaf_step s (snd (snd (lwip_ssl_recv c n s)))"
  by (simp add: lwip_ssl_recv_def leaf_upd_session split: prod.split)

lemma leaf_run_bio: "leaf_step s (snd (run_bio E c io s))"
proof (induction io arbitrary: s)
  case (Bio_send buf k)
  obtain r s1 where x: "lwip_ssl_send E c buf s = (r, s1)" by fastforce
  have "leaf_step s s1" using leaf_send [of s E c buf] x by simp
  then have l: "leaf_step s (log (Ssl_bio c r []) s1)" by (rule leaf_step_trans [OF _ leaf_step_log])
  show ?case using leaf_step_trans [OF l Bio_send.IH] x by simp
next
  case (Bio_recv n k)
  obtain r bytes s1 where x: "lwip_ssl_recv c n s = (r, bytes, s1)" by (metis prod.collapse)
  have "leaf_step s s1" using leaf_recv [of s c n] x by simp
  then have l: "leaf_step s (log (Ssl_bio c r bytes) s1)" by (rule leaf_step_trans [OF _ leaf_step_log])
  show ?case using leaf_step_trans [OF l Bio_recv.IH [OF rangeI rangeI]] x by simp
qed simp

lemma leaf_logged_bio: "run_bio E c io (log x s) = (r, s1) \<Longrightarrow> leaf_step s s1"
  using leaf_step_trans [OF leaf_step_log leaf_run_bio] by (metis snd_conv)

lemma leaf_ssl_write: "leaf_step s (snd (ssl_write E M c d s))"
  by (auto simp: ssl_write_def intro: leaf_step_trans [OF leaf_step_log leaf_run_bio])

lemma leaf_sslRead: "leaf_step s (snd (snd (sslRead E M c n s)))"
  by (auto simp: sslRead_def dest: leaf_logged_bio split: prod.split)

lemma leaf_feed: "leaf_step s (snd (feed M c pb s))"
  by (auto simp: feed_def intro: leaf_step_trans [OF leaf_upd_session leaf_logs] split: prod.split)

lemma handshake_safe:
  assumes cb: "runner_safe k cb"
  shows "safe k s snd (runSSLHandshake E M cb c s)"
proof (cases "ss_pcb (sess s c) = None")
  case False
  define s1 where "s1 = (if ss_start_time (sess s c) = 0 then upd_session c (\<lambda>x. x\<lparr>ss_start_time := millis E (trace s)\<rparr>) s else s)"
  obtain ret s2 where m: "run_bio E c (m_handshake M (trace s1)) (log (Ssl_handshake c) s1) = (ret, s2)" by fastforce
  define s3 where "s3 = upd_session c (\<lambda>x. x\<lparr>ss_handshake_done := True\<rparr>) s2"
  have "leaf_step s s1" by (simp add: s1_def leaf_upd_session)
  moreover have "leaf_step s1 s2" by (rule leaf_logged_bio [OF m])
  ultimately have l2: "leaf_step s s2" by (rule leaf_step_trans)
  have l3: "leaf_step s s3" unfolding s3_def by (rule leaf_step_trans [OF l2 leaf_upd_session])
  have n: "safe k s (\<lambda>x. x) (notify cb c h mk s3)" for h mk
    using safe_after [OF leaf_step_evolves [OF l3] safe_call_app [OF cb]] leaf_step_evolves [OF l3]
    by (simp add: notify_def safe_Some)
  have "safe k s snd (notify cb c (c_connect_cb (cl s3 c)) Cb_connect s3 \<bind> (\<lambda>s4. Some (0::int, s4)))"
    by (rule safe_bind [OF n]) (simp add: safe_Some)
  then show ?thesis
    using False l2 m by (simp add: runSSLHandshake_def Let_def s1_def [symmetric]
        s3_def [symmetric] safe_Some leaf_step_evolves)
qed (simp add: runSSLHandshake_def safe_Some)

section \<open>Properties\<close>

text \<open>Hexadecimal in lower case, the reference the parser is checked against.\<close>

definition hex_char :: "nat \<Rightarrow> u8" where
  "hex_char n = (if n < 10 then of_nat (48 + n) else of_nat (87 + n))"

definition hex_of :: "u8 list \<Rightarrow> u8 list" where
  "hex_of bs = concat (map (\<lambda>b. [hex_char (unat b div 16), hex_char (unat b mod 16)]) bs)"

lemma hex_digit_char:
  assumes "n < 16"
  shows "hex_digit (hex_char n) = Some (of_nat n)"
proof -
  have "n \<in> {0, 1, 2, 3, 4, 5, 6, 7, 8, 9, 10, 11, 12, 13, 14, 15}" using assms by auto presburger
  then show ?thesis by (elim insertE) (simp_all add: hex_char_def hex_digit_def)
qed

lemma byte_lt: "unat (b :: u8) < 256"
proof -
  have "unat b < 2 ^ LENGTH(8)" by (rule unsigned_less)
  then show ?thesis by simp
qed

lemma nibbles:
  fixes b :: u8
  shows "push_bit 4 (of_nat (unat b div 16)) OR of_nat (unat b mod 16) = b"
proof -
  have "push_bit 4 (drop_bit 4 b) OR take_bit 4 b = b"
    by (rule bit_word_eqI) (auto simp: bit_simps)
  moreover have "drop_bit 4 b = of_nat (unat b div 16)"
    using byte_lt [of b] by (intro word_unat_eq_iff [THEN iffD2]) (simp add: unat_drop_bit_eq drop_bit_eq_div unat_of_nat unat_div)
  moreover have "take_bit 4 b = of_nat (unat b mod 16)"
    by (rule word_unat_eq_iff [THEN iffD2]) (simp add: unsigned_take_bit_eq take_bit_eq_mod unat_of_nat unat_mod)
  ultimately show ?thesis by simp
qed

lemma psk_bytes_hex: "psk_bytes (hex_of bs) = Some bs"
proof (induction bs)
  case (Cons b bs)
  have "unat b div 16 < 16" using byte_lt [of b] by presburger
  then show ?case using Cons by (simp add: hex_of_def hex_digit_char nibbles)
qed (simp add: hex_of_def)

lemma psk_bytes_length: "psk_bytes key = Some bs \<Longrightarrow> length key = 2 * length bs"
  by (induction key arbitrary: bs rule: psk_bytes.induct) (auto split: option.splits)

text \<open>
  What asks for no verification of the server without saying so: half of a pre-shared key, and a client certificate without a CA, which is not
  used either.
\<close>

lemma no_identity_without_ca: "start_identity M t None cert key pwd x = (0, x)"
  by (simp add: start_identity_def)

lemma silently_insecure:
  "startSSLClient_psk M t p host None key x = startSSLClientInsecure M t p host x"
  "startSSLClient_psk M t p host ident None x = startSSLClientInsecure M t p host x"
  "startSSLClient_pem M t p host None cert key pwd x = startSSLClientInsecure M t p host x"
  by (simp_all add: startSSLClient_psk_def startSSLClientInsecure_def startSSLClient_pem_def startSSLClient_buf_def start_ssl_client_def
      no_identity_without_ca split: option.split prod.split)

text \<open>A client that was started has a pcb and a host name; one that was not keeps no certificate it parsed.\<close>

lemma start_ssl_client_result:
  assumes "start_ssl_client M t p host ca cert key psk pwd x = (r, y)"
  shows "(r = 0 \<longrightarrow> ss_pcb y = p \<and> p \<noteq> None \<and> host \<noteq> None \<and> ss_start_time y = 0)
    \<and> (r \<noteq> 0 \<longrightarrow> ss_pcb y = ss_pcb x \<and> (\<not> ss_have_ca x \<and> \<not> ss_have_cert x \<and> \<not> ss_have_key x \<longrightarrow> \<not> ss_have_ca y \<and> \<not> ss_have_cert y \<and> \<not> ss_have_key y))"
  using assms
  by (auto simp: start_ssl_client_def start_auth_def start_identity_def delete_certs_def Let_def split: if_splits option.splits prod.splits)

text \<open>
  The hexadecimal pre-shared key parses back to the bytes it was written from, for every key up to the
  limit; a longer one is refused, and whatever is accepted has exactly half as many bytes as characters, so the
  buffer of the limit's size is never overrun.
\<close>

theorem psk_roundtrip:
  "parse_psk n (hex_of bs) = (if length bs \<le> n then Some bs else None)
   \<and> (case parse_psk n key of None \<Rightarrow> True | Some b \<Rightarrow> length key = 2 * length b \<and> length b \<le> n)"
proof -
  have l: "length (hex_of xs) = 2 * length xs" for xs
    by (induction xs) (auto simp: hex_of_def)
  have "case parse_psk n key of None \<Rightarrow> True | Some b \<Rightarrow> length key = 2 * length b \<and> length b \<le> n"
    by (auto simp: parse_psk_def dest: psk_bytes_length split: option.splits)
  then show ?thesis by (simp add: parse_psk_def psk_bytes_hex l)
qed

end
