(* ===== verification/Lwip_Callbacks.thy ===== *)
theory Lwip_Callbacks
  imports Client
begin

text \<open>
  The functions lwIP calls (\<open>src/AsyncTCP.cpp\<close>): each builds an event packet and queues it for the service
  task. \<open>send_event\<close> and \<open>prepend_event\<close> are the queue operations with the wake-up of the ESP8266 build, where
  the event that makes the queue nonempty schedules \<open>_process_async_event\<close>; \<open>schedule_function\<close> may refuse, and
  its result is not looked at.
\<close>

section \<open>Queueing\<close>

definition schedule_process :: "lwip \<Rightarrow> ('h, 'm) sys_scheme \<Rightarrow> ('h, 'm) sys_scheme" where
  "schedule_process E s =
     (log Schedule s)\<lparr>scheduled := scheduled s + (if schedule_ok E (trace s) then 1 else 0)\<rparr>"

definition wake :: "lwip \<Rightarrow> ('h, 'm) sys_scheme \<Rightarrow> ('h, 'm) sys_scheme" where
  "wake E s = (if no_sys E \<and> length (queue s) = 1 then schedule_process E s else s)"

definition send_event :: "lwip \<Rightarrow> event \<Rightarrow> ('h, 'm) sys_scheme \<Rightarrow> ('h, 'm) sys_scheme" where
  "send_event E e s = wake E (s\<lparr>queue := send_async_event e (queue s)\<rparr>)"

definition prepend_event :: "lwip \<Rightarrow> event \<Rightarrow> ('h, 'm) sys_scheme \<Rightarrow> ('h, 'm) sys_scheme" where
  "prepend_event E e s = wake E (s\<lparr>queue := prepend_async_event e (queue s)\<rparr>)"

text \<open>\<open>new (std::nothrow)\<close>\<close>

definition new_object :: "lwip \<Rightarrow> ('h, 'm) sys_scheme \<Rightarrow> bool \<times> ('h, 'm) sys_scheme" where
  "new_object E s = (alloc_ok E (trace s), log New_object s)"

text \<open>What every callback does with its packet: \<open>ERR_MEM\<close> when there is no memory for it.\<close>

definition queue_packet :: "lwip \<Rightarrow> event \<Rightarrow> ('h, 'm) sys_scheme \<Rightarrow> err \<times> ('h, 'm) sys_scheme" where
  "queue_packet E e s =
     (case new_object E s of (ok, s1) \<Rightarrow> if ok then (ERR_OK, send_event E e s1) else (ERR_MEM, s1))"

section \<open>The callbacks\<close>

definition touch_rx :: "lwip \<Rightarrow> cid \<Rightarrow> ('h, 'm) sys_scheme \<Rightarrow> ('h, 'm) sys_scheme" where
  "touch_rx E c s = upd c (\<lambda>k. k\<lparr>c_rx_last_packet := millis E (trace s)\<rparr>) s"

definition tcp_connected :: "lwip \<Rightarrow> cid \<Rightarrow> pcb \<Rightarrow> err \<Rightarrow> ('h, 'm) sys_scheme \<Rightarrow> err \<times> ('h, 'm) sys_scheme" where
  "tcp_connected E c p e s = queue_packet E (client_packet (LWIP_TCP_CONNECTED p e) c) (touch_rx E c s)"

definition tcp_poll :: "lwip \<Rightarrow> cid \<Rightarrow> pcb \<Rightarrow> ('h, 'm) sys_scheme \<Rightarrow> err \<times> ('h, 'm) sys_scheme" where
  "tcp_poll E c p s =
     (let rng' = xor_shift_next (rng s);
          s1 = s\<lparr>rng := rng'\<rparr>
      in if throttled rng' (queue s1) then (ERR_OK, s1)
         else queue_packet E (client_packet (LWIP_TCP_POLL p) c) s1)"

definition tcp_recv :: "lwip \<Rightarrow> cid \<Rightarrow> pcb \<Rightarrow> pbuf list \<Rightarrow> err \<Rightarrow> ('h, 'm) sys_scheme \<Rightarrow> err \<times> ('h, 'm) sys_scheme" where
  "tcp_recv E c p pb e s =
     (let s1 = upd c (\<lambda>k. k\<lparr>c_rx_last_packet := millis E (trace s)\<rparr>) s
      in queue_packet E (client_packet (if pb \<noteq> [] then LWIP_TCP_RECV p pb e else LWIP_TCP_FIN p e) c) s1)"

definition tcp_sent :: "lwip \<Rightarrow> cid \<Rightarrow> pcb \<Rightarrow> u16 \<Rightarrow> ('h, 'm) sys_scheme \<Rightarrow> err \<times> ('h, 'm) sys_scheme" where
  "tcp_sent E c p len s = queue_packet E (client_packet (LWIP_TCP_SENT p len) c) s"

definition tcp_error :: "lwip \<Rightarrow> ('h, 'm) hooks \<Rightarrow> cid \<Rightarrow> err \<Rightarrow> ('h, 'm) sys_scheme \<Rightarrow> ('h, 'm) sys_scheme option" where
  "tcp_error E H c e s =
     do {
       s1 \<leftarrow> (if c_pcb (cl s c) \<noteq> None
               then do {
                 s' \<leftarrow> (if hooked s c then onError H c e s else Some s);
                 Some (set_pcb c None (snd (remove_events c s')))
               }
               else Some s);
       Some (snd (queue_packet E (client_packet (LWIP_TCP_ERROR e) c) s1))
     }"

text \<open>
  The answer of a name lookup: \<open>token\<close> is the one its context holds, \<open>addr\<close> is \<open>None\<close> for a null address. The context, and with it
  its reference to the client, ends here.
\<close>

definition tcp_dns_found :: "lwip \<Rightarrow> cid \<Rightarrow> nat \<Rightarrow> ip_addr option \<Rightarrow> ('h, 'm) sys_scheme \<Rightarrow> ('h, 'm) sys_scheme" where
  "tcp_dns_found E c token addr s =
     (if c_dns_token (cl s c) \<noteq> Some token then unpin c s
      else
        let e = (client_packet (LWIP_TCP_DNS (case addr of None \<Rightarrow> ip_zero | Some a \<Rightarrow> a)) c)\<lparr>ev_dns_token := Some token\<rparr>
        in unpin c (snd (queue_packet E e s)))"

section \<open>Effects on the queue\<close>

lemma wake_frame [simp]:
  "clients (wake E s) = clients s" "queue (wake E s) = queue s" "servers (wake E s) = servers s" "rng (wake E s) = rng s"
  "next_cid (wake E s) = next_cid s" "next_token (wake E s) = next_token s"
  by (simp_all add: wake_def schedule_process_def)

lemma wake_trace: "\<exists>t. trace (wake E s) = trace s @ t \<and> set t \<subseteq> {Schedule}"
  by (simp add: wake_def schedule_process_def)

lemma queue_packet_frame [simp]:
  "clients (snd (queue_packet E e s)) = clients s" "servers (snd (queue_packet E e s)) = servers s"
  by (simp_all add: queue_packet_def new_object_def send_event_def)

lemma queue_packet_queue [queue_simps]:
  "queue (snd (queue_packet E e s)) = (if fst (queue_packet E e s) = ERR_OK then queue s @ [e] else queue s)"
  "fst (queue_packet E e s) = (if alloc_ok E (trace s) then ERR_OK else ERR_MEM)"
  by (simp_all add: queue_packet_def new_object_def send_event_def send_async_event_def)

section \<open>Properties\<close>

text \<open>
  C33: an error reported by lwIP supersedes everything else queued for the client: afterwards the client
  has no pcb if it had one before, the events of the client that are queued are exactly the one error (none when
  there was no memory for it), and no other client's event, and no other client, changed. A client that was still
  dialing (whose \<open>_pcb\<close> is not set yet) keeps its earlier events, and the error follows them.
\<close>

theorem tcp_error_supersedes:
  assumes "c_hooks (cl s c) = None"
  shows "case tcp_error E H c e s of None \<Rightarrow> False
     | Some s' \<Rightarrow>
         (let new = (if alloc_ok E (trace (snd (if c_pcb (cl s c) = None then (0, s) else remove_events c s)))
                     then [client_packet (LWIP_TCP_ERROR e) c] else [])
          in queue s' = (if c_pcb (cl s c) = None then queue s else filter (\<lambda>x. ev_impl x \<noteq> Some c) (queue s)) @ new
             \<and> clients s' = (clients s)(c := (clients s c)\<lparr>c_pcb := None\<rparr>))"
  using assms
  by (cases "c_pcb (cl s c)")
    (simp_all add: tcp_error_def queue_simps remove_events_eq forget_no_pcb Let_def)

text \<open>A connected client with a poll in the queue is reset by its peer.\<close>

definition polled :: "nat sys" where
  "polled = (upd 1 (\<lambda>k. k\<lparr>c_pcb := Some 10\<rparr>) boot)\<lparr>queue := [client_packet (LWIP_TCP_POLL 10) 1]\<rparr>"

theorem tcp_error_supersedes_witness:
  "case tcp_error calm default_hooks 1 ERR_RST polled of None \<Rightarrow> False
   | Some s' \<Rightarrow> queue s' = [client_packet (LWIP_TCP_ERROR ERR_RST) 1] \<and> c_pcb (cl s' 1) = None"
proof -
  have "c_hooks (cl polled 1) = None" by (simp add: polled_def boot_def init_client_def)
  from tcp_error_supersedes [OF this, where E = calm and H = default_hooks and e = ERR_RST] show ?thesis
    by (auto simp: polled_def client_packet_def event.defs calm_def Let_def boot_def split: option.splits)
qed

end
