(* ===== verification/Server.thy ===== *)
theory Server
  imports Lwip_Callbacks
begin

text \<open>
  \<open>AsyncServerImpl\<close> of \<open>src/AsyncTCP.cpp\<close>: the listener (\<open>begin\<close>, \<open>end\<close>), the accept callback of lwIP, the accept
  event with the epoch of the listening session, and its delivery. The TLS hooks of a server
  (\<open>AsyncServerHooks\<close>) are the record \<open>srv_hooks\<close>; \<open>None\<close> is the answer -1, which falls through to plain TCP.
\<close>

section \<open>State changes\<close>

definition upd_server :: "sid \<Rightarrow> (server \<Rightarrow> server) \<Rightarrow> ('h, 'm) sys_scheme \<Rightarrow> ('h, 'm) sys_scheme" where
  "upd_server v f s = s\<lparr>servers := (servers s)(v := f (servers s v))\<rparr>"

lemma upd_server_simps [simp]:
  "servers (upd_server v f s) = (servers s)(v := f (servers s v))"
  "clients (upd_server v f s) = clients s" "queue (upd_server v f s) = queue s" "trace (upd_server v f s) = trace s"
  "rng (upd_server v f s) = rng s" "next_cid (upd_server v f s) = next_cid s"
  "next_token (upd_server v f s) = next_token s" "scheduled (upd_server v f s) = scheduled s"
  "tls_active (upd_server v f s) = tls_active s"
  by (simp_all add: upd_server_def)

record ('h, 'm) srv_hooks =
  onAccept :: "sid \<Rightarrow> pcb \<Rightarrow> err \<Rightarrow> ('h, 'm) sys_scheme \<Rightarrow> (err option \<times> ('h, 'm) sys_scheme) option"
  onAccepted :: "sid \<Rightarrow> cid \<Rightarrow> ('h, 'm) sys_scheme \<Rightarrow> (err option \<times> ('h, 'm) sys_scheme) option"

text \<open>The runner of the \<open>onClient\<close> callback of a server.\<close>

type_synonym ('h, 'm) client_runner = "sid \<Rightarrow> handler \<Rightarrow> cid \<Rightarrow> ('h, 'm) sys_scheme \<Rightarrow> ('h, 'm) sys_scheme option"

section \<open>The listener\<close>

definition onClient :: "handler option \<Rightarrow> server \<Rightarrow> server" where
  "onClient h v = v\<lparr>sv_connect_cb := h\<rparr>"

definition begin_server :: "lwip \<Rightarrow> sid \<Rightarrow> ('h, 'm) sys_scheme \<Rightarrow> ('h, 'm) sys_scheme" where
  "begin_server E v s =
     (if sv_pcb (servers s v) \<noteq> None then s
      else case start_async_task E s of (started, s1) \<Rightarrow>
        if \<not> started then s1
        else
          let s2 = upd_server v (\<lambda>x. x\<lparr>sv_pcb := new_pcb E (trace s1)\<rparr>) (log Tcp_new s1) in
          if sv_pcb (servers s2 v) = None then s2
          else case tcp_bind E (sv_pcb (servers s2 v)) (sv_addr (servers s2 v)) (sv_port (servers s2 v)) s2 of
            (err, p, s3) \<Rightarrow>
              let s4 = upd_server v (\<lambda>x. x\<lparr>sv_pcb := p\<rparr>) s3 in
              if err \<noteq> ERR_OK then s4
              else case tcp_listen E (sv_pcb (servers s4 v)) 5 s4 of
                (None, s5) \<Rightarrow>
                  (case sv_pcb (servers s5 v) of
                     None \<Rightarrow> s5
                   | Some q \<Rightarrow> upd_server v (\<lambda>x. x\<lparr>sv_pcb := None\<rparr>) (close_or_abort E q s5))
              | (Some l, s5) \<Rightarrow>
                  logs [Tcp_arg l (Some v), Tcp_accept l True]
                    (upd_server v (\<lambda>x. x\<lparr>sv_pcb := Some l, sv_session := sv_session x + 1\<rparr>) s5))"

definition end_server :: "lwip \<Rightarrow> sid \<Rightarrow> ('h, 'm) sys_scheme \<Rightarrow> ('h, 'm) sys_scheme" where
  "end_server E v s =
     (let s1 = upd_server v (\<lambda>x. x\<lparr>sv_session := sv_session x + 1\<rparr>) s
      in case sv_pcb (servers s1 v) of
           None \<Rightarrow> s1
         | Some p \<Rightarrow>
             upd_server v (\<lambda>x. x\<lparr>sv_pcb := None\<rparr>)
               (close_or_abort E p (logs [Tcp_arg p None, Tcp_accept p False] s1)))"

definition status :: "lwip \<Rightarrow> sid \<Rightarrow> ('h, 'm) sys_scheme \<Rightarrow> nat" where
  "status E v s = pcb_field (\<lambda>p. state_num (pcb_state E (trace s) p)) 0 (sv_pcb (servers s v))"

section \<open>Accepting\<close>

text \<open>\<open>queueAcceptEvent\<close>\<close>

definition queueAcceptEvent :: "lwip \<Rightarrow> sid \<Rightarrow> cid \<Rightarrow> ('h, 'm) sys_scheme \<Rightarrow> bool \<times> ('h, 'm) sys_scheme" where
  "queueAcceptEvent E v c s =
     (case new_object E s of (ok, s1) \<Rightarrow>
        if ok then (True, prepend_event E (accept_packet c v (sv_session (servers s1 v))) s1) else (False, s1))"

text \<open>
  \<open>tcp_accept\<close>, first the part without TLS. A new client takes the next number; when there is no memory for it
  the pcb is aborted. \<open>garbage\<close> is the uninitialised memory of the new object.
\<close>

definition accept_plain :: "lwip \<Rightarrow> u32 \<Rightarrow> sid \<Rightarrow> pcb \<Rightarrow> ('h, 'm) sys_scheme \<Rightarrow> err \<times> ('h, 'm) sys_scheme" where
  "accept_plain E garbage v p s =
     (if sv_connect_cb (servers s v) \<noteq> None
      then case new_object E s of (ok, s2) \<Rightarrow>
        if ok
        then
          let c = next_cid s2;
              s3 = new_client E garbage c (Some p) (s2\<lparr>next_cid := Suc c\<rparr>);
              s4 = setNoDelay (sv_noDelay (servers s3 v)) c s3
          in case queueAcceptEvent E v c s4 of (queued, s5) \<Rightarrow>
               if queued then (ERR_OK, s5)
               else (ERR_ABRT, log (Tcp_abort p) (set_pcb c None s5))
        else (ERR_OK, log (Tcp_abort p) s2)
      else (ERR_OK, log (Tcp_abort p) s))"

definition tcp_accept :: "lwip \<Rightarrow> ('h, 'm) srv_hooks \<Rightarrow> u32 \<Rightarrow> sid \<Rightarrow> pcb option \<Rightarrow> err \<Rightarrow> ('h, 'm) sys_scheme \<Rightarrow> (err \<times> ('h, 'm) sys_scheme) option" where
  "tcp_accept E V garbage v po e s =
     (case po of
        None \<Rightarrow> Some (ERR_ABRT, s)
      | Some p \<Rightarrow>
          do {
            (r, s1) \<leftarrow> (if sv_tls_hooks (servers s v) then onAccept V v p e s else Some (None, s));
            Some (case r of Some x \<Rightarrow> (x, s1) | None \<Rightarrow> accept_plain E garbage v p s1)
          })"

text \<open>\<open>_accepted\<close>\<close>

definition accepted_impl :: "('h, 'm) srv_hooks \<Rightarrow> ('h, 'm) client_runner \<Rightarrow> sid \<Rightarrow> cid \<Rightarrow> ('h, 'm) sys_scheme \<Rightarrow> ('h, 'm) sys_scheme option" where
  "accepted_impl V ccb v c s =
     do {
       (r, s1) \<leftarrow> (if sv_tls_hooks (servers s v) then onAccepted V v c s else Some (None, s));
       if r \<noteq> None then Some s1
       else case sv_connect_cb (servers s1 v) of None \<Rightarrow> Some s1 | Some h \<Rightarrow> ccb v h c s1
     }"

section \<open>What begin and end leave behind\<close>

lemma start_async_task_servers [simp]:
  "servers (snd (start_async_task E s)) = servers s" "next_cid (snd (start_async_task E s)) = next_cid s"
  "scheduled (snd (start_async_task E s)) = scheduled s"
  by (simp_all add: start_async_task_def)

lemma start_trace: "\<exists>t. trace (snd (start_async_task E s)) = trace s @ t \<and> set t \<subseteq> {Start_task}"
  by (simp add: start_async_task_def)

lemma evolves_upd_server: "evolves s (upd_server v f s)"
  by (simp add: evolves_def)

lemma evolves_end_server [inv_intros]: "evolves s (end_server E v s)"
proof -
  have "\<exists>t. trace (end_server E v s) = trace s @ t"
    by (cases "sv_pcb (servers s v)") (simp_all add: end_server_def Let_def)
  moreover have "clients (end_server E v s) = clients s" "queue (end_server E v s) = queue s"
    "scheduled (end_server E v s) = scheduled s"
    by (cases "sv_pcb (servers s v)"; simp add: end_server_def Let_def)+
  ultimately show ?thesis by (simp add: evolves_def)
qed

text \<open>
  The ways \<open>begin\<close> can end when there is no listener: no task, no pcb, no address, no listening pcb, or a listener.
\<close>

lemma begin_server_cases:
  assumes "sv_pcb (servers s v) = None"
  obtains (no_task) "begin_server E v s = snd (start_async_task E s)"
  | (no_pcb) "begin_server E v s = upd_server v (\<lambda>x. x\<lparr>sv_pcb := None\<rparr>) (log Tcp_new (snd (start_async_task E s)))"
  | (unwound) p t where
      "trace (begin_server E v s) = trace (snd (start_async_task E s)) @ Tcp_new # Tcp_bind p (sv_addr (servers s v)) (sv_port (servers s v)) # t"
      "Tcp_close p \<in> set t" "set t \<subseteq> {Tcp_listen p 5, Tcp_close p, Tcp_abort p}"
      "servers (begin_server E v s) = (servers s)(v := (servers s v)\<lparr>sv_pcb := None\<rparr>)"
      "clients (begin_server E v s) = clients s" "queue (begin_server E v s) = queue s" "scheduled (begin_server E v s) = scheduled s"
  | (listens) p l where
      "trace (begin_server E v s) = trace (snd (start_async_task E s)) @
         [Tcp_new, Tcp_bind p (sv_addr (servers s v)) (sv_port (servers s v)), Tcp_listen p 5, Tcp_arg l (Some v), Tcp_accept l True]"
      "servers (begin_server E v s) =
         (servers s)(v := (servers s v)\<lparr>sv_pcb := Some l, sv_session := sv_session (servers s v) + 1\<rparr>)"
      "clients (begin_server E v s) = clients s" "queue (begin_server E v s) = queue s" "scheduled (begin_server E v s) = scheduled s"
proof -
  let ?s1 = "snd (start_async_task E s)"
  show thesis
  proof (cases "fst (start_async_task E s)")
    case False
    then show thesis using assms by (intro no_task) (simp add: begin_server_def split_beta)
  next
    case started: True
    show thesis
    proof (cases "new_pcb E (trace ?s1)")
      case None
      then show thesis using assms started by (intro no_pcb) (simp add: begin_server_def split_beta)
    next
      case (Some p)
      show thesis
      proof (cases "bind_ret E (trace ?s1 @ [Tcp_new]) p = ERR_OK")
        case False
        with Some started assms show thesis
          by (intro unwound [of p "Tcp_close p # (if close_ret E (trace ?s1 @ [Tcp_new, Tcp_bind p (sv_addr (servers s v)) (sv_port (servers s v))]) p
               \<noteq> ERR_OK then [Tcp_abort p] else [])"])
            (auto simp: begin_server_def split_beta tcp_bind_eq tcp_bind_sys_def tcp_bind_api_def Let_def)
      next
        case bound: True
        define tr where "tr = trace ?s1 @ [Tcp_new, Tcp_bind p (sv_addr (servers s v)) (sv_port (servers s v))]"
        show thesis
        proof (cases "listen_ret E tr p")
          case None
          with Some started assms bound show thesis
            by (intro unwound [of p "Tcp_listen p 5 # Tcp_close p # (if close_ret E (tr @ [Tcp_listen p 5]) p
                 \<noteq> ERR_OK then [Tcp_abort p] else [])"])
              (auto simp: begin_server_def split_beta tcp_bind_eq tcp_bind_sys_def tcp_bind_api_def Let_def
                tcp_listen_eq tcp_listen_sys_def tr_def)
        next
          case (Some l)
          with \<open>new_pcb E (trace ?s1) = Some p\<close> started assms bound show thesis
            by (intro listens [of p l])
              (simp_all add: begin_server_def split_beta tcp_bind_eq tcp_bind_sys_def tcp_bind_api_def Let_def
                tcp_listen_eq tcp_listen_sys_def tr_def)
        qed
      qed
    qed
  qed
qed

lemma evolves_begin_server [inv_intros]: "evolves s (begin_server E v s)"
proof (cases "sv_pcb (servers s v)")
  case None
  obtain t where t: "trace (snd (start_async_task E s)) = trace s @ t" using start_trace by blast
  from None show ?thesis
    by (cases rule: begin_server_cases [of s v E]) (auto simp: evolves_def t)
qed (simp add: begin_server_def)

section \<open>Properties\<close>

text \<open>
  C34: \<open>begin()\<close> is a transaction. Without a listener it either ends with a listening pcb, whose accept
  callback is set and whose session is a new one, so that accepts queued under the old session are stale; or with no pcb
  and the session unchanged, and then every pcb it had bound is closed again, so that the port is not kept. With a
  listener it does nothing. Clients and queued events are left alone.
\<close>

theorem begin_server_transaction:
  "(sv_pcb (servers s v) \<noteq> None \<longrightarrow> begin_server E v s = s)
   \<and> (sv_pcb (servers s v) = None \<longrightarrow>
       (\<exists>t. trace (begin_server E v s) = trace s @ t
          \<and> (case sv_pcb (servers (begin_server E v s) v) of
               None \<Rightarrow> servers (begin_server E v s) = servers s
                       \<and> (\<forall>p a n. Tcp_bind p a n \<in> set t \<longrightarrow> Tcp_close p \<in> set t)
             | Some l \<Rightarrow> sv_session (servers (begin_server E v s) v) = sv_session (servers s v) + 1
                       \<and> {Tcp_arg l (Some v), Tcp_accept l True} \<subseteq> set t))
       \<and> clients (begin_server E v s) = clients s \<and> queue (begin_server E v s) = queue s)"
proof (cases "sv_pcb (servers s v)")
  case None
  obtain t where t: "trace (snd (start_async_task E s)) = trace s @ t" "set t \<subseteq> {Start_task}" using start_trace by blast
  have same: "(servers s)(v := (servers s v)\<lparr>sv_pcb := None\<rparr>) = servers s"
    using None by (intro fun_upd_idem) (metis server.surjective server.update_convs(6))
  from None show ?thesis
  proof (cases rule: begin_server_cases [of s v E])
    case no_task
    with t None show ?thesis by auto
  next
    case no_pcb
    with t None same show ?thesis by auto
  next
    case (unwound p t')
    with t None same show ?thesis by auto
  next
    case (listens p l)
    with t None show ?thesis by auto
  qed
qed (simp add: begin_server_def)

text \<open>A server that starts to listen for the first time.\<close>

theorem begin_server_transaction_witness:
  "(case sv_pcb (servers (begin_server calm 0 (boot :: nat sys)) 0) of
      None \<Rightarrow> False | Some l \<Rightarrow> sv_session (servers (begin_server calm 0 (boot :: nat sys)) 0) = 1)
   \<and> queue (begin_server calm 0 (boot :: nat sys)) = []"
proof -
  have no: "sv_pcb (servers (boot :: nat sys) 0) = None" "sv_session (servers (boot :: nat sys) 0) = 0" "queue (boot :: nat sys) = []"
    by (simp_all add: boot_def new_server_def)
  have "sv_pcb (servers (begin_server calm 0 (boot :: nat sys)) 0) \<noteq> None"
    by (simp add: begin_server_def split_beta tcp_bind_eq tcp_bind_sys_def tcp_bind_api_def Let_def
        tcp_listen_eq tcp_listen_sys_def boot_def new_server_def calm_def start_async_task_def)
  then show ?thesis
    using begin_server_transaction [of "boot :: nat sys" 0 calm] no by (auto split: option.splits)
qed

end
