(* ===== verification/App.thy ===== *)
theory App
  imports Server
begin

text \<open>
  The application: in a callback, or at the top level, it makes a sequence of calls into the library. Which
  calls it makes is a function \<open>app\<close> of the trace so far, so every deterministic application is covered by
  some \<open>app\<close>. \<open>fire\<close> runs a callback, with a bound \<open>n\<close> on the nesting; the theorems show the bound
  \<open>work s + 1\<close> is enough, and that more makes no difference.
\<close>

section \<open>The calls of the application\<close>

datatype cmd =
    C_set cid setter
  | C_rx_timeout cid u32
  | C_ack_timeout cid u32
  | C_nodelay cid bool
  | C_connect cid ip_addr u16
  | C_connect_host cid string u16
  | C_close cid
  | C_abort cid
  | C_add cid "u8 list option" u8
  | C_send cid
  | C_write cid "u8 list option" u8
  | C_ack cid u32
  | C_ackPacket cid "pbuf option"
  | C_ackLater cid
  | C_drop cid
  | C_on_client sid "handler option"
  | C_server_nodelay sid bool
  | C_begin sid
  | C_end sid

fun exec :: "lwip \<Rightarrow> ('h, 'm) hooks \<Rightarrow> ('h, 'm) runner \<Rightarrow> cmd \<Rightarrow> ('h, 'm) sys_scheme \<Rightarrow> ('h, 'm) sys_scheme option" where
  "exec E H cb (C_set c x) s = Some (upd c (apply_setter x) s)"
| "exec E H cb (C_rx_timeout c n) s = Some (upd c (setRxTimeout n) s)"
| "exec E H cb (C_ack_timeout c n) s = Some (upd c (setAckTimeout n) s)"
| "exec E H cb (C_nodelay c b) s = Some (setNoDelay b c s)"
| "exec E H cb (C_connect c a port) s = Some (snd (connect E c a port s))"
| "exec E H cb (C_connect_host c host port) s = Some (snd (connect_host E c host port s))"
| "exec E H cb (C_close c) s = close E H cb c s"
| "exec E H cb (C_abort c) s = map_option snd (abort E H cb c s)"
| "exec E H cb (C_add c d f) s = map_option snd (add E H cb c d f s)"
| "exec E H cb (C_send c) s = Some (snd (send E c s))"
| "exec E H cb (C_write c d f) s = map_option snd (write_impl E H cb c d f s)"
| "exec E H cb (C_ack c n) s = Some (snd (ack E c n s))"
| "exec E H cb (C_ackPacket c pb) s = Some (ackPacket E c pb s)"
| "exec E H cb (C_ackLater c) s = Some (ackLater c s)"
| "exec E H cb (C_drop c) s = drop_facade E H cb c s"
| "exec E H cb (C_on_client v h) s = Some (upd_server v (onClient h) s)"
| "exec E H cb (C_server_nodelay v b) s = Some (upd_server v (\<lambda>x. x\<lparr>sv_noDelay := b\<rparr>) s)"
| "exec E H cb (C_begin v) s = Some (begin_server E v s)"
| "exec E H cb (C_end v) s = Some (end_server E v s)"

fun exec_all :: "lwip \<Rightarrow> ('h, 'm) hooks \<Rightarrow> ('h, 'm) runner \<Rightarrow> cmd list \<Rightarrow> ('h, 'm) sys_scheme \<Rightarrow> ('h, 'm) sys_scheme option" where
  "exec_all E H cb [] s = Some s"
| "exec_all E H cb (x # xs) s = (case exec E H cb x s of None \<Rightarrow> None | Some s' \<Rightarrow> exec_all E H cb xs s')"

primrec fire :: "lwip \<Rightarrow> ('h, 'm) hooks \<Rightarrow> (call list \<Rightarrow> cmd list) \<Rightarrow> nat \<Rightarrow> ('h, 'm) runner" where
  "fire E H app 0 = (\<lambda>c e s. None)"
| "fire E H app (Suc n) =
     (\<lambda>c e s. let s1 = log (App c (c_facade (cl s c)) e) s
              in exec_all E H (fire E H app n) (app (trace s1)) s1)"

definition fire_client :: "lwip \<Rightarrow> ('h, 'm) hooks \<Rightarrow> (call list \<Rightarrow> cmd list) \<Rightarrow> nat \<Rightarrow> ('h, 'm) client_runner" where
  "fire_client E H app n v h c s =
     (let s1 = log (App_client v h c) s in exec_all E H (fire E H app n) (app (trace s1)) s1)"

section \<open>Every call evolves and comes back\<close>

lemma evolves_setNoDelay [inv_intros]: "evolves s (setNoDelay b c s)"
  by (auto simp: setNoDelay_def intro: evolves_log split: option.splits)

lemma evolves_timeouts [inv_intros]:
  "evolves s (upd c (setRxTimeout n) s)" "evolves s (upd c (setAckTimeout n) s)"
  by (auto simp: setRxTimeout_def setAckTimeout_def evolves_client_def intro!: evolves_upd)

context leaf_hooks begin

lemma exec_safe:
  assumes cb: "runner_safe k cb"
  shows "safe (Suc k) s (\<lambda>x. x) (exec E H cb x s)"
proof (cases x)
  case (C_close c)
  then show ?thesis by (simp add: close_safe [OF cb])
next
  case (C_abort c)
  then show ?thesis by (simp add: safe_map abort_safe [OF cb])
next
  case (C_drop c)
  then show ?thesis by (simp add: drop_facade_safe [OF cb])
next
  case (C_add c d f)
  then show ?thesis by (simp add: safe_map add_safe [OF cb])
next
  case (C_write c d f)
  then show ?thesis by (simp add: safe_map write_impl_safe [OF cb])
qed (simp_all add: safe_Some evolves_apply_setter evolves_timeouts evolves_setNoDelay evolves_connect
      evolves_connect_host evolves_send evolves_ack evolves_ackPacket evolves_ackLater evolves_upd_server
      evolves_begin_server evolves_end_server)

lemma exec_all_safe: "runner_safe k cb \<Longrightarrow> safe (Suc k) s (\<lambda>x. x) (exec_all E H cb xs s)"
proof (induction xs arbitrary: s)
  case (Cons x xs)
  then show ?case by (simp, intro safe_case [OF exec_safe]) auto
qed (simp add: safe_Some)

lemma log_work [simp]: "work (log x s) = work s" "live (log x s) = live s" "pending (log x s) = pending s"
  by (simp_all add: work_def live_def pending_def)

lemma fire_safe: "runner_safe n (fire E H app n)"
proof (induction n)
  case (Suc n)
  have "safe (Suc n) s (\<lambda>x. x) (fire E H app (Suc n) c e s)" for c e s
    unfolding fire.simps Let_def
    by (rule safe_after [OF evolves_log(1) exec_all_safe [OF Suc]])
  then show ?case by (simp add: runner_safe_def)
qed (simp add: runner_safe_def safe_def)

lemma fire_client_safe: "safe (Suc n) s (\<lambda>x. x) (fire_client E H app n v h c s)"
  unfolding fire_client_def Let_def
  by (rule safe_after [OF evolves_log(1) exec_all_safe [OF fire_safe]])

end

section \<open>More fuel makes no difference\<close>

lemma call_app_le: "runner_le cb cb' \<Longrightarrow> call_app cb c h mk s = Some s' \<Longrightarrow> call_app cb' c h mk s = Some s'"
  by (auto simp: runner_le_def call_app_def split: option.splits)

lemma close_impl_le:
  assumes le: "runner_le cb cb'" and run: "close_impl E H cb c s = Some r"
  shows "close_impl E H cb' c s = Some r"
proof -
  obtain s1 where s1: "(if hooked s c \<and> c_pcb (cl s c) \<noteq> None then onClosing H c s else Some s) = Some s1"
    using run by (auto simp: close_impl_def bind_eq_Some_conv)
  obtain e s2 where s2: "tcp_close E c s1 = (e, s2)" by fastforce
  have eq: "close_impl E H x c s = (if e = ERR_OK
      then call_app x c (c_discard_cb (cl s2 c)) Cb_discard s2 \<bind>
        (\<lambda>s3. call_app x c (c_server_discard_cb (cl s3 c)) Cb_server_discard (note_freed c s2 s3) \<bind> (\<lambda>s4. Some (e, s4)))
      else Some (e, s2))" for x
    unfolding close_impl_def s1 by (simp add: s2 Let_def)
  show ?thesis
    using run call_app_le [OF le] unfolding eq by (auto simp: bind_eq_Some_conv split: if_splits)
qed

lemma close_le: "runner_le cb cb' \<Longrightarrow> close E H cb c s = Some s' \<Longrightarrow> close E H cb' c s = Some s'"
  by (auto simp: close_def Let_def dest: close_impl_le)

lemma error_impl_le: "runner_le cb cb' \<Longrightarrow> error_impl cb c e s = Some s' \<Longrightarrow> error_impl cb' c e s = Some s'"
  by (auto simp: error_impl_def Let_def bind_eq_Some_conv split: if_splits dest: call_app_le)

lemma abort_le:
  assumes le: "runner_le cb cb'" and run: "abort E H cb c s = Some r"
  shows "abort E H cb' c s = Some r"
proof -
  let ?s1 = "clear_token c s"
  obtain s2 where s2: "(if hooked ?s1 c \<and> c_pcb (cl ?s1 c) \<noteq> None then onClosing H c ?s1 else Some ?s1) = Some s2"
    using run unfolding abort_def Let_def by (auto simp only: bind_eq_Some_conv)
  obtain e s3 where s3: "tcp_abort E c s2 = (e, s3)" by fastforce
  have eq: "abort E H x c s = (if e \<noteq> ERR_CONN then error_impl x c ERR_ABRT s3 else Some s3) \<bind> (\<lambda>s4. Some (e, s4))" for x
    unfolding abort_def Let_def s2 by (simp add: s3)
  show ?thesis
    using run error_impl_le [OF le] unfolding eq by (cases "e = ERR_CONN") (auto simp: bind_eq_Some_conv)
qed

lemma destroy_le:
  assumes le: "runner_le cb cb'" and run: "destroy_impl E H cb c s = Some s'"
  shows "destroy_impl E H cb' c s = Some s'"
proof -
  obtain s1 where s1: "(if hooked (mark_dead c s) c then map_option (clear_hooks c) (onDelete H c (mark_dead c s))
      else Some (mark_dead c s)) = Some s1"
    using run unfolding destroy_impl_def Let_def by (auto simp only: bind_eq_Some_conv)
  have eq: "destroy_impl E H x c s = (if c_pcb (cl s1 c) \<noteq> None then map_option snd (close_impl E H x c s1) else Some s1) \<bind>
      (\<lambda>s2. Some (invalidate c s2))" for x
    unfolding destroy_impl_def Let_def s1 by simp
  show ?thesis
    using run close_impl_le [OF le] unfolding eq by (auto simp: bind_eq_Some_conv split: if_splits)
qed

lemma drop_facade_le: "runner_le cb cb' \<Longrightarrow> drop_facade E H cb c s = Some s' \<Longrightarrow> drop_facade E H cb' c s = Some s'"
  by (auto simp: drop_facade_def close_facade_def release_def bind_eq_Some_conv split: if_splits dest: close_le destroy_le)

context leaf_hooks begin

lemma add_le: "runner_le cb cb' \<Longrightarrow> add E H cb c d f s = Some r \<Longrightarrow> add E H cb' c d f s = Some r"
  by (auto simp: add_def Let_def bind_eq_Some_conv split: option.splits if_splits dest: writing_le)

lemma write_impl_le: "runner_le cb cb' \<Longrightarrow> write_impl E H cb c d f s = Some r \<Longrightarrow> write_impl E H cb' c d f s = Some r"
  unfolding write_impl_def
  by (cases "add E H cb c d f s") (simp_all add: add_le)

lemma exec_le: "runner_le cb cb' \<Longrightarrow> exec E H cb x s = Some s' \<Longrightarrow> exec E H cb' x s = Some s'"
  by (cases x) (auto dest: drop_facade_le close_le abort_le add_le write_impl_le)

lemma exec_all_le: "runner_le cb cb' \<Longrightarrow> exec_all E H cb xs s = Some s' \<Longrightarrow> exec_all E H cb' xs s = Some s'"
  by (induction xs arbitrary: s) (auto split: option.splits dest: exec_le)

lemma fire_le_Suc: "runner_le (fire E H app n) (fire E H app (Suc n))"
proof (induction n)
  case (Suc n)
  show ?case unfolding runner_le_def
  proof (intro allI impI)
    fix c e s s'
    assume "fire E H app (Suc n) c e s = Some s'"
    then show "fire E H app (Suc (Suc n)) c e s = Some s'"
      using exec_all_le [OF Suc] by (simp only: fire.simps Let_def)
  qed
qed (simp add: runner_le_def)

lemma fire_le: "n \<le> m \<Longrightarrow> runner_le (fire E H app n) (fire E H app m)"
proof (induction rule: dec_induct)
  case (step m)
  then show ?case using fire_le_Suc [of E app m] by (auto simp: runner_le_def)
qed (simp add: runner_le_def)

end

lemma runner_safe_run: "runner_safe n cb \<Longrightarrow> safe n s (\<lambda>x. x) (cb c e s)"
  by (simp add: runner_safe_def)

section \<open>Properties\<close>

text \<open>
  C5: callbacks end. However the application's callbacks call back into the library, closing and aborting
  connections, dialing and dropping clients, the nesting is bounded by the number of clients that have a pcb or a queued
  event: with one more level of fuel than that a callback returns, and any further fuel gives the same state.
\<close>

theorem callbacks_end:
  assumes "finite {c. c_pcb (cl s c) \<noteq> None}"
    and "card {c. c_pcb (cl s c) \<noteq> None} + card {c. \<exists>e \<in> set (queue s). ev_impl e = Some c} < n"
  shows "\<exists>s'. \<forall>m \<ge> n. fire E default_hooks app m c e s = Some s'"
proof -
  have p: "pending s = {c. \<exists>e \<in> set (queue s). ev_impl e = Some c}"
    by (auto simp: pending_def events_of_def filter_empty_conv)
  have "safe n s (\<lambda>x. x) (fire E default_hooks app n c e s)"
    by (rule runner_safe_run [OF plain.fire_safe])
  then obtain s' where "fire E default_hooks app n c e s = Some s'"
    using assms by (auto simp: safe_def work_def p live_def)
  then show ?thesis using plain.fire_le by (metis runner_le_def)
qed

text \<open>An application that, when anything happens, closes clients 1 and 2.\<close>

definition closing_app :: "call list \<Rightarrow> cmd list" where
  "closing_app t = [C_close 1, C_close 2]"

definition two_live :: "nat sys" where
  "two_live = upd 1 (\<lambda>k. k\<lparr>c_pcb := Some 10, c_discard_cb := Some 7\<rparr>)
     (upd 2 (\<lambda>k. k\<lparr>c_pcb := Some 20, c_discard_cb := Some 8\<rparr>) boot)"

theorem callbacks_end_witness:
  "\<exists>s'. \<forall>m \<ge> 3. fire calm default_hooks closing_app m 1 (Cb_connect 0) two_live = Some s'"
proof (rule callbacks_end)
  have l: "{c. c_pcb (cl two_live c) \<noteq> None} = {1, 2}"
    by (auto simp: two_live_def boot_def init_client_def)
  show "finite {c. c_pcb (cl two_live c) \<noteq> None}" unfolding l by simp
  show "card {c. c_pcb (cl two_live c) \<noteq> None} + card {c. \<exists>e \<in> set (queue two_live). ev_impl e = Some c} < 3"
    unfolding l by (simp add: two_live_def boot_def)
qed

end
