(* ===== verification/Secure_Client.thy ===== *)
theory Secure_Client
  imports Tls_Session App
begin

text \<open>
  The TLS hooks of a client in the ESP32 build (\<open>SecureClientHooks\<close> in \<open>src/AsyncSecureClient.cpp\<close>), and
  \<open>beginSecure\<close>. The hooks run on the service task: ciphertext goes into the session's buffer and is
  acknowledged, the handshake is driven to its end, decrypted data goes to the application.
\<close>

section \<open>The hooks\<close>

definition tls_onWrite :: "lwip \<Rightarrow> mbed \<Rightarrow> (session, unit) runner \<Rightarrow> cid \<Rightarrow> u8 list \<Rightarrow> tsys \<Rightarrow> (int \<times> tsys) option" where
  "tls_onWrite E M cb c data s =
     (if \<not> ss_handshake_done (sess s c) then Some (-1, s)
      else case ssl_write E M c data s of (ret, s1) \<Rightarrow> Some (if ret > 0 then ret else 0, s1))"

definition tls_onClosing :: "cid \<Rightarrow> tsys \<Rightarrow> tsys option" where
  "tls_onClosing c s = Some (upd_session c session_close s)"

definition tls_onError :: "cid \<Rightarrow> err \<Rightarrow> tsys \<Rightarrow> tsys option" where
  "tls_onError c e s = Some (upd_session c session_close s)"

text \<open>The destructor of the hooks deletes the session.\<close>

definition tls_onDelete :: "cid \<Rightarrow> tsys \<Rightarrow> tsys option" where
  "tls_onDelete c s = Some (delete_session (sess s c) s)"

text \<open>The hooks the operations of the application reach; the rest as in the base class.\<close>

definition leaf_tls :: "lwip \<Rightarrow> mbed \<Rightarrow> (session, unit) hooks" where
  "leaf_tls E M = default_hooks\<lparr>onWrite := tls_onWrite E M, onClosing := tls_onClosing, onError := tls_onError,
     onDelete := tls_onDelete\<rparr>"

definition tls_onConnected :: "lwip \<Rightarrow> mbed \<Rightarrow> (session, unit) runner \<Rightarrow> cid \<Rightarrow> tsys \<Rightarrow> (bool \<times> tsys) option" where
  "tls_onConnected E M cb c s =
     (case startClient M (trace s) (c_pcb (cl s c)) (sess s c) of (ret, x) \<Rightarrow>
        let s1 = log (Ssl_start c) (upd_session c (\<lambda>_. x) s)
        in if ret \<noteq> 0
           then do {
             s2 \<leftarrow> notify cb c (c_error_cb (cl s1 c)) (\<lambda>h. Cb_error h (Err_num (- 60))) s1;
             s3 \<leftarrow> close E (leaf_tls E M) cb c s2;
             Some (True, s3)
           }
           else Some (True, s1))"

text \<open>\<open>recved\<close> of the hooks' base class.\<close>

definition hook_recved :: "lwip \<Rightarrow> cid \<Rightarrow> nat \<Rightarrow> tsys \<Rightarrow> tsys" where
  "hook_recved E c n s = (if n \<noteq> 0 then snd (tcp_recved E c (of_nat n) s) else s)"

text \<open>
  The loop that hands decrypted data to the application, 1024 bytes at a time. It runs as long as mbedTLS has data,
  which is a matter of mbedTLS, so it need not end in the model. The flag says that the application closed
  the connection.
\<close>

partial_function (option) read_loop :: "lwip \<Rightarrow> mbed \<Rightarrow> (session, unit) runner \<Rightarrow> cid \<Rightarrow> tsys \<Rightarrow> (bool \<times> int \<times> tsys) option" where
  "read_loop E M cb c s =
     (case sslRead E M c 1024 s of (n, plain, s1) \<Rightarrow>
        if n > 0
        then notify cb c (c_recv_cb (cl s1 c)) (\<lambda>h. Cb_recv h plain) s1 \<bind>
             (\<lambda>s2. if c_pcb (cl s2 c) = None then Some (True, n, s2) else read_loop E M cb c s2)
        else Some (False, n, s1))"

text \<open>\<open>notifyError(c, -60); c->close();\<close>\<close>

definition fail_tls :: "lwip \<Rightarrow> mbed \<Rightarrow> (session, unit) runner \<Rightarrow> cid \<Rightarrow> int \<Rightarrow> tsys \<Rightarrow> (bool \<times> tsys) option" where
  "fail_tls E M cb c e s =
     do {
       s1 \<leftarrow> notify cb c (c_error_cb (cl s c)) (\<lambda>h. Cb_error h (Err_num e)) s;
       s2 \<leftarrow> close E (leaf_tls E M) cb c s1;
       Some (True, s2)
     }"

text \<open>The second pass of \<open>onRecv\<close>: ciphertext that did not fit the buffer before the first pass emptied it.\<close>

definition second_pass :: "lwip \<Rightarrow> mbed \<Rightarrow> (session, unit) runner \<Rightarrow> cid \<Rightarrow> tsys \<Rightarrow> (bool \<times> tsys) option" where
  "second_pass E M cb c s4 =
     (case feed M c [] s4 of (fed2, s5) \<Rightarrow>
        if fed2 \<noteq> 0
        then do {
          (closed2, n2, s6) \<leftarrow> read_loop E M cb c (hook_recved E c fed2 s5);
          Some (True, s6)
        }
        else Some (True, s5))"

definition tls_onRecv :: "lwip \<Rightarrow> mbed \<Rightarrow> (session, unit) runner \<Rightarrow> cid \<Rightarrow> pbuf list \<Rightarrow> tsys \<Rightarrow> (bool \<times> tsys) option" where
  "tls_onRecv E M cb c pb s =
     (let s1 = touch_rx E c s in
      if pb = [] then Some (True, s1)
      else
        case feed M c pb s1 of (fed, s2) \<Rightarrow>
        let s3 = hook_recved E c fed s2 in
        if \<not> ss_handshake_done (sess s3 c)
        then do {
          (ret, s4) \<leftarrow> runSSLHandshake E M cb c s3;
          if ret \<noteq> 0 \<and> \<not> can_retry ret then fail_tls E M cb c (- 60) s4 else Some (True, s4)
        }
        else do {
          (closed, n, s4) \<leftarrow> read_loop E M cb c s3;
          if closed then Some (True, s4)
          else if n < 0 \<and> c_pcb (cl s4 c) \<noteq> None then fail_tls E M cb c (- 60) s4
          else second_pass E M cb c s4
        })"

definition tls_onSent :: "cid \<Rightarrow> u16 \<Rightarrow> tsys \<Rightarrow> (bool \<times> tsys) option" where
  "tls_onSent c len s = Some (False, s)"

definition tls_onPoll :: "lwip \<Rightarrow> mbed \<Rightarrow> (session, unit) runner \<Rightarrow> cid \<Rightarrow> tsys \<Rightarrow> (bool \<times> tsys) option" where
  "tls_onPoll E M cb c s =
     (if \<not> ss_handshake_done (sess s c) \<and> handshakeTimeoutElapsed E (trace s) (sess s c)
      then fail_tls E M cb c (- 61) s
      else Some (False, s))"

definition secure_hooks :: "lwip \<Rightarrow> mbed \<Rightarrow> (session, unit) runner \<Rightarrow> (session, unit) hooks" where
  "secure_hooks E M cb =
     \<lparr>onConnected = tls_onConnected E M cb, onRecv = tls_onRecv E M cb, onSent = tls_onSent,
      onPoll = tls_onPoll E M cb, onWrite = tls_onWrite E M, onClosing = tls_onClosing, onError = tls_onError,
      onDelete = tls_onDelete\<rparr>"

section \<open>beginSecure\<close>

text \<open>
  A new session and new hooks are installed on the client, over whatever hooks it had: \<open>setHooks\<close> does not
  delete them. The two allocations are the session and the hooks.
\<close>

definition beginSecure :: "lwip \<Rightarrow> mbed \<Rightarrow> cid \<Rightarrow> creds \<Rightarrow> string \<Rightarrow> u16 \<Rightarrow> tsys \<Rightarrow> bool \<times> tsys" where
  "beginSecure E M c k host port s =
     (if c_pcb (cl s c) \<noteq> None then (False, s)
      else case new_object E s of (ok, s1) \<Rightarrow>
        if \<not> ok then (False, s1)
        else
          let x = setClientCredentials k (new_session M (trace s1));
              s2 = s1\<lparr>tls_active := tls_active s1 + 1\<rparr>
          in case new_object E s2 of (ok2, s3) \<Rightarrow>
            if \<not> ok2 then (False, s3\<lparr>tls_active := tls_active s3 - 1\<rparr>)
            else connect_host E c host port (upd c (\<lambda>k. k\<lparr>c_hooks := Some x\<rparr>) s3))"

section \<open>The hooks keep the contract\<close>

lemma tls_leaf_steps:
  "\<exists>s'. tls_onClosing c s = Some s' \<and> leaf_step s s'"
  "\<exists>s'. tls_onError c e s = Some s' \<and> leaf_step s s'"
  "\<exists>n s'. tls_onWrite E M cb c d s = Some (n, s') \<and> leaf_step s s'"
  "\<exists>s'. tls_onDelete c s = Some s' \<and> leaf_step s s'"
  using leaf_ssl_write [of s E M c d]
  by (auto simp: tls_onClosing_def tls_onError_def tls_onWrite_def leaf_upd_session tls_onDelete_def leaf_delete split_beta)

lemma tls_onWrite_safe: "safe k s snd (tls_onWrite E M cb c d s)"
  using tls_leaf_steps(3) [of E M cb c d s] by (auto simp: safe_def dest: leaf_step_evolves)

interpretation leaf: leaf_hooks "leaf_tls E M" for E M
  by unfold_locales (simp_all add: leaf_tls_def tls_leaf_steps tls_onWrite_safe, simp add: tls_onWrite_def)

lemma notify_safe: "runner_safe k cb \<Longrightarrow> safe k s (\<lambda>x. x) (notify cb c h mk s)"
  by (simp add: notify_def safe_call_app safe_Some)

lemma evolves_touch_rx: "evolves s (touch_rx E c s)"
  by (simp add: touch_rx_def evolves_rx_stamp)

lemma fail_tls_safe: "runner_safe k cb \<Longrightarrow> safe k s snd (fail_tls E M cb c e s)"
  unfolding fail_tls_def
  by (intro safe_bind [OF notify_safe] safe_bind [OF safe_mono [OF leaf.close_safe, of k cb k]]) (auto intro: safe_Some)

lemma onConnected_safe:
  assumes cb: "runner_safe k cb"
  shows "safe k s snd (tls_onConnected E M cb c s)"
proof -
  obtain ret x where r: "startClient M (trace s) (c_pcb (cl s c)) (sess s c) = (ret, x)" by fastforce
  let ?s1 = "log (Ssl_start c) (upd_session c (\<lambda>_. x) s)"
  have "leaf_step s ?s1" by (rule leaf_step_trans [OF leaf_upd_session leaf_step_log])
  then have ev: "evolves s ?s1" by (rule leaf_step_evolves)
  have eq: "tls_onConnected E M cb c s = (if ret \<noteq> 0 then fail_tls E M cb c (- 60) ?s1 else Some (True, ?s1))"
    by (simp add: tls_onConnected_def r fail_tls_def Let_def)
  show ?thesis
    unfolding eq using ev by (auto intro: safe_after [OF ev fail_tls_safe [OF cb]] safe_Some)
qed

definition loop_state :: "(bool \<times> int \<times> tsys) \<Rightarrow> tsys" where
  "loop_state r = snd (snd r)"

lemma read_loop_evolves:
  assumes cb: "runner_safe k cb" and run: "read_loop E M cb c s = Some r"
  shows "evolves s (loop_state r)"
proof -
  have "cb = cb \<longrightarrow> evolves s (loop_state r)"
  proof (rule read_loop.raw_induct [where P = "\<lambda>E M cb' c s r. cb' = cb \<longrightarrow> evolves s (loop_state r)", OF _ run])
    fix loop E M cb' c s r
    assume IH: "\<And>E M cb' c s r. loop E M cb' c s = Some r \<Longrightarrow> cb' = cb \<longrightarrow> evolves s (loop_state r)"
      and body: "(case sslRead E M c 1024 s of (n, plain, s1) \<Rightarrow>
        if n > 0
        then notify cb' c (c_recv_cb (cl s1 c)) (\<lambda>h. Cb_recv h plain) s1 \<bind>
             (\<lambda>s2. if c_pcb (cl s2 c) = None then Some (True, n, s2) else loop E M cb' c s2)
        else Some (False, n, s1)) = Some r"
    obtain n plain s1 where rd: "sslRead E M c 1024 s = (n, plain, s1)" by (metis prod_cases3)
    have ev1: "evolves s s1" using leaf_step_evolves [OF leaf_sslRead [of s E M c 1024]] rd by simp
    show "cb' = cb \<longrightarrow> evolves s (loop_state r)"
    proof
      assume cb': "cb' = cb"
      show "evolves s (loop_state r)"
      proof (cases "n > 0")
        case False
        with body rd ev1 show ?thesis by (auto simp: loop_state_def)
      next
        case True
        with body rd cb' obtain s2 where s2: "notify cb c (c_recv_cb (cl s1 c)) (\<lambda>h. Cb_recv h plain) s1 = Some s2"
          and r: "(if c_pcb (cl s2 c) = None then Some (True, n, s2) else loop E M cb c s2) = Some r"
          by (auto simp: bind_eq_Some_conv)
        have ev2: "evolves s1 s2" by (rule safe_evolves [OF notify_safe [OF cb] s2])
        have "evolves s2 (loop_state r)"
          using r IH [of E M cb c s2 r] by (auto simp: loop_state_def split: if_splits)
        then show ?thesis by (meson ev1 ev2 evolves_trans)
      qed
    qed
  qed
  then show ?thesis by simp
qed

lemma read_loop_safe: "runner_safe k cb \<Longrightarrow> safe 0 s loop_state (read_loop E M cb c s)"
  by (auto simp: safe_def intro: read_loop_evolves)

lemma onRecv_safe:
  assumes cb: "runner_safe k cb"
  shows "safe 0 s snd (tls_onRecv E M cb c pb s)"
proof -
  define s1 where "s1 = touch_rx E c s"
  obtain fed s2 where f: "feed M c pb s1 = (fed, s2)" by fastforce
  define s3 where "s3 = hook_recved E c fed s2"
  have ev1: "evolves s s1" by (simp add: s1_def evolves_touch_rx)
  have ev2: "evolves s1 s2" using leaf_step_evolves [OF leaf_feed [of s1 M c pb]] f by simp
  have rec: "evolves x (hook_recved E c n x)" for x n by (simp add: hook_recved_def evolves_recved)
  have ev3: "evolves s s3" unfolding s3_def by (meson ev1 ev2 rec evolves_trans)
  have cb0: "runner_safe 0 cb" by (rule runner_safe_mono [OF cb]) simp
  have hs: "safe 0 s3 snd (runSSLHandshake E M cb c s3 \<bind>
     (\<lambda>(ret, s4). if ret \<noteq> 0 \<and> \<not> can_retry ret then fail_tls E M cb c (- 60) s4 else Some (True, s4)))"
    by (rule safe_bind [OF handshake_safe [OF cb0]]) (auto intro: fail_tls_safe [OF cb0] safe_Some split: prod.split)
  have tail: "safe 0 s4 snd (second_pass E M cb c s4)" for s4
  proof -
    obtain fed2 s5 where f2: "feed M c [] s4 = (fed2, s5)" by fastforce
    have ev5: "evolves s4 s5" using leaf_step_evolves [OF leaf_feed [of s4 M c "[]"]] f2 by simp
    have "safe 0 (hook_recved E c fed2 s5) snd
        (read_loop E M cb c (hook_recved E c fed2 s5) \<bind> (\<lambda>(closed2, n2, s6). Some (True, s6)))"
      by (rule safe_bind [OF read_loop_safe [OF cb]]) (auto simp: loop_state_def intro: safe_Some)
    from safe_after [OF evolves_trans [OF ev5 rec] this] ev5 show ?thesis
      by (auto simp: second_pass_def f2 intro: safe_Some)
  qed
  have rd: "safe 0 s3 snd (read_loop E M cb c s3 \<bind>
     (\<lambda>(closed, n, s4). if closed then Some (True, s4)
          else if n < 0 \<and> c_pcb (cl s4 c) \<noteq> None then fail_tls E M cb c (- 60) s4
          else second_pass E M cb c s4))"
    by (rule safe_bind [OF read_loop_safe [OF cb]])
      (auto simp: loop_state_def intro!: fail_tls_safe [OF cb0] safe_Some tail)
  have "tls_onRecv E M cb c pb s = (if pb = [] then Some (True, s1) else
     if \<not> ss_handshake_done (sess s3 c)
     then runSSLHandshake E M cb c s3 \<bind>
       (\<lambda>(ret, s4). if ret \<noteq> 0 \<and> \<not> can_retry ret then fail_tls E M cb c (- 60) s4 else Some (True, s4))
     else read_loop E M cb c s3 \<bind>
     (\<lambda>(closed, n, s4). if closed then Some (True, s4)
          else if n < 0 \<and> c_pcb (cl s4 c) \<noteq> None then fail_tls E M cb c (- 60) s4
          else second_pass E M cb c s4))"
    by (simp add: tls_onRecv_def Let_def s1_def [symmetric] f s3_def [symmetric])
  with safe_after [OF ev3 hs] safe_after [OF ev3 rd] ev1 show ?thesis
    by (simp add: safe_Some)
qed

lemma onPoll_safe: "runner_safe k cb \<Longrightarrow> safe k s snd (tls_onPoll E M cb c s)"
  by (simp add: tls_onPoll_def fail_tls_safe safe_Some)

text \<open>The runner of the callbacks of an application whose clients may be secure.\<close>

definition tls_fire :: "lwip \<Rightarrow> mbed \<Rightarrow> (call list \<Rightarrow> cmd list) \<Rightarrow> nat \<Rightarrow> (session, unit) runner" where
  "tls_fire E M app n = fire E (leaf_tls E M) app n"

lemma tls_fire_safe: "runner_safe n (tls_fire E M app n)"
  unfolding tls_fire_def by (rule leaf.fire_safe)

interpretation tls: client_hooks "secure_hooks E M (tls_fire E M app n)" 0 for E M app n
proof unfold_locales
  have cb0: "runner_safe 0 (tls_fire E M app n)" by (rule runner_safe_mono [OF tls_fire_safe]) simp
  show "safe 0 s snd (onConnected (secure_hooks E M (tls_fire E M app n)) c s)" for c s
    by (simp add: secure_hooks_def onConnected_safe [OF cb0])
  show "safe 0 s snd (onRecv (secure_hooks E M (tls_fire E M app n)) c pb s)" for c pb s
    by (simp add: secure_hooks_def onRecv_safe [OF cb0])
  show "safe 0 s snd (onSent (secure_hooks E M (tls_fire E M app n)) c m s)" for c m s
    by (simp add: secure_hooks_def tls_onSent_def safe_Some)
  show "safe 0 s snd (onPoll (secure_hooks E M (tls_fire E M app n)) c s)" for c s
    by (simp add: secure_hooks_def onPoll_safe [OF cb0])
qed (simp_all add: secure_hooks_def tls_leaf_steps tls_onWrite_safe, simp add: tls_onWrite_def)

section \<open>Before the handshake\<close>

text \<open>
  C17: an application that writes before the handshake is done sends its data in the clear. The hook answers -1, "not handled", and
  \<open>add\<close> takes that as the absence of TLS: the bytes go to lwIP as they are, on the connection TLS is about to use, and \<open>add\<close>
  reports them as sent.
\<close>

theorem plaintext_before_handshake:
  assumes "c_pcb (cl s c) = Some p" and "c_hooks (cl s c) = Some x" and "\<not> ss_handshake_done x"
    and "data \<noteq> []" and "length data \<le> unat (space E c s)" and "write_ret E (trace s) p = ERR_OK"
  shows "\<exists>s'. add E (secure_hooks E M cb) cb' c (Some data) flags s = Some (length data, s')
    \<and> trace s' = trace s @ [Tcp_write p data flags]"
proof -
  have room: "unat (space E c s) \<noteq> 0" using assms(4,5) by (cases data) auto
  have w: "tcp_write E c data flags s = (ERR_OK, log (Tcp_write p data flags) s)"
    using assms(1,6) by (simp add: tcp_write_def tcp_write_nosys_def tcp_write_sys_def tcp_write_api_def)
  show ?thesis
    using assms(1-5) room by (simp add: add_def secure_hooks_def tls_onWrite_def sess_def w Let_def)
qed

text \<open>A TLS library in which everything succeeds.\<close>

definition calm_mbed :: mbed where
  "calm_mbed =
     \<lparr>m_config = (\<lambda>_. 0), m_crt_parse = (\<lambda>_ _. 0), m_parse_key = (\<lambda>_ _ _. 0), m_conf_psk = (\<lambda>_ _ _. 0), m_hostname = (\<lambda>_ _. 0),
      m_setup = (\<lambda>_. 0), m_handshake = (\<lambda>_. Bio_done 0), m_verify = (\<lambda>_. 0), m_verify_skipped = (\<lambda>_. False),
      m_write = (\<lambda>_ b. Bio_done (int (length b))), m_read = (\<lambda>_ _. Bio_done (0, [])), m_malloc = (\<lambda>_. None),
      m_realloc_ok = (\<lambda>_ _. True), m_psk_enabled = True, m_psk_max = 32\<rparr>"

theorem plaintext_before_handshake_witness:
  "\<exists>s s'. add calm (secure_hooks calm calm_mbed (\<lambda>_ _ s. Some s)) (\<lambda>_ _ s. Some s) 1 (Some [71, 69, 84]) 1 s = Some (3, s') \<and> trace s' = [Tcp_write 10 [71, 69, 84] 1]"
proof -
  let ?s = "upd 1 (\<lambda>k. k\<lparr>c_pcb := Some 10, c_hooks := Some (new_session calm_mbed [])\<rparr>) boot :: tsys"
  have "\<exists>s'. add calm (secure_hooks calm calm_mbed (\<lambda>_ _ s. Some s)) (\<lambda>_ _ s. Some s) 1 (Some [71, 69, 84]) 1 ?s = Some (length [71, 69, 84 :: u8], s')
    \<and> trace s' = trace ?s @ [Tcp_write 10 [71, 69, 84] 1]"
    by (rule plaintext_before_handshake [where x = "new_session calm_mbed []"])
      (simp_all add: new_session_def space_def calm_def boot_def)
  moreover have "trace ?s = []" by (simp add: boot_def)
  ultimately show ?thesis by (metis append_Nil length_Cons list.size(3) numeral_3_eq_3)
qed

end
