(* ===== verification/Dispatch.thy ===== *)
theory Dispatch
  imports Secure_Client
begin

text \<open>
  The service task of \<open>src/AsyncTCP.cpp\<close> (\<open>handle_async_event\<close>, the task loop, \<open>_process_async_event\<close>), and the
  whole system as a step relation: lwIP calls a callback, the application makes a call, an object is
  destroyed, or the service task handles one event. Steps are the units between which the core lock, or
  the single thread of the ESP8266, may change hands.
\<close>

section \<open>Handling an event\<close>

text \<open>\<open>delete\<close> of a client that no event and no lookup holds, by the library: the implementation goes with the facade.\<close>

definition drop_client :: "lwip \<Rightarrow> ('h, 'm) hooks \<Rightarrow> ('h, 'm) runner \<Rightarrow> cid \<Rightarrow> ('h, 'm) sys_scheme \<Rightarrow> ('h, 'm) sys_scheme option" where
  "drop_client E H cb c s =
     do {
       s1 \<leftarrow> close_facade E H cb c s;
       destroy_impl E H cb c s1
     }"

text \<open>
  The handler of an event of a client, and the whole dispatch. The event holds the implementation while its handler runs
  (\<open>pin\<close>); then it is freed, and with it perhaps the last reference. Of the buffers only those of an event without a client are still
  the event's: the received ones were given away.
\<close>

definition dispatch_client ::
  "lwip \<Rightarrow> ('h, 'm) hooks \<Rightarrow> ('h, 'm) runner \<Rightarrow> cid \<Rightarrow> event \<Rightarrow> ('h, 'm) sys_scheme \<Rightarrow> ('h, 'm) sys_scheme option" where
  "dispatch_client E H cb c e s =
     (if c_dead (cl s c) then Some s
      else
        case ev e of
          LWIP_TCP_RECV p pb err \<Rightarrow> recv_impl E H cb c pb s
        | LWIP_TCP_FIN p err \<Rightarrow> fin_impl E H cb c s
        | LWIP_TCP_SENT p len \<Rightarrow> sent_impl E H cb c len s
        | LWIP_TCP_POLL p \<Rightarrow> poll_impl E H cb c p s
        | LWIP_TCP_ERROR err \<Rightarrow> error_impl cb c err s
        | LWIP_TCP_CONNECTED p err \<Rightarrow> connected_impl E H cb c (Some p) s
        | LWIP_TCP_DNS addr \<Rightarrow>
            if c_dns_token (cl s c) = ev_dns_token e then dns_found E cb c addr s else Some s
        | LWIP_TCP_ACCEPT \<Rightarrow> Some s)"

definition handle_async_event ::
  "lwip \<Rightarrow> ('h, 'm) hooks \<Rightarrow> ('h, 'm) srv_hooks \<Rightarrow> ('h, 'm) runner \<Rightarrow> ('h, 'm) client_runner \<Rightarrow> event \<Rightarrow> ('h, 'm) sys_scheme \<Rightarrow> ('h, 'm) sys_scheme option" where
  "handle_async_event E H V cb ccb e s =
     (case (ev_impl e, ev_client e) of
        (None, None) \<Rightarrow> Some (logs (free_event e) s)
      | (Some c, _) \<Rightarrow> dispatch_client E H cb c e (pin c s) \<bind> (\<lambda>s1. release E H cb c (unpin c s1))
      | (None, Some c) \<Rightarrow>
          (case ev_server e of
             Some v \<Rightarrow>
               if sv_session (servers s v) = ev_epoch e then accepted_impl V ccb v c s
               else abort E H cb c s \<bind> (\<lambda>(_, s1). drop_client E H cb c s1)
           | None \<Rightarrow> abort E H cb c s \<bind> (\<lambda>(_, s1). drop_client E H cb c s1)))"

section \<open>The service task\<close>

text \<open>One round: take an event (which may drop polls), handle it. \<open>None\<close> in the first case: the queue was empty.\<close>

definition serve_one ::
  "lwip \<Rightarrow> ('h, 'm) hooks \<Rightarrow> ('h, 'm) srv_hooks \<Rightarrow> ('h, 'm) runner \<Rightarrow> ('h, 'm) client_runner \<Rightarrow> ('h, 'm) sys_scheme \<Rightarrow> ('h, 'm) sys_scheme option" where
  "serve_one E H V cb ccb s =
     (case get_async_event (rng s) (queue s) of (r, q, rng') \<Rightarrow>
        let s1 = s\<lparr>queue := q, rng := rng'\<rparr>
        in case r of None \<Rightarrow> Some s1 | Some e \<Rightarrow> handle_async_event E H V cb ccb e s1)"

text \<open>\<open>_async_service_task\<close> until the queue is empty.\<close>

partial_function (option) service_task ::
  "lwip \<Rightarrow> ('h, 'm) hooks \<Rightarrow> ('h, 'm) srv_hooks \<Rightarrow> ('h, 'm) runner \<Rightarrow> ('h, 'm) client_runner \<Rightarrow> ('h, 'm) sys_scheme \<Rightarrow> ('h, 'm) sys_scheme option" where
  "service_task E H V cb ccb s =
     (if queue s = [] then Some s
      else serve_one E H V cb ccb s \<bind> (\<lambda>s1. service_task E H V cb ccb s1))"

text \<open>\<open>_process_async_event\<close> of the ESP8266, run by the scheduler.\<close>

definition process_async_event ::
  "lwip \<Rightarrow> ('h, 'm) hooks \<Rightarrow> ('h, 'm) srv_hooks \<Rightarrow> ('h, 'm) runner \<Rightarrow> ('h, 'm) client_runner \<Rightarrow> ('h, 'm) sys_scheme \<Rightarrow> ('h, 'm) sys_scheme option" where
  "process_async_event E H V cb ccb s =
     do {
       s1 \<leftarrow> serve_one E H V cb ccb (s\<lparr>scheduled := scheduled s - 1\<rparr>);
       Some (if length (queue s1) > 0 then schedule_process E s1 else s1)
     }"

section \<open>The system\<close>

text \<open>
  A step relation over the environment, the hooks and the application. An application call is one
  command. The application's own \<open>delete\<close> and the end of an event destroy an object within their step; the references that end elsewhere, the context of
  a name lookup and a poll that \<open>_get_async_event\<close> discards, are followed by \<open>release\<close> in a step of its own.
\<close>

inductive sys_step ::
  "lwip \<Rightarrow> ('h, 'm) hooks \<Rightarrow> ('h, 'm) srv_hooks \<Rightarrow> ('h, 'm) runner \<Rightarrow> ('h, 'm) client_runner \<Rightarrow> ('h, 'm) sys_scheme \<Rightarrow> ('h, 'm) sys_scheme \<Rightarrow> bool"
  for E :: lwip and H :: "('h, 'm) hooks" and V :: "('h, 'm) srv_hooks" and cb :: "('h, 'm) runner" and ccb :: "('h, 'm) client_runner" where
  Connected: "tcp_connected E c p e s = (r, s') \<Longrightarrow> sys_step E H V cb ccb s s'"
| Poll: "tcp_poll E c p s = (r, s') \<Longrightarrow> sys_step E H V cb ccb s s'"
| Recv: "tcp_recv E c p pb e s = (r, s') \<Longrightarrow> sys_step E H V cb ccb s s'"
| Sent: "tcp_sent E c p n s = (r, s') \<Longrightarrow> sys_step E H V cb ccb s s'"
| Error: "tcp_error E H c e s = Some s' \<Longrightarrow> sys_step E H V cb ccb s s'"
| Dns: "tcp_dns_found E c tok addr s = s' \<Longrightarrow> sys_step E H V cb ccb s s'"
| Accept: "tcp_accept E V g v p e s = Some (r, s') \<Longrightarrow> sys_step E H V cb ccb s s'"
| Call: "exec E H cb x s = Some s' \<Longrightarrow> sys_step E H V cb ccb s s'"
| Destroy: "release E H cb c s = Some s' \<Longrightarrow> sys_step E H V cb ccb s s'"
| Serve: "\<not> no_sys E \<Longrightarrow> serve_one E H V cb ccb s = Some s' \<Longrightarrow> sys_step E H V cb ccb s s'"
| Process: "no_sys E \<Longrightarrow> scheduled s > 0 \<Longrightarrow> process_async_event E H V cb ccb s = Some s' \<Longrightarrow>
    sys_step E H V cb ccb s s'"

inductive reachable ::
  "lwip \<Rightarrow> ('h, unit) hooks \<Rightarrow> ('h, unit) srv_hooks \<Rightarrow> ('h, unit) runner \<Rightarrow> ('h, unit) client_runner \<Rightarrow> 'h sys \<Rightarrow> bool"
  for E :: lwip and H :: "('h, unit) hooks" and V :: "('h, unit) srv_hooks" and cb :: "('h, unit) runner" and ccb :: "('h, unit) client_runner" where
  start: "reachable E H V cb ccb boot"
| step: "reachable E H V cb ccb s \<Longrightarrow> sys_step E H V cb ccb s s' \<Longrightarrow> reachable E H V cb ccb s'"

inductive_cases sys_stepE: "sys_step E H V cb ccb s s'"

text \<open>The server hooks of the base class: everything falls through to plain TCP.\<close>

definition default_srv_hooks :: "('h, 'm) srv_hooks" where
  "default_srv_hooks = \<lparr>onAccept = (\<lambda>v p e s. Some (None, s)), onAccepted = (\<lambda>v c s. Some (None, s))\<rparr>"

section \<open>Invariants of the system\<close>

text \<open>Between steps no callback context is on any client's stack.\<close>

definition idle_ctx :: "('h, 'm) sys_scheme \<Rightarrow> bool" where
  "idle_ctx s \<longleftrightarrow> (\<forall>c. c_cb_ctx (cl s c) = [])"

text \<open>On the ESP8266, a queue with events in it has a scheduled run of \<open>_process_async_event\<close>.\<close>

definition woken :: "lwip \<Rightarrow> ('h, 'm) sys_scheme \<Rightarrow> bool" where
  "woken E s \<longleftrightarrow> (no_sys E \<longrightarrow> queue s \<noteq> [] \<longrightarrow> scheduled s > 0)"

text \<open>What handling an event does to both: it leaves no context behind, queues nothing and schedules nothing.\<close>

definition settles :: "('h, 'm) sys_scheme \<Rightarrow> ('h, 'm) sys_scheme \<Rightarrow> bool" where
  "settles s s' \<longleftrightarrow> (idle_ctx s \<longrightarrow> idle_ctx s') \<and> set (queue s') \<subseteq> set (queue s) \<and> scheduled s' = scheduled s"

lemma settles_refl [simp]: "settles s s"
  by (simp add: settles_def)

lemma settles_trans: "settles a b \<Longrightarrow> settles b c \<Longrightarrow> settles a c"
  by (auto simp: settles_def)

lemma evolves_settles: "evolves s s' \<Longrightarrow> settles s s'"
proof -
  assume ev: "evolves s s'"
  have "idle_ctx s'" if "idle_ctx s"
    unfolding idle_ctx_def
  proof
    fix c
    have "length (c_cb_ctx (cl s' c)) = length (c_cb_ctx (cl s c))" by (rule evolves_ctx_length [OF ev])
    then show "c_cb_ctx (cl s' c) = []" using that by (simp add: idle_ctx_def)
  qed
  then show "settles s s'" using ev by (simp add: settles_def evolves_def)
qed

lemma settles_upd: "(c_cb_ctx (cl s c) = [] \<Longrightarrow> c_cb_ctx (f (cl s c)) = []) \<Longrightarrow> settles s (upd c f s)"
  by (auto simp: settles_def idle_ctx_def)

lemma settles_woken: "settles s s' \<Longrightarrow> woken E s \<Longrightarrow> woken E s'"
  by (auto simp: settles_def woken_def)

lemma settles_idle: "settles s s' \<Longrightarrow> idle_ctx s \<Longrightarrow> idle_ctx s'"
  by (simp add: settles_def)

lemma queue_packet_woken:
  assumes "\<And>t. schedule_ok E t" and "woken E s"
  shows "woken E (snd (queue_packet E e s))"
  using assms by (cases "queue s") (auto simp: woken_def queue_packet_def new_object_def send_event_def
      send_async_event_def wake_def schedule_process_def)

lemma prepend_woken:
  assumes "\<And>t. schedule_ok E t" and "woken E s"
  shows "woken E (prepend_event E e s)"
  using assms by (cases "queue s") (auto simp: woken_def prepend_event_def prepend_async_event_def wake_def schedule_process_def)

lemma idle_same: "clients s' = clients s \<Longrightarrow> idle_ctx s' = idle_ctx s"
  by (simp add: idle_ctx_def)

lemma woken_same: "queue s' = queue s \<Longrightarrow> scheduled s' = scheduled s \<Longrightarrow> woken E s' = woken E s"
  by (simp add: woken_def)

text \<open>Handling an event of a client comes back, when its hooks do with \<open>k\<close> levels of callbacks.\<close>

context leaf_hooks begin

lemma release_returns:
  assumes cb: "runner_safe k cb" and "finite (live s)" and "work s < Suc k"
  shows "\<exists>s'. release E H cb c s = Some s'"
proof -
  obtain s1 where s1: "(if hooked (mark_dead c s) c then map_option (clear_hooks c) (onDelete H c (mark_dead c s)) else Some (mark_dead c s)) = Some s1"
    "leaf_step (mark_dead c s) s1" by (rule destroy_hook)
  have ev: "evolves (mark_dead c s) s1" by (rule leaf_step_evolves [OF s1(2)])
  have l: "live (mark_dead c s) = live s" by (auto simp: live_def mark_dead_def)
  then have "work (mark_dead c s) = work s" by (simp add: work_def pending_def mark_dead_def)
  then have "finite (live s1)" "work s1 < Suc k"
    using evolves_finite [OF ev] evolves_work [OF ev] assms(2,3) l by auto
  then obtain r where "close_impl E H cb c s1 = Some r" using safe_total [OF close_impl_safe [OF cb]] by blast
  then show ?thesis unfolding release_def destroy_impl_def Let_def s1(1) by simp
qed

lemma destroy_settles:
  assumes runner: "runner_safe k cb" and "destroy_impl E H cb c s = Some s'"
  shows "settles s s'"
proof -
  obtain s1 where s1: "(if hooked (mark_dead c s) c then map_option (clear_hooks c) (onDelete H c (mark_dead c s)) else Some (mark_dead c s)) = Some s1"
    "leaf_step (mark_dead c s) s1" by (rule destroy_hook)
  from assms(2) obtain s2 where s2: "(if c_pcb (cl s1 c) \<noteq> None then map_option snd (close_impl E H cb c s1) else Some s1) = Some s2"
    and s': "s' = invalidate c s2"
    unfolding destroy_impl_def Let_def s1(1) by (auto simp only: bind_eq_Some_conv option.inject)
  have "settles s (mark_dead c s)" unfolding mark_dead_def by (rule settles_upd) simp
  moreover have "settles (mark_dead c s) s1" by (rule evolves_settles [OF leaf_step_evolves [OF s1(2)]])
  moreover have "settles s1 s2"
    using s2 by (auto split: if_splits intro!: evolves_settles dest: safe_evolves [OF close_impl_safe [OF runner]])
  moreover have "settles s2 s'" unfolding s' invalidate_def by (rule settles_upd) simp
  ultimately show ?thesis using settles_trans by blast
qed

lemma release_settles:
  assumes "runner_safe k cb" and "release E H cb c s = Some s'"
  shows "settles s s'"
  using assms destroy_settles [OF assms(1)] by (auto simp: release_def split: if_splits)

end

lemma settles_pin [simp]: "settles s (pin c s)" "settles s (unpin c s)"
  by (simp_all add: settles_def idle_ctx_def)

lemma settles_set_pcb: "settles s (set_pcb c p s)"
  unfolding set_pcb_def by (rule settles_upd) simp

context client_hooks begin

text \<open>The handlers evolve, once the pcb that a connection event brings is in place.\<close>

lemma dispatch_safe:
  assumes cb: "runner_safe k cb"
  shows "\<exists>p. safe k (set_pcb c p s) (\<lambda>x. x) (dispatch_client E H cb c e s)"
proof -
  have same: "set_pcb c (c_pcb (cl s c)) s = s" by (simp add: set_pcb_def upd_def)
  note here = exI [where x = "c_pcb (cl s c)" and P = "\<lambda>p. safe k (set_pcb c p s) (\<lambda>x. x) m" for m, unfolded same]
  show ?thesis
  proof (cases "c_dead (cl s c)")
    case True
    then show ?thesis by (intro here) (simp add: dispatch_client_def safe_Some)
  next
    case False
    show ?thesis
    proof (cases "ev e")
      case (LWIP_TCP_CONNECTED p x)
      with False show ?thesis using connected_safe [OF cb, of c "Some p" s E] by (intro exI [of _ "Some p"]) (simp add: dispatch_client_def)
    qed (use False in \<open>intro here, simp add: dispatch_client_def safe_Some sent_safe recv_safe fin_safe error_impl_safe poll_safe
        dns_found_safe cb\<close>)+
  qed
qed

text \<open>The event keeps the client alive: no callback of its handler destroys it, and nothing is read after its destruction.\<close>

lemma event_keeps_client:
  assumes cb: "runner_safe k cb" and run: "dispatch_client E H cb c e (pin c s) = Some s'"
  shows "c_dead (cl s' c) = c_dead (cl s c)" "\<not> c_dead (cl s c) \<Longrightarrow> c_freed_read (cl s' c) = c_freed_read (cl s c)"
proof -
  obtain p where "safe k (set_pcb c p (pin c s)) (\<lambda>x. x) (dispatch_client E H cb c e (pin c s))"
    using dispatch_safe [OF cb] by blast
  then have ev: "evolves (set_pcb c p (pin c s)) s'" using run by (rule safe_evolves)
  have pinned: "c_pins (cl (set_pcb c p (pin c s)) c) > 0" by (simp add: set_pcb_def pin_def)
  show dead: "c_dead (cl s' c) = c_dead (cl s c)" using evolves_pinned [OF ev pinned] by simp
  show "c_freed_read (cl s' c) = c_freed_read (cl s c)" if "\<not> c_dead (cl s c)"
    using that evolves_here [OF ev, of c] dead pinned by (auto simp: evolves_client_def set_pcb_def pin_def)
qed

lemma client_event_returns:
  assumes cb: "runner_safe k cb" and impl: "ev_impl e = Some c" and "finite (live s)" and "Suc (work s) < k"
  shows "\<exists>s'. handle_async_event E H V cb ccb e s = Some s'"
proof -
  have l: "live (pin c s) = live s" by (auto simp: live_def)
  have set: "finite (live (set_pcb c p (pin c s)))" "work (set_pcb c p (pin c s)) < k" for p
  proof -
    have sub: "live (set_pcb c p (pin c s)) \<subseteq> insert c (live s)" by (auto simp: live_def set_pcb_def)
    show fin: "finite (live (set_pcb c p (pin c s)))" by (rule finite_subset [OF sub]) (simp add: assms(3))
    have "card (live (set_pcb c p (pin c s))) \<le> Suc (card (live s))"
      using card_mono [OF _ sub] card_insert_le_m1 [of "Suc (card (live s))" "live s" c] assms(3) by (simp add: card_insert_if split: if_splits)
    moreover have "pending (set_pcb c p (pin c s)) = pending s" by (simp add: pending_def set_pcb_def)
    ultimately show "work (set_pcb c p (pin c s)) < k" using assms(4) by (simp add: work_def)
  qed
  obtain p where d: "safe k (set_pcb c p (pin c s)) (\<lambda>x. x) (dispatch_client E H cb c e (pin c s))"
    using dispatch_safe [OF cb] by blast
  obtain s1 where s1: "dispatch_client E H cb c e (pin c s) = Some s1" using safe_total [OF d set] by blast
  have ev: "evolves (set_pcb c p (pin c s)) s1" by (rule safe_evolves [OF d s1])
  have u: "live (unpin c s1) = live s1" by (auto simp: live_def)
  then have "finite (live (unpin c s1))" "work (unpin c s1) < Suc k"
    using evolves_finite [OF ev set(1)] evolves_work [OF ev set(1)] set(2) [of p] by (simp_all add: work_def pending_def)
  then obtain s2 where "release E H cb c (unpin c s1) = Some s2" using release_returns [OF cb] by blast
  then show ?thesis using impl s1 by (simp add: handle_async_event_def)
qed

end

text \<open>What the hook of a TLS server may do when lwIP offers a connection.\<close>

definition accept_ok :: "lwip \<Rightarrow> ('h, 'm) sys_scheme \<Rightarrow> ('h, 'm) sys_scheme \<Rightarrow> bool" where
  "accept_ok E s s' \<longleftrightarrow> (idle_ctx s \<longrightarrow> idle_ctx s') \<and> ((\<forall>t. schedule_ok E t) \<longrightarrow> woken E s \<longrightarrow> woken E s')"

context leaf_hooks begin

lemma drop_settles:
  assumes runner: "runner_safe k cb" and "drop_client E H cb c s = Some s'"
  shows "settles s s'"
proof -
  from assms(2) obtain s1 where "close_facade E H cb c s = Some s1" "destroy_impl E H cb c s1 = Some s'"
    by (auto simp: drop_client_def bind_eq_Some_conv)
  then show ?thesis
    using safe_evolves [OF close_facade_safe [OF runner]] destroy_settles [OF runner] evolves_settles settles_trans by blast
qed

end

locale world = client_hooks H k for H :: "('h, 'm) hooks" and k :: nat +
  fixes E :: lwip and V :: "('h, 'm) srv_hooks" and cb :: "('h, 'm) runner" and ccb :: "('h, 'm) client_runner"
  assumes runner: "runner_safe k cb"
    and client_runner: "safe k s (\<lambda>x. x) (ccb v h c s)"
    and accepted: "safe k s snd (onAccepted V v c s)"
    and accept: "onAccept V v p e s = Some (r, s') \<Longrightarrow> accept_ok E s s'"
begin

lemma accepted_safe: "safe k s (\<lambda>x. x) (accepted_impl V ccb v c s)"
  unfolding accepted_impl_def
  by (rule safe_bind [where f = snd])
    (auto simp: accepted safe_Some client_runner split: option.split)

lemma stale_accept_settles:
  assumes "abort E H cb c s \<bind> (\<lambda>(_, s1). drop_client E H cb c s1) = Some s'"
  shows "settles s s'"
proof -
  from assms obtain r s1 where a: "abort E H cb c s = Some (r, s1)" "drop_client E H cb c s1 = Some s'"
    by (auto simp: bind_eq_Some_conv)
  have "settles s s1" using evolves_settles [OF safe_evolves [OF abort_safe [OF runner] a(1)]] by simp
  then show ?thesis using drop_settles [OF runner a(2)] by (rule settles_trans)
qed

lemma client_event_settles:
  assumes "ev_impl e = Some c" and "handle_async_event E H V cb ccb e s = Some s'"
  shows "settles s s'"
proof -
  from assms obtain s1 where s1: "dispatch_client E H cb c e (pin c s) = Some s1" "release E H cb c (unpin c s1) = Some s'"
    by (auto simp: handle_async_event_def bind_eq_Some_conv)
  obtain p where "safe k (set_pcb c p (pin c s)) (\<lambda>x. x) (dispatch_client E H cb c e (pin c s))"
    using dispatch_safe [OF runner] by blast
  then have "evolves (set_pcb c p (pin c s)) s1" by (rule safe_evolves) (rule s1(1))
  then have "settles (pin c s) s1" by (rule settles_trans [OF settles_set_pcb evolves_settles])
  then have "settles s (unpin c s1)" by (rule settles_trans [OF settles_trans [OF settles_pin(1)] settles_pin(2)])
  then show ?thesis using release_settles [OF runner s1(2)] by (rule settles_trans)
qed

lemma handle_settles:
  assumes "handle_async_event E H V cb ccb e s = Some s'"
  shows "settles s s'"
proof (cases "ev_impl e")
  case None
  with assms show ?thesis
    by (auto simp: handle_async_event_def intro: evolves_settles evolves_log stale_accept_settles
        safe_evolves [OF accepted_safe] split: option.splits if_splits)
next
  case (Some c)
  then show ?thesis using assms by (rule client_event_settles)
qed

lemma serve_settles:
  assumes "serve_one E H V cb ccb s = Some s'"
  shows "settles s s'"
proof -
  obtain r q g where g: "get_async_event (rng s) (queue s) = (r, q, g)" by (metis prod_cases3)
  obtain ps where "queue s = ps @ q" using get_async_event_suffix [OF g] by blast
  then have "settles s (s\<lparr>queue := q, rng := g\<rparr>)" by (simp add: settles_def idle_ctx_def)
  then show ?thesis
    using assms g by (auto simp: serve_one_def Let_def split: option.splits intro: settles_trans handle_settles)
qed

end

lemma settles_accept_ok: "settles s s' \<Longrightarrow> accept_ok E s s'"
  by (auto simp: accept_ok_def settles_def woken_def)

lemma accept_ok_refl [simp]: "accept_ok E s s"
  by (simp add: accept_ok_def)

lemma accept_ok_trans: "accept_ok E a b \<Longrightarrow> accept_ok E b c \<Longrightarrow> accept_ok E a c"
  by (simp add: accept_ok_def)

lemma accept_ok_packet: "accept_ok E s (snd (queue_packet E e s))"
proof -
  have "idle_ctx (snd (queue_packet E e s)) = idle_ctx s" by (rule idle_same) simp
  then show ?thesis using queue_packet_woken [of E s e] by (auto simp: accept_ok_def)
qed

lemma accept_ok_rx: "accept_ok E s (touch_rx E c s)"
  by (rule settles_accept_ok) (simp add: evolves_settles evolves_touch_rx)

lemma accept_ok_rng: "accept_ok E s (s\<lparr>rng := x\<rparr>)"
  by (rule settles_accept_ok) (simp add: settles_def idle_ctx_def)

lemma setNoDelay_frame [simp]:
  "queue (setNoDelay b c s) = queue s" "scheduled (setNoDelay b c s) = scheduled s" "clients (setNoDelay b c s) = clients s"
  by (auto simp: setNoDelay_def split: option.splits)

lemma new_client_frame:
  "idle_ctx s \<Longrightarrow> idle_ctx (new_client E g c p s)" "queue (new_client E g c p s) = queue s"
  "scheduled (new_client E g c p s) = scheduled s" "servers (new_client E g c p s) = servers s"
  by (cases p; simp add: new_client_def Let_def idle_ctx_def init_client_def bind_tcp_callbacks_def set_pcb_def)+

lemma accept_ok_log: "accept_ok E s (log x s)"
  by (rule settles_accept_ok [OF evolves_settles [OF evolves_log(1)]])

lemma accept_ok_new: "accept_ok E s (new_client E g c p (s\<lparr>next_cid := n\<rparr>))"
proof -
  have "idle_ctx s \<Longrightarrow> idle_ctx (new_client E g c p (s\<lparr>next_cid := n\<rparr>))"
    by (rule new_client_frame(1)) (simp add: idle_ctx_def)
  then show ?thesis by (simp add: accept_ok_def woken_def new_client_frame)
qed

lemma accept_ok_queue: "accept_ok E s (snd (queueAcceptEvent E v c s))"
proof -
  have idle: "idle_ctx s \<Longrightarrow> idle_ctx (snd (queueAcceptEvent E v c s))"
    by (simp add: queueAcceptEvent_def new_object_def prepend_event_def idle_ctx_def)
  have "woken E (snd (queueAcceptEvent E v c s))" if "\<forall>t. schedule_ok E t" "woken E s"
  proof -
    have w: "woken E (log New_object s)" using that(2) by (simp add: woken_def)
    show ?thesis
      using w prepend_woken [of E "log New_object s"] that(1) by (simp add: queueAcceptEvent_def new_object_def)
  qed
  with idle show ?thesis by (simp add: accept_ok_def)
qed

lemma accept_ok_plain: "accept_ok E s (snd (accept_plain E g v p s))"
proof -
  define s2 where "s2 = log New_object s"
  define s3 where "s3 = new_client E g (next_cid s2) (Some p) (s2\<lparr>next_cid := Suc (next_cid s2)\<rparr>)"
  define s4 where "s4 = setNoDelay (sv_noDelay (servers s3 v)) (next_cid s2) s3"
  define s5 where "s5 = snd (queueAcceptEvent E v (next_cid s2) s4)"
  have "accept_ok E s s2" unfolding s2_def by (rule accept_ok_log)
  moreover have "accept_ok E s2 s3" unfolding s3_def by (rule accept_ok_new)
  moreover have "accept_ok E s3 s4" by (simp add: s4_def accept_ok_def idle_ctx_def woken_def)
  moreover have "accept_ok E s4 s5" unfolding s5_def by (rule accept_ok_queue)
  ultimately have 5: "accept_ok E s s5" by (meson accept_ok_trans)
  have "accept_ok E s5 (set_pcb c None s5)" for c
    by (rule settles_accept_ok [OF evolves_settles [OF evolves_set_pcb_None]])
  then have 6: "accept_ok E s (log (Tcp_abort p) (set_pcb c None s5))" for c
    by (meson 5 accept_ok_trans accept_ok_log)
  have 7: "accept_ok E s (log (Tcp_abort p) s2)" unfolding s2_def by (meson accept_ok_trans accept_ok_log)
  show ?thesis
    using 5 6 7 accept_ok_log [of E s "Tcp_abort p"]
    by (simp add: accept_plain_def new_object_def Let_def s2_def [symmetric] s3_def [symmetric] s4_def [symmetric]
        s5_def [symmetric] split_beta)
qed

context world begin

lemma accept_accept_ok:
  assumes "tcp_accept E V g v po e s = Some (r, s')"
  shows "accept_ok E s s'"
proof (cases po)
  case None
  with assms show ?thesis by (simp add: tcp_accept_def)
next
  case (Some p)
  with assms obtain x s1 where h: "(if sv_tls_hooks (servers s v) then onAccept V v p e s else Some (None, s)) = Some (x, s1)"
    and s': "s' = (case x of Some _ \<Rightarrow> s1 | None \<Rightarrow> snd (accept_plain E g v p s1))"
    by (auto simp: tcp_accept_def bind_eq_Some_conv split: option.splits)
  have "accept_ok E s s1" using h accept by (auto split: if_splits)
  then show ?thesis using s' accept_ok_trans [OF _ accept_ok_plain] by (cases x) auto
qed

lemma error_accept_ok:
  assumes "tcp_error E H c e s = Some s'"
  shows "accept_ok E s s'"
proof -
  obtain s1 where h: "(if hooked s c then onError H c e s else Some s) = Some s1" "evolves s s1"
    using error [of c e s] leaf_step_evolves by (cases "hooked s c") auto
  define s2 where "s2 = (if c_pcb (cl s c) \<noteq> None then set_pcb c None (snd (remove_events c s1)) else s)"
  have "evolves s1 (set_pcb c None (snd (remove_events c s1)))"
    by (rule evolves_trans [OF evolves_remove evolves_set_pcb_None])
  then have "evolves s s2" using h(2) by (auto simp: s2_def intro: evolves_trans)
  moreover have "s' = snd (queue_packet E (client_packet (LWIP_TCP_ERROR e) c) s2)"
    using assms h(1) by (auto simp: tcp_error_def s2_def split: if_splits)
  ultimately show ?thesis
    using accept_ok_packet settles_accept_ok evolves_settles accept_ok_trans by blast
qed

lemma exec_settles: "exec E H cb x s = Some s' \<Longrightarrow> settles s s'"
  by (rule evolves_settles [OF safe_evolves [OF exec_safe [OF runner]]])

lemma process_accept_ok:
  assumes "no_sys E" and "process_async_event E H V cb ccb s = Some s'"
  shows "(idle_ctx s \<longrightarrow> idle_ctx s') \<and> ((\<forall>t. schedule_ok E t) \<longrightarrow> woken E s')"
proof -
  from assms(2) obtain s1 where s1: "serve_one E H V cb ccb (s\<lparr>scheduled := scheduled s - 1\<rparr>) = Some s1"
    and s': "s' = (if length (queue s1) > 0 then schedule_process E s1 else s1)"
    by (auto simp: process_async_event_def bind_eq_Some_conv)
  have "settles (s\<lparr>scheduled := scheduled s - 1\<rparr>) s1" by (rule serve_settles [OF s1])
  then have "idle_ctx s \<longrightarrow> idle_ctx s1" by (simp add: settles_def idle_ctx_def)
  then show ?thesis
    unfolding s' by (auto simp: schedule_process_def idle_ctx_def woken_def)
qed

lemma step_accept_ok:
  assumes "sys_step E H V cb ccb s s'"
  shows "accept_ok E s s'"
  using assms
proof (cases rule: sys_step.cases)
  case (Connected c p e r)
  then have "s' = snd (queue_packet E (client_packet (LWIP_TCP_CONNECTED p e) c) (touch_rx E c s))"
    by (metis snd_conv tcp_connected_def)
  then show ?thesis using accept_ok_rx accept_ok_packet accept_ok_trans by blast
next
  case (Poll c p r)
  then have "s' = s\<lparr>rng := xor_shift_next (rng s)\<rparr>
     \<or> s' = snd (queue_packet E (client_packet (LWIP_TCP_POLL p) c) (s\<lparr>rng := xor_shift_next (rng s)\<rparr>))"
    by (auto simp: tcp_poll_def Let_def split: if_splits)
  then show ?thesis by (auto intro: accept_ok_rng accept_ok_trans [OF accept_ok_rng accept_ok_packet])
next
  case (Recv c p pb e r)
  then have "s' = snd (queue_packet E (client_packet (if pb \<noteq> [] then LWIP_TCP_RECV p pb e else LWIP_TCP_FIN p e) c) (touch_rx E c s))"
    by (metis snd_conv tcp_recv_def touch_rx_def)
  then show ?thesis using accept_ok_rx accept_ok_packet accept_ok_trans by blast
next
  case (Sent c p n r)
  then show ?thesis using accept_ok_packet by (metis snd_conv tcp_sent_def)
next
  case (Error c e)
  then show ?thesis by (rule error_accept_ok)
next
  case (Dns c tok addr)
  have u: "accept_ok E t (unpin c t)" for t by (rule settles_accept_ok [OF settles_pin(2)])
  have "accept_ok E s (unpin c (snd (queue_packet E x s)))" for x by (rule accept_ok_trans [OF accept_ok_packet u])
  then show ?thesis using Dns [symmetric] u by (cases "c_dns_token (cl s c) = Some tok") (simp_all add: tcp_dns_found_def Let_def)
next
  case (Accept g v p e r)
  then show ?thesis by (rule accept_accept_ok)
next
  case (Call x)
  then show ?thesis by (rule settles_accept_ok [OF exec_settles])
next
  case (Destroy c)
  then show ?thesis by (intro settles_accept_ok release_settles [OF runner])
next
  case Serve
  then show ?thesis by (intro settles_accept_ok serve_settles)
next
  case Process
  then show ?thesis using process_accept_ok by (auto simp: accept_ok_def)
qed

end

text \<open>A world whose state has no more than the fields of \<open>sys\<close>, from the state before the first call.\<close>

locale booted = world H k E V cb ccb
  for H :: "('h, unit) hooks" and k :: nat and E :: lwip and V :: "('h, unit) srv_hooks" and cb :: "('h, unit) runner"
    and ccb :: "('h, unit) client_runner"
begin

lemma reachable_idle: "reachable E H V cb ccb s \<Longrightarrow> idle_ctx s"
proof (induction rule: reachable.induct)
  case start
  show ?case by (simp add: idle_ctx_def boot_def init_client_def)
next
  case (step s s')
  then show ?case using step_accept_ok by (auto simp: accept_ok_def)
qed

lemma reachable_woken: "reachable E H V cb ccb s \<Longrightarrow> (\<forall>t. schedule_ok E t) \<longrightarrow> woken E s"
proof (induction rule: reachable.induct)
  case start
  show ?case by (simp add: woken_def boot_def)
next
  case (step s s')
  then show ?case using step_accept_ok by (auto simp: accept_ok_def)
qed

end

text \<open>The two worlds: plain TCP, and TLS clients over mbedTLS; the servers are plain.\<close>

interpretation plain_world: booted default_hooks k E default_srv_hooks "fire E default_hooks app k"
    "fire_client E default_hooks app k" for E app k
  by unfold_locales
    (auto simp: plain.fire_safe default_srv_hooks_def safe_Some intro: safe_mono [OF plain.fire_client_safe])

interpretation tls_world: booted "secure_hooks E M (tls_fire E M app n)" 0 E default_srv_hooks "tls_fire E M app n"
    "fire_client E (leaf_tls E M) app n" for E M app n
  by unfold_locales
    (auto simp: default_srv_hooks_def safe_Some intro: safe_mono [OF leaf.fire_client_safe] runner_safe_mono [OF tls_fire_safe])

end
