(* ===== verification/Secure_Server.thy ===== *)
theory Secure_Server
  imports Dispatch
begin

text \<open>
  The TLS server of the ESP32 build (\<open>SecureServerHooks\<close> in \<open>src/AsyncSecureServer.cpp\<close>): admission against the number
  of live TLS sessions, the callbacks of a parked connection, promotion from the park queue (theory \<open>Park_Queue\<close>), the
  TLS session of an accepted client, and \<open>beginSecure\<close>. A server is its number; the argument the code registers
  with lwIP for a parked pcb is its hooks object, which has the same number.
\<close>

section \<open>Configuration\<close>

definition SSL_MAX_CONNECTIONS :: int where "SSL_MAX_CONNECTIONS = 2"
definition SSL_QUEUE_IDLE_MS :: u32 where "SSL_QUEUE_IDLE_MS = 20000"
definition SSL_MBED_SERVE_FLOOR :: nat where "SSL_MBED_SERVE_FLOOR = 90000"

abbreviation sctx :: "tsys \<Rightarrow> sid \<Rightarrow> sec_ctx" where
  "sctx s v \<equiv> ctxs (park s) v"

definition set_park :: "park \<Rightarrow> tsys \<Rightarrow> tsys" where
  "set_park P s = s\<lparr>park := P\<rparr>"

text \<open>\<open>_use_ssl && _cert && _key\<close>\<close>

definition tls_configured :: "tsys \<Rightarrow> sid \<Rightarrow> bool" where
  "tls_configured s v \<longleftrightarrow> sc_use_ssl (sctx s v) \<and> sc_cert (sctx s v) \<noteq> None \<and> sc_key (sctx s v) \<noteq> None"

definition liveServeCount :: "tsys \<Rightarrow> int" where
  "liveServeCount s = tls_active s"

section \<open>Helpers of the hooks' base class\<close>

definition notifyClient :: "(session, unit) client_runner \<Rightarrow> sid \<Rightarrow> cid \<Rightarrow> tsys \<Rightarrow> tsys option" where
  "notifyClient ccb v c s = (case sv_connect_cb (servers s v) of None \<Rightarrow> Some s | Some h \<Rightarrow> ccb v h c s)"

definition doPromote :: "cid \<Rightarrow> sid \<Rightarrow> tsys \<Rightarrow> tsys" where
  "doPromote c v = upd c (\<lambda>k. k\<lparr>c_server_discard_cb := Some v\<rparr>)"

definition stageStaged :: "cid \<Rightarrow> pbuf list \<Rightarrow> tsys \<Rightarrow> tsys" where
  "stageStaged c staged = upd c (\<lambda>k. k\<lparr>c_ssl_pending := staged\<rparr>)"

definition takeStaged :: "cid \<Rightarrow> tsys \<Rightarrow> pbuf list \<times> tsys" where
  "takeStaged c s = (c_ssl_pending (cl s c), upd c (\<lambda>k. k\<lparr>c_ssl_pending := []\<rparr>) s)"

definition feedPbuf :: "lwip \<Rightarrow> (session, unit) hooks \<Rightarrow> (session, unit) runner \<Rightarrow> cid \<Rightarrow> pbuf list \<Rightarrow> tsys \<Rightarrow> tsys option" where
  "feedPbuf E H cb c pb s = (if c_pcb (cl s c) \<noteq> None then recv_impl E H cb c pb s else Some s)"

definition detachPcb :: "cid \<Rightarrow> tsys \<Rightarrow> tsys" where
  "detachPcb c = set_pcb c None"

section \<open>Admission and promotion\<close>

text \<open>
  \<open>_serveTls\<close>: the client of an accepted pcb and its accept event. The pcb is never null: it is the one lwIP
  offers or that of a parked connection. \<open>garbage\<close> is the uninitialised memory of the new object.
\<close>

definition serveTls :: "lwip \<Rightarrow> u32 \<Rightarrow> sid \<Rightarrow> pcb \<Rightarrow> pbuf list \<Rightarrow> tsys \<Rightarrow> err \<times> tsys" where
  "serveTls E garbage v p staged s =
     (case new_object E s of (ok, s1) \<Rightarrow>
        if \<not> ok then (ERR_ABRT, log (Tcp_abort p) s1)
        else
          let c = next_cid s1;
              s2 = new_client E garbage c (Some p) (s1\<lparr>next_cid := Suc c\<rparr>);
              s3 = setNoDelay (sv_noDelay (servers s2 v)) c s2;
              s4 = doPromote c v s3;
              s5 = (if staged \<noteq> [] then stageStaged c staged s4 else s4)
          in case queueAcceptEvent E v c s5 of (queued, s6) \<Rightarrow>
               if queued then (ERR_OK, s6)
               else (ERR_ABRT, log (Tcp_abort p) (detachPcb c s6)))"

definition acceptTls :: "lwip \<Rightarrow> u32 \<Rightarrow> sid \<Rightarrow> pcb \<Rightarrow> tsys \<Rightarrow> (err \<times> tsys) option" where
  "acceptTls E garbage v p s =
     (if \<not> tls_configured s v then Some (serveTls E garbage v p [] s)
      else if liveServeCount s \<ge> SSL_MAX_CONNECTIONS
      then if sc_parked (sctx s v) < int SSL_PARKED_SLOTS
           then (case park_conn v p (millis E (trace s)) (park s) of
                   None \<Rightarrow> None
                 | Some P \<Rightarrow>
                     Some (ERR_OK, logs [Tcp_arg p (Some v), Tcp_poll p True, Tcp_recv p True, Tcp_err p True] (set_park P s)))
           else Some (ERR_ABRT, log (Tcp_abort p) s)
      else Some (serveTls E garbage v p [] s))"

definition promoteSlot :: "lwip \<Rightarrow> u32 \<Rightarrow> sid \<Rightarrow> tsys \<Rightarrow> err \<times> tsys" where
  "promoteSlot E garbage v s =
     (case sc_pending (sctx s v) of
        None \<Rightarrow> (ERR_OK, s)
      | Some i \<Rightarrow>
          if liveServeCount s \<ge> SSL_MAX_CONNECTIONS then (ERR_OK, s)
          else
            let p = the (pp_pcb (pool (park s) i));
                staged = pp_pb (pool (park s) i);
                s1 = set_park (pop_parked v i (park s)) s
            in case serveTls E garbage v p staged s1 of (r, s2) \<Rightarrow>
                 (r, if r \<noteq> ERR_OK \<and> staged \<noteq> [] then log (Pbuf_free staged) s2 else s2))"

definition conn_done :: "lwip \<Rightarrow> u32 \<Rightarrow> sid \<Rightarrow> tsys \<Rightarrow> tsys" where
  "conn_done E garbage v s = snd (promoteSlot E garbage v s)"

section \<open>The callbacks of a parked connection\<close>

definition s_poll :: "lwip \<Rightarrow> u32 \<Rightarrow> sid \<Rightarrow> pcb \<Rightarrow> tsys \<Rightarrow> (err \<times> tsys) option" where
  "s_poll E garbage v p s =
     (case find_pending (park s) p (sc_pending (sctx s v)) of
        None \<Rightarrow> None
      | Some None \<Rightarrow> Some (ERR_ABRT, logs (shed_parked_pcb p) s)
      | Some (Some i) \<Rightarrow>
          if millis E (trace s) - pp_ms (pool (park s) i) > SSL_QUEUE_IDLE_MS
          then (case drop_parked v i (park s) of
                  None \<Rightarrow> None
                | Some P \<Rightarrow> Some (ERR_ABRT, logs (free_pb (pp_pb (pool (park s) i)) @ shed_parked_pcb p) (set_park P s)))
          else if sc_pending (sctx s v) = Some i \<and> liveServeCount s < SSL_MAX_CONNECTIONS
          then Some (promoteSlot E garbage v s)
          else Some (ERR_OK, s))"

definition s_recv :: "sid \<Rightarrow> pcb \<Rightarrow> pbuf list \<Rightarrow> tsys \<Rightarrow> (err \<times> tsys) option" where
  "s_recv v p pb s =
     (case find_pending (park s) p (sc_pending (sctx s v)) of
        None \<Rightarrow> None
      | Some None \<Rightarrow> Some (ERR_OK, logs (free_pb pb) s)
      | Some (Some i) \<Rightarrow>
          if pb = []
          then (case drop_parked v i (park s) of
                  None \<Rightarrow> None
                | Some P \<Rightarrow> Some (ERR_ABRT, logs (free_pb (pp_pb (pool (park s) i)) @ shed_parked_pcb p) (set_park P s)))
          else (case rx_parked i pb (park s) of (calls, P) \<Rightarrow> Some (ERR_OK, logs calls (set_park P s))))"

definition s_error :: "sid \<Rightarrow> tsys \<Rightarrow> tsys option" where
  "s_error v s =
     (if sc_pending (sctx s v) \<noteq> None
      then (case free_queued_items v [] (park s) of None \<Rightarrow> None | Some (calls, P) \<Rightarrow> Some (logs calls (set_park P s)))
      else Some s)"

section \<open>The session of an accepted client\<close>

definition ensureParsed :: "mbed \<Rightarrow> call list \<Rightarrow> u8 list option \<Rightarrow> u8 list option \<Rightarrow> string option \<Rightarrow> sec_ctx \<Rightarrow> int \<times> sec_ctx" where
  "ensureParsed M t cert key password x =
     (if sc_parsed x then (0, x)
      else case (cert, key) of
        (Some cb, Some kb) \<Rightarrow>
          if cb = [] \<or> kb = [] then (-1, x)
          else if m_crt_parse M t cb \<noteq> 0 then (m_crt_parse M t cb, x)
          else if m_parse_key M t kb password \<noteq> 0 then (m_parse_key M t kb password, x)
          else (0, x\<lparr>sc_parsed := True\<rparr>)
      | _ \<Rightarrow> (-1, x))"

definition startSSLServer :: "mbed \<Rightarrow> call list \<Rightarrow> pcb option \<Rightarrow> sec_ctx \<Rightarrow> session \<Rightarrow> int \<times> session" where
  "startSSLServer M t p srv x =
     (if \<not> sc_parsed srv \<or> p = None then (-1, x)
      else if m_config M t \<noteq> 0 then (m_config M t, x)
      else if m_setup M t \<noteq> 0 then (m_setup M t, x)
      else (0, x\<lparr>ss_pcb := p, ss_start_time := 0, ss_timeout := SSL_HANDSHAKE_TIMEOUT\<rparr>))"

text \<open>\<open>client->abort(); delete client;\<close>\<close>

definition refuse :: "lwip \<Rightarrow> (session, unit) hooks \<Rightarrow> (session, unit) runner \<Rightarrow> cid \<Rightarrow> tsys \<Rightarrow> tsys option" where
  "refuse E H cb c s = abort E H cb c s \<bind> (\<lambda>(_, s1). drop_client E H cb c s1)"

text \<open>
  The part of \<open>_acceptedTls\<close> between its test and the call of \<open>onClient\<close>: the flag says that the session was built, and
  the bytes staged while the connection was parked have been fed to it.
\<close>

definition build_session ::
  "lwip \<Rightarrow> mbed \<Rightarrow> (session, unit) hooks \<Rightarrow> (session, unit) runner \<Rightarrow> sid \<Rightarrow> cid \<Rightarrow> tsys \<Rightarrow> (bool \<times> tsys) option" where
  "build_session E M H cb v c s =
     (if free_heap E (trace s) < SSL_MBED_SERVE_FLOOR then map_option (Pair False) (refuse E H cb c s)
      else case new_object E s of (ok, s1) \<Rightarrow>
        if \<not> ok then map_option (Pair False) (refuse E H cb c s1)
        else
          let s2 = s1\<lparr>tls_active := tls_active s1 + 1\<rparr>;
              x0 = new_session M (trace s1)
          in case startSSLServer M (trace s2) (c_pcb (cl s2 c)) (sctx s2 v) x0 of (ret, x) \<Rightarrow>
            if ret \<noteq> 0 then map_option (Pair False) (refuse E H cb c (delete_session x s2))
            else case new_object E s2 of (ok2, s3) \<Rightarrow>
              if \<not> ok2 then map_option (Pair False) (refuse E H cb c (delete_session x s3))
              else
                let s4 = upd c (\<lambda>k. k\<lparr>c_hooks := Some x\<rparr>) s3
                in case takeStaged c s4 of (staged, s5) \<Rightarrow>
                     map_option (Pair True) (if staged \<noteq> [] then feedPbuf E H cb c staged s5 else Some s5))"

definition acceptedTls ::
  "lwip \<Rightarrow> mbed \<Rightarrow> (session, unit) hooks \<Rightarrow> (session, unit) runner \<Rightarrow> (session, unit) client_runner \<Rightarrow> sid \<Rightarrow> cid \<Rightarrow> tsys \<Rightarrow> (err option \<times> tsys) option" where
  "acceptedTls E M H cb ccb v c s =
     (if \<not> tls_configured s v then Some (None, s)
      else do {
        (go, s1) \<leftarrow> (if c_pcb (cl s c) \<noteq> None then build_session E M H cb v c s else Some (True, s));
        if go then map_option (Pair (Some ERR_OK)) (notifyClient ccb v c s1) else Some (Some ERR_ABRT, s1)
      })"

section \<open>The hooks and the runner of a TLS server\<close>

definition secure_srv_hooks ::
  "lwip \<Rightarrow> mbed \<Rightarrow> (session, unit) hooks \<Rightarrow> (session, unit) runner \<Rightarrow> (session, unit) client_runner \<Rightarrow> u32 \<Rightarrow> (session, unit) srv_hooks" where
  "secure_srv_hooks E M H cb ccb garbage =
     \<lparr>onAccept = (\<lambda>v p e s. map_option (\<lambda>(r, s'). (Some r, s')) (acceptTls E garbage v p s)),
      onAccepted = acceptedTls E M H cb ccb\<rparr>"

text \<open>The callback a server sets on its clients runs \<open>_conn_done\<close>; the others are the application's.\<close>

primrec sec_fire :: "lwip \<Rightarrow> (session, unit) hooks \<Rightarrow> u32 \<Rightarrow> (call list \<Rightarrow> cmd list) \<Rightarrow> nat \<Rightarrow> (session, unit) runner" where
  "sec_fire E H garbage app 0 = (\<lambda>c e s. None)"
| "sec_fire E H garbage app (Suc n) =
     (\<lambda>c e s. case e of
        Cb_server_discard v \<Rightarrow> Some (conn_done E garbage v s)
      | _ \<Rightarrow> (let s1 = log (App c (c_facade (cl s c)) e) s
              in exec_all E H (sec_fire E H garbage app n) (app (trace s1)) s1))"

section \<open>Starting a TLS server\<close>

definition setDefaultCertificate :: "sid \<Rightarrow> u8 list option \<Rightarrow> tsys \<Rightarrow> tsys" where
  "setDefaultCertificate v cert s = set_park (upd_ctx v (\<lambda>x. x\<lparr>sc_cert := cert\<rparr>) (park s)) s"

definition setDefaultKey :: "sid \<Rightarrow> u8 list option \<Rightarrow> tsys \<Rightarrow> tsys" where
  "setDefaultKey v key s = set_park (upd_ctx v (\<lambda>x. x\<lparr>sc_key := key\<rparr>) (park s)) s"

definition beginSecure_ctx :: "lwip \<Rightarrow> mbed \<Rightarrow> sid \<Rightarrow> u8 list option \<Rightarrow> u8 list option \<Rightarrow> tsys \<Rightarrow> bool \<times> tsys" where
  "beginSecure_ctx E M v cert key s =
     (if cert = None \<or> key = None then (False, s)
      else
        let s1 = setDefaultKey v key (setDefaultCertificate v cert s)
        in case ensureParsed M (trace s1) cert key (sc_key_password (sctx s1 v)) (sctx s1 v) of (ret, x) \<Rightarrow>
          let s2 = set_park (upd_ctx v (\<lambda>_. x) (park s1)) s1
          in if ret \<noteq> 0 then (False, s2)
             else
               let s3 = begin_server E v (set_park (upd_ctx v (\<lambda>x. x\<lparr>sc_use_ssl := True\<rparr>) (park s2)) s2)
               in (status E v s3 \<noteq> 0, s3))"

text \<open>\<open>AsyncServer::beginSecure\<close>: a PEM text is handed over with its terminating null.\<close>

definition server_beginSecure ::
  "lwip \<Rightarrow> mbed \<Rightarrow> sid \<Rightarrow> u8 list option \<Rightarrow> u8 list option \<Rightarrow> string option \<Rightarrow> tsys \<Rightarrow> bool \<times> tsys" where
  "server_beginSecure E M v cert key password s =
     (let s1 = upd_server v (\<lambda>x. x\<lparr>sv_tls_hooks := True\<rparr>) s;
          s2 = set_park (upd_ctx v (\<lambda>x. x\<lparr>sc_key_password := password\<rparr>) (park s1)) s1
      in beginSecure_ctx E M v (map_option (\<lambda>b. b @ [0]) cert) (map_option (\<lambda>b. b @ [0]) key) s2)"

section \<open>Frames\<close>

lemma new_client_frames [simp]:
  "park (new_client E g c p s) = park s" "tls_active (new_client E g c p s) = tls_active s"
  "servers (new_client E g c p s) = servers s" "queue (new_client E g c p s) = queue s"
  "next_cid (new_client E g c p s) = next_cid s"
  by (cases p; simp add: new_client_def Let_def bind_tcp_callbacks_def set_pcb_def)+

lemma new_client_other [simp]: "d \<noteq> c \<Longrightarrow> clients (new_client E g c p s) d = clients s d"
  by (cases p) (simp_all add: new_client_def Let_def bind_tcp_callbacks_def set_pcb_def)

lemma new_client_pcb [simp]: "c_pcb (clients (new_client E g c p s) c) = p"
  by (cases p) (simp_all add: new_client_def Let_def bind_tcp_callbacks_def set_pcb_def)

lemma wake_more [simp]: "park (wake E s) = park s" "tls_active (wake E s) = tls_active s"
  by (simp_all add: wake_def schedule_process_def)

lemma setNoDelay_more [simp]:
  "park (setNoDelay b c s) = park s" "tls_active (setNoDelay b c s) = tls_active s" "servers (setNoDelay b c s) = servers s"
  "next_cid (setNoDelay b c s) = next_cid s"
  by (auto simp: setNoDelay_def split: option.splits)

lemma hook_helpers [simp]:
  "clients (doPromote c v s) = (clients s)(c := (clients s c)\<lparr>c_server_discard_cb := Some v\<rparr>)"
  "clients (stageStaged c b s) = (clients s)(c := (clients s c)\<lparr>c_ssl_pending := b\<rparr>)"
  "queue (doPromote c v s) = queue s" "servers (doPromote c v s) = servers s" "park (doPromote c v s) = park s"
  "tls_active (doPromote c v s) = tls_active s" "next_cid (doPromote c v s) = next_cid s" "trace (doPromote c v s) = trace s"
  "queue (stageStaged c b s) = queue s" "servers (stageStaged c b s) = servers s" "park (stageStaged c b s) = park s"
  "tls_active (stageStaged c b s) = tls_active s" "next_cid (stageStaged c b s) = next_cid s" "trace (stageStaged c b s) = trace s"
  by (simp_all add: doPromote_def stageStaged_def)

lemma set_pcb_more [simp]:
  "park (set_pcb c p s) = park s" "tls_active (set_pcb c p s) = tls_active s" "next_cid (set_pcb c p s) = next_cid s"
  by (simp_all add: set_pcb_def)

lemma upd_server_park [simp]: "park (upd_server v f s) = park s"
  by (simp add: upd_server_def)

lemma close_or_abort_more [simp]: "park (close_or_abort E p s) = park s" "tls_active (close_or_abort E p s) = tls_active s"
  by (simp_all add: close_or_abort_def Let_def)

lemma end_server_more [simp]:
  "park (end_server E v s) = park s" "tls_active (end_server E v s) = tls_active s" "next_cid (end_server E v s) = next_cid s"
  "sv_pcb (servers (end_server E v s) v) = None"
  by (simp_all add: end_server_def Let_def split: option.split)

lemma set_park_simps [simp]:
  "clients (set_park P s) = clients s" "servers (set_park P s) = servers s" "queue (set_park P s) = queue s"
  "trace (set_park P s) = trace s" "next_cid (set_park P s) = next_cid s" "tls_active (set_park P s) = tls_active s"
  "park (set_park P s) = P"
  by (simp_all add: set_park_def)

lemma queueAccept_frames [simp]:
  "park (snd (queueAcceptEvent E v c s)) = park s" "tls_active (snd (queueAcceptEvent E v c s)) = tls_active s"
  "servers (snd (queueAcceptEvent E v c s)) = servers s" "clients (snd (queueAcceptEvent E v c s)) = clients s"
  "next_cid (snd (queueAcceptEvent E v c s)) = next_cid s"
  by (simp_all add: queueAcceptEvent_def new_object_def prepend_event_def)

text \<open>Serving a connection builds a client, not a session: the number of sessions and the park queue are untouched.\<close>

lemma serveTls_frames [simp]:
  "park (snd (serveTls E g v p b s)) = park s" "tls_active (snd (serveTls E g v p b s)) = tls_active s"
  "servers (snd (serveTls E g v p b s)) = servers s"
  "d \<noteq> next_cid s \<Longrightarrow> clients (snd (serveTls E g v p b s)) d = clients s d"
  by (simp_all add: serveTls_def new_object_def Let_def split_beta detachPcb_def)

text \<open>With memory for the client and its event, the client holds the pcb and the staged bytes, and is first in the queue.\<close>

lemma serveTls_ok:
  fixes g v p b and s :: tsys
  assumes "\<forall>t. alloc_ok E t"
  defines "s' \<equiv> snd (serveTls E g v p b s)" and "c \<equiv> next_cid s"
  shows "fst (serveTls E g v p b s) = ERR_OK" and "next_cid s' = Suc c"
    and "queue s' = accept_packet c v (sv_session (servers s v)) # queue s"
    and "c_pcb (cl s' c) = Some p" and "c_server_discard_cb (cl s' c) = Some v" and "c_ssl_pending (cl s' c) = b"
proof -
  have staged: "c_ssl_pending (clients (new_client E g c (Some p) x) c) = []" for x :: tsys
    by (simp add: new_client_def Let_def bind_tcp_callbacks_def set_pcb_def init_client_def)
  show "fst (serveTls E g v p b s) = ERR_OK" "next_cid s' = Suc c"
    "queue s' = accept_packet c v (sv_session (servers s v)) # queue s"
    "c_pcb (cl s' c) = Some p" "c_server_discard_cb (cl s' c) = Some v" "c_ssl_pending (cl s' c) = b"
    using assms(1) staged
    by (simp_all add: s'_def c_def serveTls_def new_object_def queueAcceptEvent_def prepend_event_def
        prepend_async_event_def Let_def split_beta)
qed

section \<open>States for the witnesses\<close>

text \<open>A TLS server whose two sessions are taken.\<close>

definition ready_park :: park where
  "ready_park = upd_ctx 0 (\<lambda>x. x\<lparr>sc_use_ssl := True, sc_cert := Some [1], sc_key := Some [2], sc_parsed := True\<rparr>) new_park"

definition full_server :: tsys where
  "full_server = boot\<lparr>tls_active := 2, park := ready_park\<rparr>"

lemma queue_is_ready: "queue_is 0 ready_park []"
proof -
  have "wf_park ready_park (\<lambda>_. [])"
    by (simp add: wf_park_def ready_park_def new_park_def new_sec_ctx_def SSL_PARKED_SLOTS_def)
  then show ?thesis unfolding queue_is_def by (intro exI [of _ "\<lambda>_. []"]) simp
qed

lemma one_parked: "\<exists>P. queue_is 0 P [(7, 0, [])]"
  using park_run_refines [OF queue_is_ready, of "[Park 7 0]"] by (auto simp: SSL_PARKED_SLOTS_def)

section \<open>Properties\<close>

text \<open>
  C38: admission of a TLS connection. As long as fewer than two sessions exist the connection is served; otherwise no client
  is made: the connection is parked at the end of the queue, with its callbacks set, or, when six are waiting, aborted, which lwIP is
  told by \<open>ERR_ABRT\<close>. (One TLS server; \<open>queue_is\<close> is the queue of theory \<open>Park_Queue\<close>.)
\<close>

theorem accept_admission:
  assumes "tls_configured s v" and "queue_is v (park s) xs"
  shows "case acceptTls E g v p s of None \<Rightarrow> False
    | Some (r, s') \<Rightarrow>
        if liveServeCount s < SSL_MAX_CONNECTIONS then (r, s') = serveTls E g v p [] s
        else clients s' = clients s \<and> queue s' = queue s \<and> next_cid s' = next_cid s
          \<and> queue_is v (park s') (fifo_step (Park p (millis E (trace s))) xs)
          \<and> r = (if length xs < SSL_PARKED_SLOTS then ERR_OK else ERR_ABRT)
          \<and> trace s' = trace s @ (if length xs < SSL_PARKED_SLOTS
              then [Tcp_arg p (Some v), Tcp_poll p True, Tcp_recv p True, Tcp_err p True] else [Tcp_abort p])"
proof (cases "liveServeCount s < SSL_MAX_CONNECTIONS")
  case True
  then show ?thesis using assms(1) by (cases "serveTls E g v p [] s") (simp add: acceptTls_def)
next
  case False
  obtain l where wf: "wf_park (park s) ((\<lambda>_. [])(v := l))" and xs: "xs = map (item_of (park s)) l"
    by (rule queue_isE [OF assms(2)])
  have len: "sc_parked (sctx s v) = int (length xs)" using wf_parkD(3) [OF wf, of v] xs by simp
  from park_step_refines [OF assms(2), of "Park p (millis E (trace s))"]
  obtain P where P: "park_step v (Park p (millis E (trace s))) (park s) = Some P"
    "queue_is v P (fifo_step (Park p (millis E (trace s))) xs)" by auto
  show ?thesis
  proof (cases "length xs < SSL_PARKED_SLOTS")
    case True
    then show ?thesis using False assms(1) P by (simp add: acceptTls_def len)
  next
    case full: False
    then show ?thesis using False assms by (simp add: acceptTls_def len)
  qed
qed

theorem accept_admission_witness:
  "case acceptTls calm 0 0 7 full_server of None \<Rightarrow> False
   | Some (r, s') \<Rightarrow> r = ERR_OK \<and> queue_is 0 (park s') [(7, 0, [])] \<and> queue s' = []"
proof -
  have "tls_configured full_server 0" "queue_is 0 (park full_server) []"
    by (simp_all add: tls_configured_def full_server_def queue_is_ready) (simp_all add: ready_park_def)
  from accept_admission [OF this, of calm 0 7] show ?thesis
    by (simp add: full_server_def liveServeCount_def SSL_MAX_CONNECTIONS_def SSL_PARKED_SLOTS_def boot_def calm_def
        split: option.splits prod.splits)
qed

text \<open>
  C39: promotion hands a connection over whole: the first in the queue, and no other, leaves it; its client holds its
  pcb and every byte that was buffered, calls the server back when it closes, and its accept event is the next to be
  handled.
\<close>

theorem promotion_hands_over:
  assumes "queue_is v (park s) ((p, ms, b) # xs)" and "liveServeCount s < SSL_MAX_CONNECTIONS" and "\<forall>t. alloc_ok E t"
  shows "case promoteSlot E g v s of (r, s') \<Rightarrow>
    r = ERR_OK \<and> queue_is v (park s') xs
    \<and> queue s' = accept_packet (next_cid s) v (sv_session (servers s v)) # queue s
    \<and> c_pcb (cl s' (next_cid s)) = Some p \<and> c_ssl_pending (cl s' (next_cid s)) = b
    \<and> c_server_discard_cb (cl s' (next_cid s)) = Some v"
proof -
  obtain l where wf: "wf_park (park s) ((\<lambda>_. [])(v := l))" and xs: "(p, ms, b) # xs = map (item_of (park s)) l"
    by (rule queue_isE [OF assms(1)])
  then obtain i l' where l: "l = i # l'" by (cases l) auto
  have i: "sc_pending (sctx s v) = Some i" "the (pp_pcb (pool (park s) i)) = p" "pp_pb (pool (park s) i) = b"
    using sc_pending_wf [OF wf, of v] xs by (auto simp: l item_of_def)
  define s1 where "s1 = set_park (pop_parked v i (park s)) s"
  have q: "queue_is v (park s1) xs"
    using park_step_refines [OF assms(1), of Promote] i(1) by (simp add: s1_def)
  have eq: "promoteSlot E g v s = serveTls E g v p b s1"
    using assms(2) serveTls_ok(1) [OF assms(3), of g v p b s1]
    by (simp add: promoteSlot_def i s1_def [symmetric] split_beta prod_eq_iff)
  show ?thesis
    unfolding eq using serveTls_ok [OF assms(3), of g v p b s1] q by (simp add: split_beta s1_def)
qed

theorem promotion_hands_over_witness:
  "\<exists>P. case promoteSlot calm 0 0 (set_park P boot) of (r, s') \<Rightarrow>
     r = ERR_OK \<and> queue_is 0 (park s') [] \<and> queue s' = [accept_packet 0 0 0] \<and> c_pcb (cl s' 0) = Some 7"
proof -
  obtain P where "queue_is 0 P [(7, 0, [])]" using one_parked by blast
  then have "queue_is 0 (park (set_park P boot)) [(7, 0, [])]" by simp
  then have "case promoteSlot calm 0 0 (set_park P boot) of (r, s') \<Rightarrow>
      r = ERR_OK \<and> queue_is 0 (park s') []
      \<and> queue s' = accept_packet (next_cid (set_park P boot)) 0 (sv_session (servers (set_park P boot) 0)) # queue (set_park P boot)
      \<and> c_pcb (cl s' (next_cid (set_park P boot))) = Some 7 \<and> c_ssl_pending (cl s' (next_cid (set_park P boot))) = []
      \<and> c_server_discard_cb (cl s' (next_cid (set_park P boot))) = Some 0"
    by (rule promotion_hands_over) (simp_all add: liveServeCount_def boot_def SSL_MAX_CONNECTIONS_def calm_def)
  then show ?thesis by (intro exI [of _ P]) (auto simp: boot_def new_server_def)
qed

text \<open>Accepting connections one after the other, before the service task runs.\<close>

fun accept_burst :: "lwip \<Rightarrow> u32 \<Rightarrow> sid \<Rightarrow> pcb list \<Rightarrow> tsys \<Rightarrow> tsys option" where
  "accept_burst E g v [] s = Some s"
| "accept_burst E g v (p # ps) s =
     (case acceptTls E g v p s of None \<Rightarrow> None | Some (r, s') \<Rightarrow> accept_burst E g v ps s')"

text \<open>
  C40: admission counts TLS sessions, but a session is only built when the accept event is handled. Of a burst of
  connections that arrives before that, every one is served, however many: each gets a client and an accept event, and none
  is parked.
\<close>

theorem burst_is_all_served:
  assumes "liveServeCount s < SSL_MAX_CONNECTIONS" and "\<forall>t. alloc_ok E t"
  shows "case accept_burst E g v ps s of None \<Rightarrow> False
    | Some s' \<Rightarrow> next_cid s' = next_cid s + length ps \<and> length (queue s') = length (queue s) + length ps
        \<and> park s' = park s \<and> liveServeCount s' = liveServeCount s"
  using assms(1)
proof (induction ps arbitrary: s)
  case (Cons p ps)
  define s1 where "s1 = snd (serveTls E g v p [] s)"
  have a: "acceptTls E g v p s = Some (ERR_OK, s1)"
    using Cons.prems serveTls_ok(1) [OF assms(2), of g v p "[]" s]
    by (cases "serveTls E g v p [] s") (auto simp: acceptTls_def s1_def)
  have s1: "next_cid s1 = Suc (next_cid s)" "length (queue s1) = Suc (length (queue s))" "park s1 = park s"
    "liveServeCount s1 = liveServeCount s"
    using serveTls_ok [OF assms(2), of g v p "[]" s] by (simp_all add: s1_def liveServeCount_def)
  then show ?case using Cons.IH [of s1] Cons.prems by (simp add: a split: option.splits)
qed simp

theorem burst_is_all_served_witness:
  "case accept_burst calm 0 0 [10, 11, 12, 13, 14] boot of None \<Rightarrow> False
   | Some s' \<Rightarrow> length (queue s') = 5 \<and> liveServeCount s' = 0"
  using burst_is_all_served [where s = boot and E = calm and g = 0 and v = 0 and ps = "[10, 11, 12, 13, 14]"]
  by (auto simp: liveServeCount_def boot_def SSL_MAX_CONNECTIONS_def calm_def split: option.splits)

text \<open>
  And nothing later checks the number again: given memory, the accepted client of a configured server gets its session
  whatever the number of sessions already is, so a burst ends with more sessions than \<open>SSL_MAX_CONNECTIONS\<close>.
\<close>

theorem session_built_beyond_budget:
  assumes "c_pcb (cl s c) \<noteq> None" and "c_ssl_pending (cl s c) = []" and "sc_parsed (sctx s v)"
    and "\<forall>t. SSL_MBED_SERVE_FLOOR \<le> free_heap E t \<and> alloc_ok E t" and "\<forall>t. m_config M t = 0 \<and> m_setup M t = 0"
  shows "case build_session E M H cb v c s of None \<Rightarrow> False
    | Some (go, s') \<Rightarrow> go \<and> liveServeCount s' = liveServeCount s + 1 \<and> hooked s' c"
  using assms
  by (auto simp: build_session_def new_object_def Let_def startSSLServer_def takeStaged_def liveServeCount_def
      linorder_not_less [symmetric])

lemma conn_done_full: "liveServeCount s \<ge> SSL_MAX_CONNECTIONS \<Longrightarrow> conn_done E g v s = s"
  by (simp add: conn_done_def promoteSlot_def split: option.split)

lemma tcp_close_more [simp]: "park (snd (tcp_close E c s)) = park s" "tls_active (snd (tcp_close E c s)) = tls_active s"
  by (cases "c_pcb (cl s c)"; simp add: tcp_close_Some tcp_close_None remove_events_eq close_or_abort_def
      reset_tcp_callbacks_def Let_def)+

lemma tls_closing_more: "onClosing (leaf_tls E M) c s = Some s' \<Longrightarrow>
    park s' = park s \<and> tls_active s' = tls_active s \<and> cl s' d = (cl s d)\<lparr>c_hooks := c_hooks (cl s' d)\<rparr>"
  by (auto simp: leaf_tls_def tls_onClosing_def upd_session_def)

theorem session_built_beyond_budget_witness:
  "case build_session calm calm_mbed (leaf_tls calm calm_mbed) (\<lambda>_ _ s. Some s) 0 1 (upd 1 (\<lambda>k. k\<lparr>c_pcb := Some 10\<rparr>) full_server) of
     None \<Rightarrow> False | Some (go, s') \<Rightarrow> go \<and> liveServeCount s' = 3"
  using session_built_beyond_budget [of "upd 1 (\<lambda>k. k\<lparr>c_pcb := Some 10\<rparr>) full_server" 1 0 calm calm_mbed
      "leaf_tls calm calm_mbed" "\<lambda>_ _ s. Some s"]
  by (auto simp: full_server_def ready_park_def boot_def init_client_def SSL_MBED_SERVE_FLOOR_def calm_def calm_mbed_def
      liveServeCount_def split: option.splits)

text \<open>
  A TLS connection that closes does not promote a parked one. The promotion callback runs inside \<open>_close\<close>, while the
  session of the closing connection still counts: it is deleted with the client object, later. With the budget used up,
  closing a client leaves the park queue and the number of sessions as they were; a parked connection waits for its
  next poll.
\<close>

theorem closing_does_not_promote:
  assumes "liveServeCount s \<ge> SSL_MAX_CONNECTIONS" and "c_discard_cb (cl s c) = None" and "c_server_discard_cb (cl s c) = Some v"
    and "close_impl E (leaf_tls E M) (sec_fire E H g app (Suc n)) c s = Some (e, s')"
  shows "park s' = park s \<and> liveServeCount s' = liveServeCount s"
proof -
  obtain s1 where s1: "(if hooked s c \<and> c_pcb (cl s c) \<noteq> None then onClosing (leaf_tls E M) c s else Some s) = Some s1"
    using assms(4) by (auto simp: close_impl_def bind_eq_Some_conv)
  have 1: "park s1 = park s" "tls_active s1 = tls_active s" "c_discard_cb (cl s1 c) = None" "c_server_discard_cb (cl s1 c) = Some v"
    using s1 assms(2,3) tls_closing_more [of E M c s s1 c]
    by (auto split: if_splits) (metis client.select_convs client.surjective client.update_convs(21))+
  obtain x s2 where s2: "tcp_close E c s1 = (x, s2)" by fastforce
  have 2: "park s2 = park s" "tls_active s2 = tls_active s" "c_discard_cb (cl s2 c) = None" "c_server_discard_cb (cl s2 c) = Some v"
    using tcp_close_more [of E c s1] tcp_close_clients [of E c s1] s2 1 by auto
  have "s' = s2"
    using assms(1,4) s1 s2 2 conn_done_full [of s2 E g v]
    by (auto simp: close_impl_def call_app_def liveServeCount_def split: if_splits)
  then show ?thesis using 2 by (simp add: liveServeCount_def)
qed

theorem closing_does_not_promote_witness:
  "\<exists>e s'. close_impl calm (leaf_tls calm calm_mbed) (sec_fire calm (leaf_tls calm calm_mbed) 0 (\<lambda>_. []) (Suc 0)) 1
       (upd 1 (\<lambda>k. k\<lparr>c_pcb := Some 10, c_server_discard_cb := Some 0\<rparr>) full_server) = Some (e, s')
     \<and> park s' = ready_park \<and> liveServeCount s' = 2"
proof -
  let ?H = "leaf_tls calm calm_mbed"
  let ?s = "upd 1 (\<lambda>k. k\<lparr>c_pcb := Some 10, c_server_discard_cb := Some 0\<rparr>) full_server"
  have k: "c_hooks (cl ?s 1) = None" "c_discard_cb (cl ?s 1) = None" "c_server_discard_cb (cl ?s 1) = Some 0"
    "liveServeCount ?s \<ge> SSL_MAX_CONNECTIONS"
    by (simp_all add: full_server_def boot_def init_client_def liveServeCount_def SSL_MAX_CONNECTIONS_def)
  then have "\<exists>x. close_impl calm ?H (sec_fire calm ?H 0 (\<lambda>_. []) (Suc 0)) 1 ?s = Some x"
    by (simp add: close_impl_def call_app_def tcp_close_clients split_beta)
  then obtain e s' where run: "close_impl calm ?H (sec_fire calm ?H 0 (\<lambda>_. []) (Suc 0)) 1 ?s = Some (e, s')" by auto
  from closing_does_not_promote [OF k(4,2,3) run] show ?thesis
    by (intro exI [of _ e] exI [of _ s'] conjI run) (simp_all add: full_server_def liveServeCount_def)
qed

text \<open>
  Ending a server does not reach its parked connections. \<open>end()\<close> leaves the queue alone, and a connection promoted
  afterwards gets an accept event with the epoch of the server as it is then, so the test that rejects stale accepts
  passes and the client is delivered to \<open>onClient\<close> of a server that has stopped listening.
\<close>

theorem parked_served_after_end:
  assumes "queue_is v (park s) ((p, ms, b) # xs)" and "liveServeCount s < SSL_MAX_CONNECTIONS" and "\<forall>t. alloc_ok E t"
  shows "case promoteSlot E g v (end_server E v s) of (r, s') \<Rightarrow>
    sv_pcb (servers s' v) = None \<and> hd (queue s') = accept_packet (next_cid s) v (sv_session (servers s' v))
    \<and> handle_async_event E H V cb ccb (hd (queue s')) s' = accepted_impl V ccb v (next_cid s) s'"
proof -
  let ?s = "end_server E v s"
  have f: "park ?s = park s" "tls_active ?s = tls_active s" "next_cid ?s = next_cid s" "sv_pcb (servers ?s v) = None"
    by simp_all
  obtain l where wf: "wf_park (park s) ((\<lambda>_. [])(v := l))" and xs: "(p, ms, b) # xs = map (item_of (park s)) l"
    by (rule queue_isE [OF assms(1)])
  then obtain i l' where l: "l = i # l'" by (cases l) auto
  have i: "sc_pending (sctx ?s v) = Some i" using sc_pending_wf [OF wf, of v] by (simp add: f l)
  define q b s1 where "q = the (pp_pcb (pool (park s) i))" and "b = pp_pb (pool (park s) i)"
    and "s1 = set_park (pop_parked v i (park s)) ?s"
  have eq: "promoteSlot E g v ?s = serveTls E g v q b s1"
    using assms(2) serveTls_ok(1) [OF assms(3), of g v q b s1] f i
    by (simp add: promoteSlot_def q_def [symmetric] b_def [symmetric] s1_def [symmetric] split_beta liveServeCount_def
        prod_eq_iff)
  have sv: "servers (snd (serveTls E g v q b s1)) = servers ?s" by (simp add: s1_def)
  have hd: "hd (queue (snd (serveTls E g v q b s1))) = accept_packet (next_cid s) v (sv_session (servers ?s v))"
    using serveTls_ok(3) [OF assms(3), of g v q b s1] f by (simp add: s1_def)
  show ?thesis
    unfolding eq using sv hd f by (simp add: split_beta handle_async_event_def accept_packet_def)
qed

theorem parked_served_after_end_witness:
  "\<exists>P. case promoteSlot calm 0 0 (end_server calm 0 (set_park P boot)) of (r, s') \<Rightarrow>
     sv_pcb (servers s' 0) = None
     \<and> handle_async_event calm (leaf_tls calm calm_mbed) default_srv_hooks (\<lambda>_ _ s. Some s) (\<lambda>_ _ _ s. Some s) (hd (queue s')) s'
         = accepted_impl default_srv_hooks (\<lambda>_ _ _ s. Some s) 0 0 s'"
proof -
  obtain P where "queue_is 0 P [(7, 0, [])]" using one_parked by blast
  then have q: "queue_is 0 (park (set_park P boot)) [(7, 0, [])]" by simp
  have n: "next_cid (set_park P boot :: tsys) = 0" by (simp add: boot_def)
  have "case promoteSlot calm 0 0 (end_server calm 0 (set_park P boot)) of (r, s') \<Rightarrow>
    sv_pcb (servers s' 0) = None \<and> hd (queue s') = accept_packet (next_cid (set_park P boot :: tsys)) 0 (sv_session (servers s' 0))
    \<and> handle_async_event calm (leaf_tls calm calm_mbed) default_srv_hooks (\<lambda>_ _ s. Some s) (\<lambda>_ _ _ s. Some s) (hd (queue s')) s'
        = accepted_impl default_srv_hooks (\<lambda>_ _ _ s. Some s) 0 (next_cid (set_park P boot :: tsys)) s'"
    by (rule parked_served_after_end [OF q]) (simp_all add: liveServeCount_def boot_def SSL_MAX_CONNECTIONS_def calm_def)
  then show ?thesis unfolding n by (intro exI [of _ P]) auto
qed

text \<open>
  One reset takes the whole queue down. When lwIP reports an error for one parked connection, the callback empties the
  server's queue, and from then on the poll of every other connection that was waiting finds no item, and aborts it.
\<close>

theorem error_sheds_all_parked:
  assumes "queue_is v (park s) xs"
  shows "case s_error v s of None \<Rightarrow> False
    | Some s' \<Rightarrow> queue_is v (park s') [] \<and> s_poll E g v q s' = Some (ERR_ABRT, logs (shed_parked_pcb q) s')
        \<and> s_recv v q pb s' = Some (ERR_OK, logs (free_pb pb) s')"
proof -
  have none: "s_poll E g v q s' = Some (ERR_ABRT, logs (shed_parked_pcb q) s')"
    "s_recv v q pb s' = Some (ERR_OK, logs (free_pb pb) s')" if q: "queue_is v (park s') []" for s'
  proof -
    obtain l where "wf_park (park s') ((\<lambda>_. [])(v := l))" "[] = map (item_of (park s')) l"
      by (rule queue_isE [OF q])
    then have "sc_pending (sctx s' v) = None" using sc_pending_wf [of "park s'" "(\<lambda>_. [])(v := l)" v] by simp
    then have "find_pending (park s') q (sc_pending (sctx s' v)) = Some None" by (simp add: find_pending.simps)
    then show "s_poll E g v q s' = Some (ERR_ABRT, logs (shed_parked_pcb q) s')"
      "s_recv v q pb s' = Some (ERR_OK, logs (free_pb pb) s')" by (simp_all add: s_poll_def s_recv_def)
  qed
  from park_step_refines [OF assms, of Peer_error] obtain t P where P: "free_queued_items v [] (park s) = Some (t, P)" "queue_is v P []"
    by auto
  show ?thesis
  proof (cases "sc_pending (sctx s v)")
    case None
    then have "free_queued_items v [] (park s) = Some ([], park s)" by (simp add: free_queued_items.simps)
    then show ?thesis using P None none [of s] by (simp add: s_error_def)
  next
    case (Some i)
    then show ?thesis using P none [of "logs t (set_park P s)"] by (simp add: s_error_def)
  qed
qed

theorem error_sheds_all_parked_witness:
  "\<exists>P. queue_is 0 P [(7, 0, [])]
     \<and> (case s_error 0 (set_park P boot) of None \<Rightarrow> False
        | Some s' \<Rightarrow> s_poll calm 0 0 7 s' = Some (ERR_ABRT, logs (shed_parked_pcb 7) s'))"
proof -
  obtain P where P: "queue_is 0 P [(7, 0, [])]" using one_parked by blast
  then have "queue_is 0 (park (set_park P boot)) [(7, 0, [])]" by simp
  from error_sheds_all_parked [OF this, where E = calm and g = 0 and q = 7 and pb = "[]"] P show ?thesis
    by (intro exI [of _ P]) (auto split: option.splits)
qed

end
