(* ===== verification/System_Laws.thy ===== *)
theory System_Laws
  imports Secure_Server
begin

text \<open>
  What holds of the whole system, over the step relation of theory \<open>Dispatch\<close>, and of the operations that
  span components: closing with arbitrary callbacks, stale accepts, dialing and its failures, and TLS clients.
\<close>

section \<open>Facts of the interpretations\<close>

text \<open>The world of plain TCP, for any environment, any application and any fuel of its callbacks.\<close>

abbreviation plain_reachable :: "lwip \<Rightarrow> (call list \<Rightarrow> cmd list) \<Rightarrow> nat \<Rightarrow> 'h sys \<Rightarrow> bool" where
  "plain_reachable E app k \<equiv>
     reachable E default_hooks default_srv_hooks (fire E default_hooks app k) (fire_client E default_hooks app k)"

abbreviation tls_reachable :: "lwip \<Rightarrow> mbed \<Rightarrow> (call list \<Rightarrow> cmd list) \<Rightarrow> nat \<Rightarrow> tsys \<Rightarrow> bool" where
  "tls_reachable E M app n \<equiv>
     reachable E (secure_hooks E M (tls_fire E M app n)) default_srv_hooks (tls_fire E M app n) (fire_client E (leaf_tls E M) app n)"

context leaf_hooks begin

text \<open>Deleting a client: it returns with enough fuel, and leaves nothing of the client.\<close>

lemma drop_client_total:
  assumes cb: "runner_safe k cb" and "finite (live s)" and "work s < Suc k"
  shows "\<exists>s'. drop_client E H cb c s = Some s' \<and> c_pcb (cl s' c) = None \<and> events_of c (queue s') = []
    \<and> c_dead (cl s' c) \<and> \<not> c_facade (cl s' c) \<and> (\<exists>t. trace s' = trace s @ t)"
proof -
  obtain s1 where s1: "close_facade E H cb c s = Some s1"
    using safe_total [OF close_facade_safe [OF cb] assms(2,3)] by blast
  then have close: "close E H cb c (upd c (\<lambda>k. k\<lparr>c_facade := False\<rparr>) s) = Some s1" by (simp add: close_facade_def)
  have g: "c_pcb (cl s1 c) = None" "events_of c (queue s1) = []" using close_gone [OF cb close] by simp_all
  have ev: "evolves (upd c (\<lambda>k. k\<lparr>c_facade := False\<rparr>) s) s1" by (rule safe_evolves [OF close_safe [OF cb] close])
  have f: "\<not> c_facade (cl s1 c)" using evolves_here [OF ev, of c] by (auto simp: evolves_client_def)
  obtain t where t: "trace s1 = trace s @ t" using evolves_trace [OF ev] by auto
  obtain s2 where s2: "destroy_impl E H cb c s1 = Some (invalidate c s2)" "leaf_step (mark_dead c s1) s2" "c_dead (cl s2 c)"
    "c_pcb (cl s2 c) = None" "c_facade (cl s2 c) = c_facade (cl s1 c)" "queue s2 = queue s1"
    by (rule destroy_closed [OF g(1)])
  have "\<exists>u. trace s2 = trace s1 @ u" using s2(2) by (auto simp: leaf_step_def mark_dead_def)
  then show ?thesis using s1 s2 f g(2) t by (auto simp: drop_client_def invalidate_def)
qed

lemma stale_accept_total:
  assumes cb: "runner_safe k cb" and "finite (live s)" and "work s < Suc k"
  shows "\<exists>r s1 s'. abort E H cb c s = Some (r, s1) \<and> (abort E H cb c s \<bind> (\<lambda>(_, s1). drop_client E H cb c s1)) = Some s' \<and> c_pcb (cl s' c) = None
    \<and> events_of c (queue s') = [] \<and> c_dead (cl s' c) \<and> \<not> c_facade (cl s' c) \<and> (\<exists>t. trace s' = trace s1 @ t)"
proof -
  obtain r s1 where a: "abort E H cb c s = Some (r, s1)"
    using safe_total [OF abort_safe [OF cb] assms(2,3), of E c] by auto
  have ev: "evolves s s1" using safe_evolves [OF abort_safe [OF cb] a] by simp
  have "work s1 < Suc k" using evolves_work [OF ev assms(2)] assms(3) by simp
  from drop_client_total [OF cb evolves_finite [OF ev assms(2)] this, of E c] show ?thesis by (simp add: a)
qed

text \<open>Deleting a closed client that nothing pins destroys it.\<close>

lemma drop_closed:
  assumes "c_pcb (cl s c) = None" and "events_of c (queue s) = []" and "c_pins (cl s c) = 0" and "\<not> c_dead (cl s c)"
  shows "\<exists>s'. drop_facade E H cb c s = Some s' \<and> c_dead (cl s' c)"
proof -
  have none: "filter (\<lambda>e. ev_impl e \<noteq> Some c) (queue s) = queue s" "list_all (\<lambda>e. ev_impl e \<noteq> Some c) (queue s)"
    using assms(2) by (simp_all add: events_of_def list_all_iff filter_empty_conv)
  obtain s1 where s1: "close_facade E H cb c (pin c s) = Some s1" "queue s1 = queue s" "c_pcb (cl s1 c) = None" "\<not> c_facade (cl s1 c)"
    "c_pins (cl s1 c) = 1" "\<not> c_dead (cl s1 c)"
    using assms none(1) by (simp add: close_facade_def close_def Let_def close_impl_def clear_token_def tcp_close_None remove_events_eq)
  have p: "c_pcb (cl (unpin c s1) c) = None" using s1(3) by simp
  obtain s2 where "destroy_impl E H cb c (unpin c s1) = Some (invalidate c s2)" "c_dead (cl s2 c)"
    by (rule destroy_closed [OF p])
  then show ?thesis using s1 none(2) by (simp add: drop_facade_def release_def invalidate_def)
qed

text \<open>
  A disconnect callback that destroys the client: \<open>_close\<close> goes on with the freed object.
\<close>

lemma close_reads_freed:
  assumes cb: "runner_safe k cb" and live: "c_pcb (cl s c) \<noteq> None" "c_pins (cl s c) = 0" "\<not> c_dead (cl s c)"
    and h: "c_discard_cb (cl s c) = Some h"
    and deletes: "\<And>t t'. c_pcb (cl t c) = None \<Longrightarrow> events_of c (queue t) = [] \<Longrightarrow> c_pins (cl t c) = 0 \<Longrightarrow> \<not> c_dead (cl t c) \<Longrightarrow>
      cb c (Cb_discard h) t = Some t' \<Longrightarrow> c_dead (cl t' c)"
    and run: "close E H cb c s = Some s'"
  shows "c_dead (cl s' c) \<and> c_freed_read (cl s' c)"
proof -
  obtain u e where u: "close_impl E H cb c u = Some (e, s')" "c_pcb (cl u c) \<noteq> None" "c_pins (cl u c) = 0" "\<not> c_dead (cl u c)"
    "c_discard_cb (cl u c) = Some h"
    using run live h by (auto simp: close_def Let_def clear_token_def split: if_splits)
  obtain s1 where s1: "(if hooked u c \<and> c_pcb (cl u c) \<noteq> None then onClosing H c u else Some u) = Some s1" "leaf_step u s1"
    using closing [of c u] leaf_step_refl by (cases "hooked u c \<and> c_pcb (cl u c) \<noteq> None") auto
  obtain x where x: "cl s1 c = (cl u c)\<lparr>c_hooks := x\<rparr>" using s1(2) unfolding leaf_step_def by blast
  obtain s2 where s2: "tcp_close E c s1 = (ERR_OK, s2)" using u(2) x by (auto simp: tcp_close_Some)
  have k2: "cl s2 c = (cl u c)\<lparr>c_hooks := x, c_pcb := None\<rparr>" "events_of c (queue s2) = []"
    using tcp_close_clients [of E c s1] tcp_close_post(2) [of c E s1] s2 x by simp_all
  obtain s3 where s3: "cb c (Cb_discard h) s2 = Some s3"
    and rest: "call_app cb c (c_server_discard_cb (cl s3 c)) Cb_server_discard (note_freed c s2 s3) = Some s'"
    using u(1) k2(1) u(5) unfolding close_impl_def s1(1) by (auto simp: s2 Let_def call_app_def bind_eq_Some_conv)
  have dead: "c_dead (cl s3 c)" by (rule deletes [OF _ k2(2) _ _ s3]) (simp_all add: k2(1) u)
  then have n: "c_dead (cl (note_freed c s2 s3) c)" "c_freed_read (cl (note_freed c s2 s3) c)"
    using k2(1) u(4) by (simp_all add: note_freed_def)
  have "evolves (note_freed c s2 s3) s'" by (rule safe_evolves [OF safe_call_app [OF cb] rest])
  from evolves_here [OF this, of c] n show ?thesis by (simp add: evolves_client_def)
qed

end

section \<open>Properties\<close>

text \<open>
  Between the steps of the system no callback context is left on any client: whatever lwIP, the service task and the
  application's callbacks do, in any order, every context that is pushed on a client's stack is popped again, or the client
  was destroyed by the callback, and then nothing pops what is gone. So no pointer to a stack frame that has returned is
  followed later.
\<close>

theorem no_context_left_behind:
  assumes "plain_reachable E app k s"
  shows "c_cb_ctx (cl s c) = []"
  using plain_world.reachable_idle [OF assms] by (simp add: idle_ctx_def)

theorem no_context_left_behind_witness:
  "c_cb_ctx (cl (snd (tcp_sent calm 1 10 5 (boot :: nat sys))) 1) = []"
  by (rule no_context_left_behind [where E = calm and app = "\<lambda>_. []" and k = 1])
    (rule reachable.step [OF reachable.start sys_step.Sent], rule prod.collapse [symmetric])

text \<open>
  On the ESP8266 no wake-up is lost as long as the scheduler accepts functions: in every reachable state a queue that has
  events in it has a scheduled run of \<open>_process_async_event\<close>.
\<close>

theorem no_lost_wakeup:
  assumes "plain_reachable E app k s" and "\<forall>t. schedule_ok E t" and "no_sys E" and "queue s \<noteq> []"
  shows "scheduled s > 0"
  using plain_world.reachable_woken [OF assms(1)] assms(2-4) by (simp add: woken_def)

theorem no_lost_wakeup_witness:
  "scheduled (snd (tcp_sent (calm\<lparr>no_sys := True\<rparr>) 1 10 5 (boot :: nat sys))) > 0"
proof (rule no_lost_wakeup [where E = "calm\<lparr>no_sys := True\<rparr>" and app = "\<lambda>_. []" and k = 1])
  show "plain_reachable (calm\<lparr>no_sys := True\<rparr>) (\<lambda>_. []) 1 (snd (tcp_sent (calm\<lparr>no_sys := True\<rparr>) 1 10 5 (boot :: nat sys)))"
    by (rule reachable.step [OF reachable.start sys_step.Sent], rule prod.collapse [symmetric])
qed (simp_all add: calm_def tcp_sent_def queue_packet_queue)

text \<open>
  But when the scheduler refuses once, the queue is stuck: with events queued and nothing scheduled, no event
  that arrives afterwards schedules anything, because only the event that makes the queue nonempty does. The result of
  \<open>schedule_function\<close> is not looked at.
\<close>

theorem refused_schedule_stalls:
  assumes "queue s \<noteq> []" and "scheduled s = 0"
  shows "scheduled (snd (queue_packet E e s)) = 0 \<and> queue (snd (queue_packet E e s)) \<noteq> []
    \<and> scheduled (prepend_event E e s) = 0 \<and> queue (prepend_event E e s) \<noteq> []"
proof -
  have "length (queue s @ [e]) \<noteq> 1" "length (e # queue s) \<noteq> 1" using assms(1) by auto
  then show ?thesis
    using assms by (auto simp: queue_packet_def new_object_def send_event_def prepend_event_def send_async_event_def
        prepend_async_event_def wake_def)
qed

definition refusing :: lwip where
  "refusing = calm\<lparr>no_sys := True, schedule_ok := (\<lambda>t. length t > 1)\<rparr>"

theorem refused_schedule_stalls_witness:
  "\<exists>s :: nat sys. plain_reachable refusing (\<lambda>_. []) 1 s \<and> (\<forall>t. length t > 1 \<longrightarrow> schedule_ok refusing t)
     \<and> scheduled (snd (tcp_sent refusing 2 20 5 s)) = 0 \<and> queue (snd (tcp_sent refusing 2 20 5 s)) \<noteq> []"
proof -
  let ?s = "snd (tcp_sent refusing 1 10 5 (boot :: nat sys))"
  have r: "plain_reachable refusing (\<lambda>_. []) 1 ?s"
    by (rule reachable.step [OF reachable.start sys_step.Sent], rule prod.collapse [symmetric])
  have q: "queue ?s \<noteq> []" "scheduled ?s = 0"
    by (simp_all add: tcp_sent_def queue_packet_def new_object_def send_event_def send_async_event_def wake_def
        schedule_process_def refusing_def calm_def boot_def)
  from refused_schedule_stalls [OF q, of refusing "client_packet (LWIP_TCP_SENT 20 5) 2"] r
  show ?thesis by (intro exI [of _ ?s]) (simp add: tcp_sent_def refusing_def)
qed

text \<open>The system of an application with TLS clients: the steps of the system, and \<open>beginSecure\<close>.\<close>

inductive tls_system :: "lwip \<Rightarrow> mbed \<Rightarrow> (call list \<Rightarrow> cmd list) \<Rightarrow> nat \<Rightarrow> tsys \<Rightarrow> bool"
  for E :: lwip and M :: mbed and app :: "call list \<Rightarrow> cmd list" and n :: nat where
  start: "tls_system E M app n boot"
| step: "tls_system E M app n s \<Longrightarrow>
    sys_step E (secure_hooks E M (tls_fire E M app n)) default_srv_hooks (tls_fire E M app n) (fire_client E (leaf_tls E M) app n) s s' \<Longrightarrow>
    tls_system E M app n s'"
| secure: "tls_system E M app n s \<Longrightarrow> beginSecure E M c k host port s = (r, s') \<Longrightarrow> tls_system E M app n s'"






text \<open>
  C6: \<open>close()\<close> comes back and is final, with plain and with TLS clients, and reads freed memory in exactly the case where a callback deletes
  a client that nothing else holds. It returns once the fuel exceeds the number of clients that are live or have events, although the
  disconnect callback, and the callbacks that runs, may make any sequence of calls on any client, this one included. Afterwards the client
  has no pcb and no event of it is queued. Memory of a client is read after its destructor ran only if the client was destroyed by a callback meanwhile
  and neither an event being handled nor a name lookup held it. And that does happen: nothing holds the implementation when the application calls
  \<open>close()\<close> outside the client's own events, so when the disconnect callback deletes the client, the usual idiom, it is destroyed inside \<open>_close\<close>,
  which then reads \<open>_server_discard_cb\<close> of it.
\<close>

theorem close_is_final:
  assumes "H = default_hooks \<or> H = leaf_tls E M" and "finite {d. c_pcb (cl s d) \<noteq> None}"
    and "card {d. c_pcb (cl s d) \<noteq> None} + card {d. \<exists>e \<in> set (queue s). ev_impl e = Some d} < n"
  shows "case close E H (fire E H app n) c s of None \<Rightarrow> False
    | Some s' \<Rightarrow> c_pcb (cl s' c) = None \<and> list_all (\<lambda>e. ev_impl e \<noteq> Some c) (queue s')
        \<and> (\<forall>d. c_freed_read (cl s' d) \<longrightarrow>
              c_freed_read (cl s d) \<or> c_pins (cl s d) = 0 \<and> \<not> c_dead (cl s d) \<and> c_dead (cl s' d))
        \<and> (c_pcb (cl s c) \<noteq> None \<and> c_pins (cl s c) = 0 \<and> \<not> c_dead (cl s c)
             \<and> (\<exists>h. c_discard_cb (cl s c) = Some h \<and> (\<forall>t b. app (t @ [App c b (Cb_discard h)]) = [C_drop c]))
           \<longrightarrow> c_dead (cl s' c) \<and> c_freed_read (cl s' c))"
proof -
  have p: "pending s = {d. \<exists>e \<in> set (queue s). ev_impl e = Some d}"
    by (auto simp: pending_def events_of_def filter_empty_conv)
  have L: "leaf_hooks H" using assms(1) plain.leaf_hooks_axioms leaf.leaf_hooks_axioms by blast
  have run: "runner_safe n (fire E H app n)" by (rule leaf_hooks.fire_safe [OF L])
  obtain s' where s': "close E H (fire E H app n) c s = Some s'"
    using safe_total [OF leaf_hooks.close_safe [OF L run], of s E c] assms by (auto simp: live_def work_def p)
  have ev: "evolves s s'" by (rule safe_evolves [OF leaf_hooks.close_safe [OF L run] s'])
  have gone: "c_pcb (cl s' c) = None" "events_of c (queue s') = []" using leaf_hooks.close_gone [OF L run s'] by simp_all
  have freed: "c_dead (cl s' c) \<and> c_freed_read (cl s' c)"
    if live: "c_pcb (cl s c) \<noteq> None" "c_pins (cl s c) = 0" "\<not> c_dead (cl s c)" and h: "c_discard_cb (cl s c) = Some h"
      and app: "\<forall>t b. app (t @ [App c b (Cb_discard h)]) = [C_drop c]" for h
  proof (rule leaf_hooks.close_reads_freed [OF L run live h _ s'])
    fix t t' :: tsys
    assume t: "c_pcb (cl t c) = None" "events_of c (queue t) = []" "c_pins (cl t c) = 0" "\<not> c_dead (cl t c)"
      and r: "fire E H app n c (Cb_discard h) t = Some t'"
    obtain m where m: "n = Suc m" using assms(3) by (cases n) auto
    have "\<exists>t''. drop_facade E H (fire E H app m) c (log (App c (c_facade (cl t c)) (Cb_discard h)) t) = Some t'' \<and> c_dead (cl t'' c)"
      by (rule leaf_hooks.drop_closed [OF L]) (simp_all add: t)
    then show "c_dead (cl t' c)" using r app by (auto simp: m Let_def)
  qed
  have "c_freed_read (cl s d) \<or> c_pins (cl s d) = 0 \<and> \<not> c_dead (cl s d) \<and> c_dead (cl s' d)" if "c_freed_read (cl s' d)" for d
    by (rule evolves_freed [OF ev that])
  then show ?thesis using s' gone freed by (auto simp: events_of_def filter_empty_conv list_all_iff)
qed

text \<open>
  The application closes a client whose disconnect handler deletes it, and a second client.
\<close>

definition deleting_app :: "call list \<Rightarrow> cmd list" where
  "deleting_app t = (case last t of App c b (Cb_discard h) \<Rightarrow> [C_drop c] | _ \<Rightarrow> [])"

definition two_open :: tsys where
  "two_open = upd 2 (\<lambda>k. k\<lparr>c_pcb := Some 10, c_discard_cb := Some 7\<rparr>)
     (upd 3 (\<lambda>k. k\<lparr>c_pcb := Some 20, c_discard_cb := Some 8\<rparr>) boot)"

theorem close_is_final_witness:
  "case close calm (leaf_tls calm calm_mbed) (fire calm (leaf_tls calm calm_mbed) deleting_app 3) 2 two_open of None \<Rightarrow> False
   | Some s' \<Rightarrow> c_pcb (cl s' 2) = None \<and> c_dead (cl s' 2) \<and> c_freed_read (cl s' 2)"
proof -
  have k: "cl two_open 2 = (init_client 0)\<lparr>c_pcb := Some 10, c_discard_cb := Some 7\<rparr>" "queue two_open = []"
    by (simp_all add: two_open_def boot_def)
  have l: "{c. c_pcb (cl two_open c) \<noteq> None} = {2, 3}" by (auto simp: two_open_def boot_def init_client_def)
  have f: "finite {c. c_pcb (cl two_open c) \<noteq> None}" unfolding l by simp
  have n: "card {c. c_pcb (cl two_open c) \<noteq> None} + card {c. \<exists>e \<in> set (queue two_open). ev_impl e = Some c} < 3"
    unfolding l by (simp add: k)
  have app: "\<exists>h. c_discard_cb (cl two_open 2) = Some h \<and> (\<forall>t b. deleting_app (t @ [App 2 b (Cb_discard h)]) = [C_drop 2])"
    by (simp add: k deleting_app_def)
  show ?thesis
    using close_is_final [OF _ f n, where H = "leaf_tls calm calm_mbed" and M = calm_mbed and E = calm and app = deleting_app and c = 2] app
    by (simp add: k init_client_def split: option.splits)
qed

text \<open>What \<open>_error\<close> does first is to tell the error callback.\<close>

lemma error_trace:
  assumes run: "error_impl (fire E default_hooks app n) c e s = Some s'"
  shows "\<exists>t. trace s' = trace s @ (case c_error_cb (cl s c) of None \<Rightarrow> [] | Some h \<Rightarrow> [App c (c_facade (cl s c)) (Cb_error h e)]) @ t"
proof (cases "c_error_cb (cl s c)")
  case None
  have "evolves s s'" by (rule safe_evolves [OF error_impl_safe [OF plain.fire_safe] run])
  then show ?thesis using evolves_trace None by auto
next
  case (Some h)
  let ?cb = "fire E default_hooks app n"
  have k: "c_error_cb (cl (push_ctx c s) c) = Some h" "c_facade (cl (push_ctx c s) c) = c_facade (cl s c)"
    using Some by (simp_all add: push_ctx_def)
  from run obtain s2 where s2: "?cb c (Cb_error h e) (push_ctx c s) = Some s2"
    by (auto simp: error_impl_def Let_def call_app_def k bind_eq_Some_conv)
  then obtain m where m: "n = Suc m" by (cases n) auto
  let ?u = "log (App c (c_facade (cl s c)) (Cb_error h e)) (push_ctx c s)"
  have "exec_all E default_hooks (fire E default_hooks app m) (app (trace ?u)) ?u = Some s2"
    using s2 k by (simp add: m Let_def)
  then have "evolves ?u s2" by (rule safe_evolves [OF plain.exec_all_safe [OF plain.fire_safe]])
  then obtain t where t: "trace s2 = trace s @ App c (c_facade (cl s c)) (Cb_error h e) # t" using evolves_trace by fastforce
  have call: "evolves x y" if "call_app ?cb c g mk x = Some y" for x y g mk
    by (rule safe_evolves [OF safe_call_app [OF plain.fire_safe] that])
  have "evolves (pop_ctx c s2) s'"
  proof (cases "client_is_valid (top_ctx c s2)")
    case True
    then obtain s4 where "call_app ?cb c (c_discard_cb (cl (pop_ctx c s2) c)) Cb_discard (pop_ctx c s2) = Some s4"
      "call_app ?cb c (c_server_discard_cb (cl s4 c)) Cb_server_discard (note_freed c (pop_ctx c s2) s4) = Some s'"
      using run s2 by (auto simp: error_impl_def Let_def call_app_def k bind_eq_Some_conv)
    then show ?thesis using call evolves_note evolves_trans by blast
  next
    case False
    then show ?thesis using run s2 by (simp add: error_impl_def Let_def call_app_def k)
  qed
  then show ?thesis using evolves_trace [of "pop_ctx c s2" s'] t Some by auto
qed

lemma abort_trace:
  assumes cb: "runner_safe k cb" and p: "c_pcb (cl s c) = Some p" and run: "abort E default_hooks cb c s = Some (r, s1)"
  shows "\<exists>u. error_impl cb c ERR_ABRT u = Some s1 \<and> c_error_cb (cl u c) = c_error_cb (cl s c) \<and> c_facade (cl u c) = c_facade (cl s c)
    \<and> trace u = trace s @ [Tcp_arg p None, Tcp_sent p False, Tcp_recv p False, Tcp_err p False, Tcp_poll p False]
        @ concat (map free_event (rev (events_of c (queue s)))) @ [Tcp_abort p]"
proof -
  let ?s1 = "clear_token c s"
  have p1: "c_pcb (cl ?s1 c) = Some p" using p by simp
  have "abort E default_hooks cb c s = (case tcp_abort E c ?s1 of (err, s3) \<Rightarrow>
      (if err \<noteq> ERR_CONN then error_impl cb c ERR_ABRT s3 else Some s3) \<bind> (\<lambda>s4. Some (err, s4)))"
    by (simp add: abort_def default_hooks_def Let_def cong: if_cong)
  then have "error_impl cb c ERR_ABRT (set_pcb c None (log (Tcp_abort p) (reset_tcp_callbacks p (Some c) ?s1))) \<bind>
      (\<lambda>s4. Some (ERR_ABRT, s4)) = Some (r, s1)"
    using run p1 by (simp add: tcp_abort_Some tcp_abort_api_def Let_def)
  then have "error_impl cb c ERR_ABRT (set_pcb c None (log (Tcp_abort p) (reset_tcp_callbacks p (Some c) ?s1))) = Some s1"
    by (auto simp: bind_eq_Some_conv)
  then show ?thesis by (intro exI conjI, assumption) (simp_all add: clear_token_def)
qed

text \<open>
  C15: a stale accept is never delivered. When the server ended, or ended and listened again, after the connection was accepted, its
  epoch no longer matches: neither \<open>onClient\<close> nor the TLS hooks of the server have any influence on what happens, and it is
  this: the client's pcb is detached from the library, reset with \<open>tcp_abort\<close> before anything else happens to it (not closed: the peer gets a RST), the error
  callback, if the client has one, is told \<open>ERR_ABRT\<close>, and the client is deleted, without a pcb and without an event in the queue.
\<close>

theorem stale_accept_is_dropped:
  assumes "ev_impl e = None" and "ev_client e = Some c" and "ev_server e = Some v" and "ev_epoch e \<noteq> sv_session (servers s v)"
    and "finite {d. c_pcb (cl s d) \<noteq> None}"
    and "card {d. c_pcb (cl s d) \<noteq> None} + card {d. \<exists>e \<in> set (queue s). ev_impl e = Some d} < n"
  shows "handle_async_event E default_hooks V (fire E default_hooks app n) ccb e s
       = handle_async_event E default_hooks default_srv_hooks (fire E default_hooks app n) (\<lambda>_ _ _ _. None) e s
    \<and> (case handle_async_event E default_hooks V (fire E default_hooks app n) ccb e s of None \<Rightarrow> False
       | Some s' \<Rightarrow> c_pcb (cl s' c) = None \<and> c_dead (cl s' c) \<and> \<not> c_facade (cl s' c) \<and> events_of c (queue s') = []
           \<and> (\<forall>p. c_pcb (cl s c) = Some p \<longrightarrow>
                (\<exists>t. trace s' = trace s
                   @ [Tcp_arg p None, Tcp_sent p False, Tcp_recv p False, Tcp_err p False, Tcp_poll p False]
                   @ concat (map free_event (rev (events_of c (queue s))))
                   @ Tcp_abort p
                   # (case c_error_cb (cl s c) of None \<Rightarrow> [] | Some h \<Rightarrow> [App c (c_facade (cl s c)) (Cb_error h ERR_ABRT)])
                   @ t)))"
proof -
  let ?cb = "fire E default_hooks app n"
  have p: "pending s = {d. \<exists>e \<in> set (queue s). ev_impl e = Some d}"
    by (auto simp: pending_def events_of_def filter_empty_conv)
  have eq: "handle_async_event E default_hooks V' ?cb ccb' e s
      = (abort E default_hooks ?cb c s \<bind> (\<lambda>(_, s1). drop_client E default_hooks ?cb c s1))" for V' ccb'
    using assms(1-4) by (simp add: handle_async_event_def)
  obtain r s1 s' where a: "abort E default_hooks ?cb c s = Some (r, s1)"
    and s': "(abort E default_hooks ?cb c s \<bind> (\<lambda>(_, s1). drop_client E default_hooks ?cb c s1)) = Some s'"
      "c_pcb (cl s' c) = None \<and> events_of c (queue s') = [] \<and> c_dead (cl s' c) \<and> \<not> c_facade (cl s' c)" and t: "\<exists>t. trace s' = trace s1 @ t"
    using plain.stale_accept_total [where s = s and k = n and c = c and E = E and cb = ?cb, OF plain.fire_safe] assms(5,6)
    by (auto simp: live_def work_def p)
  have "\<exists>t. trace s' = trace s @ [Tcp_arg q None, Tcp_sent q False, Tcp_recv q False, Tcp_err q False, Tcp_poll q False]
      @ concat (map free_event (rev (events_of c (queue s)))) @ Tcp_abort q
      # (case c_error_cb (cl s c) of None \<Rightarrow> [] | Some h \<Rightarrow> [App c (c_facade (cl s c)) (Cb_error h ERR_ABRT)]) @ t"
    if q: "c_pcb (cl s c) = Some q" for q
  proof -
    obtain u where u: "error_impl ?cb c ERR_ABRT u = Some s1" "c_error_cb (cl u c) = c_error_cb (cl s c)" "c_facade (cl u c) = c_facade (cl s c)"
      "trace u = trace s @ [Tcp_arg q None, Tcp_sent q False, Tcp_recv q False, Tcp_err q False, Tcp_poll q False]
        @ concat (map free_event (rev (events_of c (queue s)))) @ [Tcp_abort q]"
      using abort_trace [OF plain.fire_safe q a] by blast
    obtain t1 where "trace s1 = trace u @ (case c_error_cb (cl s c) of None \<Rightarrow> [] | Some h \<Rightarrow> [App c (c_facade (cl s c)) (Cb_error h ERR_ABRT)]) @ t1"
      using error_trace [OF u(1), unfolded u(2,3)] by blast
    moreover obtain t2 where "trace s' = trace s1 @ t2" using t by blast
    ultimately show ?thesis unfolding u(4) by (intro exI [of _ "t1 @ t2"]) simp
  qed
  then show ?thesis unfolding eq using s' by auto
qed

text \<open>The first client is accepted, and the server ends before the accept event is handled.\<close>

definition ended :: "nat sys" where
  "ended = end_server calm 0 (upd 1 (\<lambda>k. k\<lparr>c_pcb := Some 10\<rparr>) boot)"

theorem stale_accept_is_dropped_witness:
  "case handle_async_event calm default_hooks default_srv_hooks (fire calm default_hooks (\<lambda>_. []) 2) (\<lambda>_ _ _ s. Some s)
     (accept_packet 1 0 0) ended of None \<Rightarrow> False | Some s' \<Rightarrow> c_pcb (cl s' 1) = None \<and> c_dead (cl s' 1) \<and> Tcp_abort 10 \<in> set (trace s')"
proof -
  have s: "clients ended = clients (upd 1 (\<lambda>k. k\<lparr>c_pcb := Some 10\<rparr>) (boot :: nat sys))" "queue ended = []" "sv_session (servers ended 0) = 1"
    by (simp_all add: ended_def end_server_def Let_def boot_def new_server_def)
  have l: "{c. c_pcb (cl ended c) \<noteq> None} = {1}" unfolding s by (auto simp: boot_def init_client_def)
  have "finite {c. c_pcb (cl ended c) \<noteq> None}"
    "card {c. c_pcb (cl ended c) \<noteq> None} + card {c. \<exists>e \<in> set (queue ended). ev_impl e = Some c} < 2"
    unfolding l by (simp_all add: s)
  from stale_accept_is_dropped [OF _ _ _ _ this, where e = "accept_packet 1 0 0" and c = 1 and v = 0 and E = calm
      and V = default_srv_hooks and app = "\<lambda>_. []" and ccb = "\<lambda>_ _ _ s. Some s"]
  moreover have "c_pcb (cl ended 1) = Some 10" by (simp add: s)
  ultimately show ?thesis by (auto simp: accept_packet_def s event.defs split: option.splits)
qed

section \<open>Dialing\<close>

text \<open>The argument lwIP passes to the callbacks of a pcb.\<close>

definition lwip_arg :: "pcb \<Rightarrow> call list \<Rightarrow> nat option" where
  "lwip_arg p t = fold (\<lambda>x a. case x of Tcp_arg q v \<Rightarrow> if q = p then v else a | Tcp_abort q \<Rightarrow> if q = p then None else a | _ \<Rightarrow> a) t None"

text \<open>
  C16: deleting a client while it dials leaves its address with lwIP. \<open>_pcb\<close> is set only when the connection is established, so until
  then \<open>close()\<close> and the destructor see no pcb: they make no call at all, and the pcb that is dialing keeps the address of the
  deleted object as the argument of its callbacks, which dereference it.
\<close>

theorem delete_while_dialing_dangles:
  assumes "c_pcb (cl s c) = None" and "c_hooks (cl s c) = None" and "list_all (\<lambda>e. ev_impl e \<noteq> Some c) (queue s)"
    and "connect E c addr port s = (True, s1)"
  shows "\<exists>s2 p. drop_client E H cb c s1 = Some s2 \<and> trace s2 = trace s1
    \<and> Tcp_connect p addr port \<in> set (trace s2) \<and> lwip_arg p (trace s2) = Some c
    \<and> c_dead (cl s2 c) \<and> \<not> c_facade (cl s2 c)"
proof -
  let ?s2 = "snd (start_async_task E (clear_token c s))"
  from assms(1,4) obtain p where p: "s1 = log (Tcp_connect p addr port) (bind_tcp_callbacks p c (log Tcp_new ?s2))"
    by (auto simp: connect_def Let_def tcp_connect_eq tcp_connect_sys_def split: prod.splits if_splits option.splits)
  have s1: "queue s1 = queue s" "c_pcb (cl s1 c) = None" "c_hooks (cl s1 c) = None"
    using assms(1,2) by (simp_all add: p bind_tcp_callbacks_def)
  have none: "events_of c (queue s) = []" "filter (\<lambda>e. ev_impl e \<noteq> Some c) (queue s) = queue s"
    using assms(3) by (simp_all add: events_of_def list_all_iff filter_empty_conv)
  have "\<exists>s3. close_facade E H cb c s1 = Some s3 \<and> trace s3 = trace s1 \<and> cl s3 c = (cl s1 c)\<lparr>c_facade := False, c_dns_token := None, c_hooks := None\<rparr>"
    using s1 none by (simp add: close_facade_def close_def Let_def close_impl_def clear_token_def tcp_close_None remove_events_eq)
  then obtain s3 where s3: "close_facade E H cb c s1 = Some s3" "trace s3 = trace s1"
      "cl s3 c = (cl s1 c)\<lparr>c_facade := False, c_dns_token := None, c_hooks := None\<rparr>" by blast
  have "\<exists>s2. drop_client E H cb c s1 = Some s2 \<and> trace s2 = trace s1 \<and> c_dead (cl s2 c) \<and> \<not> c_facade (cl s2 c)"
    using s1 s3 by (simp add: drop_client_def destroy_impl_def Let_def mark_dead_def invalidate_def)
  moreover have "Tcp_connect p addr port \<in> set (trace s1)" "lwip_arg p (trace s1) = Some c"
    by (simp_all add: p bind_tcp_callbacks_def lwip_arg_def)
  ultimately show ?thesis by metis
qed

theorem delete_while_dialing_dangles_witness:
  "\<exists>s2 p. drop_client calm default_hooks (\<lambda>_ _ s. Some s) 1 (snd (connect calm 1 ip_zero 80 (boot :: nat sys))) = Some s2
    \<and> lwip_arg p (trace s2) = Some 1 \<and> c_dead (cl s2 1)"
proof -
  have "connect calm 1 ip_zero 80 (boot :: nat sys) = (True, snd (connect calm 1 ip_zero 80 boot))"
    by (rule prod_eqI) (simp_all add: connect_def Let_def boot_def init_client_def start_async_task_def calm_def tcp_connect_eq tcp_connect_sys_def)
  from delete_while_dialing_dangles [OF _ _ _ this, where H = default_hooks and cb = "\<lambda>_ _ s. Some s"]
  show ?thesis by (auto simp: boot_def init_client_def)
qed

end
