(* ===== verification/Credit.thy ===== *)
theory Credit
  imports App
begin

text \<open>
  The receive window: every byte lwIP delivers must be given back with \<open>tcp_recved\<close>, at once or later
  (\<open>ackLater\<close>, \<open>ack\<close>), or the peer stalls; and none twice, or the window overruns. The account of a connection is what
  was credited in the trace plus what the client owes. Clients here are plain TCP ones.
\<close>

section \<open>The account\<close>

fun credit_of :: "pcb \<Rightarrow> call \<Rightarrow> u32" where
  "credit_of p (Tcp_recved q n) = (if q = p then n else 0)"
| "credit_of p _ = 0"

definition credit :: "pcb \<Rightarrow> call list \<Rightarrow> u32" where
  "credit p t = (\<Sum>x \<leftarrow> t. credit_of p x)"

definition owed :: "cid \<Rightarrow> ('h, 'm) sys_scheme \<Rightarrow> u32" where
  "owed c s = c_rx_ack_len (cl s c) + (\<Sum>x \<leftarrow> c_cb_ctx (cl s c). ucast (ack_len x))"

definition sole :: "pcb \<Rightarrow> cid \<Rightarrow> ('h, 'm) sys_scheme \<Rightarrow> bool" where
  "sole p c s \<longleftrightarrow> (\<forall>d. d \<noteq> c \<longrightarrow> c_pcb (cl s d) \<noteq> Some p)"

text \<open>
  What an application that does not take packets whole may do while client \<open>c\<close> keeps its pcb \<open>p\<close>: move bytes
  between owed and credited.
\<close>

definition kept :: "pcb \<Rightarrow> cid \<Rightarrow> ('h, 'm) sys_scheme \<Rightarrow> ('h, 'm) sys_scheme \<Rightarrow> bool" where
  "kept p c s s' \<longleftrightarrow>
     (sole p c s \<longrightarrow> c_pb_cb (cl s c) = None \<longrightarrow>
        sole p c s' \<and> c_pb_cb (cl s' c) = None
        \<and> (c_pcb (cl s' c) = Some p \<longrightarrow>
             c_pcb (cl s c) = Some p
             \<and> map ack_len (c_cb_ctx (cl s' c)) = map ack_len (c_cb_ctx (cl s c))
             \<and> credit p (trace s') + c_rx_ack_len (cl s' c) = credit p (trace s) + c_rx_ack_len (cl s c)))"

lemma credit_append [simp]: "credit p (t @ u) = credit p t + credit p u"
  by (simp add: credit_def)

lemma credit_simps [simp]: "credit p [] = 0" "credit p (x # t) = credit_of p x + credit p t"
  by (simp_all add: credit_def)

lemma kept_refl [simp]: "kept p c s s"
  by (simp add: kept_def)

lemma kept_trans: "kept p c a b \<Longrightarrow> kept p c b d \<Longrightarrow> kept p c a d"
  unfolding kept_def by metis

lemma kept_log: "credit_of p x = 0 \<Longrightarrow> kept p c s (log x s)"
  by (simp add: kept_def sole_def)

lemma kept_logs: "(\<And>x. x \<in> set xs \<Longrightarrow> credit_of p x = 0) \<Longrightarrow> kept p c s (logs xs s)"
proof -
  assume "\<And>x. x \<in> set xs \<Longrightarrow> credit_of p x = 0"
  then have "credit p xs = 0" by (induction xs) auto
  then show ?thesis by (simp add: kept_def sole_def)
qed

text \<open>A change of one client's record that leaves the account's fields alone.\<close>

lemma kept_upd:
  "c_pcb (f (cl s d)) \<in> {c_pcb (cl s d), None} \<Longrightarrow> (c_pb_cb (cl s d) = None \<Longrightarrow> c_pb_cb (f (cl s d)) = None) \<Longrightarrow>
   map ack_len (c_cb_ctx (f (cl s d))) = map ack_len (c_cb_ctx (cl s d)) \<Longrightarrow>
   c_rx_ack_len (f (cl s d)) = c_rx_ack_len (cl s d) \<Longrightarrow> kept p c s (upd d f s)"
  by (cases "d = c") (fastforce simp: kept_def sole_def)+

lemma kept_set_None: "kept p c s (set_pcb d None s)"
  unfolding set_pcb_def by (rule kept_upd) simp_all

lemma kept_fields:
  "clients s' = clients s \<Longrightarrow> credit p (trace s') = credit p (trace s) \<Longrightarrow> kept p c s s'"
  by (simp add: kept_def sole_def)

lemma credit_frees: "credit p (concat (map free_event es)) = 0"
  by (induction es) (simp_all add: free_event_def)

lemma kept_remove: "kept p c s (snd (remove_events d s))"
  by (rule kept_fields) (simp_all add: remove_events_eq credit_frees)

lemma kept_reset: "kept p c s (reset_tcp_callbacks q (Some d) s)"
  by (rule kept_fields) (simp_all add: credit_frees)

lemma kept_close_or_abort: "kept p c s (close_or_abort E q s)"
  by (rule kept_fields) simp_all

lemma kept_tcp_close: "kept p c s (snd (tcp_close E d s))"
proof (cases "c_pcb (cl s d)")
  case None
  then show ?thesis by (simp add: tcp_close_None kept_remove)
next
  case (Some q)
  show ?thesis unfolding tcp_close_Some [OF Some] snd_conv
    by (rule kept_trans [OF kept_trans [OF kept_reset kept_close_or_abort] kept_set_None])
qed

lemma kept_tcp_abort: "kept p c s (snd (tcp_abort E d s))"
proof (cases "c_pcb (cl s d)")
  case None
  then show ?thesis by (auto simp: tcp_abort_None tcp_abort_api_def kept_remove split_beta)
next
  case (Some q)
  have "kept p c s (set_pcb d None (log (Tcp_abort q) (reset_tcp_callbacks q (Some d) s)))"
    by (rule kept_trans [OF kept_trans [OF kept_reset kept_log] kept_set_None]) simp
  then show ?thesis by (simp add: tcp_abort_Some [OF Some] tcp_abort_api_def Some Let_def)
qed

lemma kept_output: "kept p c s (snd (tcp_output E d s))"
  by (rule kept_fields) (simp_all add: tcp_output_eq tcp_output_api_def split: option.splits)

lemma kept_write: "kept p c s (snd (tcp_write E d x f s))"
  by (rule kept_fields) (simp_all add: tcp_write_eq tcp_write_api_def split: option.splits)

lemma kept_clear_token: "kept p c s (clear_token d s)"
  unfolding clear_token_def by (rule kept_upd) simp_all

lemma kept_recved:
  assumes "d \<noteq> c \<or> c_pcb (cl s c) \<noteq> Some p"
  shows "kept p c s (snd (tcp_recved E d n s))"
  using assms
  by (cases "c_pcb (cl s d)") (auto simp: kept_def sole_def tcp_recved_eq tcp_recved_api_def)

text \<open>\<open>f\<close> the state a result carries: every run that comes back keeps the account.\<close>

definition accounts :: "pcb \<Rightarrow> cid \<Rightarrow> ('h, 'm) sys_scheme \<Rightarrow> ('a \<Rightarrow> ('h, 'm) sys_scheme) \<Rightarrow> 'a option \<Rightarrow> bool" where
  "accounts p c s f m \<longleftrightarrow> (\<forall>x. m = Some x \<longrightarrow> kept p c s (f x))"

definition runner_accounts :: "pcb \<Rightarrow> cid \<Rightarrow> ('h, 'm) runner \<Rightarrow> bool" where
  "runner_accounts p c cb \<longleftrightarrow> (\<forall>d e s. accounts p c s (\<lambda>x. x) (cb d e s))"

lemma accounts_Some: "kept p c s (f x) \<Longrightarrow> accounts p c s f (Some x)"
  by (simp add: accounts_def)

lemma accounts_bind:
  "accounts p c s f m \<Longrightarrow> (\<And>x. accounts p c (f x) g (h x)) \<Longrightarrow> accounts p c s g (m \<bind> h)"
  by (cases m) (auto simp: accounts_def intro: kept_trans)

lemma accounts_after: "kept p c s s1 \<Longrightarrow> accounts p c s1 f m \<Longrightarrow> accounts p c s f m"
  by (auto simp: accounts_def intro: kept_trans)

lemma accounts_map: "accounts p c s (\<lambda>x. f (g x)) m \<Longrightarrow> accounts p c s f (map_option g m)"
  by (auto simp: accounts_def)

lemma accounts_call_app: "runner_accounts p c cb \<Longrightarrow> accounts p c s (\<lambda>x. x) (call_app cb d h mk s)"
  by (auto simp: call_app_def runner_accounts_def intro: accounts_Some split: option.splits)

text \<open>Pins, and the record of a read of freed memory, are beside the account.\<close>

lemma kept_pin: "kept p c s (pin d s)" "kept p c s (unpin d s)" "kept p c s (mark_dead d s)"
  unfolding pin_def unpin_def mark_dead_def by (rule kept_upd; simp)+

lemma kept_note: "kept p c s (note_freed d b s)"
  unfolding note_freed_def by (auto intro: kept_upd)

lemma accounts_note: "accounts p c s (\<lambda>x. x) m \<Longrightarrow> accounts p c s (note_freed d b) m"
  by (auto simp: accounts_def intro: kept_trans [OF _ kept_note])

lemma accounts_close_impl:
  assumes cb: "runner_accounts p c cb"
  shows "accounts p c s snd (close_impl E default_hooks cb d s)"
proof -
  obtain e s2 where s2: "tcp_close E d s = (e, s2)" by fastforce
  have k: "kept p c s s2" using kept_tcp_close [of p c s E d] s2 by simp
  have run: "accounts p c s2 snd
    ((if e = ERR_OK then call_app cb d (c_discard_cb (cl s2 d)) Cb_discard s2 else Some s2) \<bind>
     (\<lambda>s3. let s3' = note_freed d s2 s3
           in (if e = ERR_OK then call_app cb d (c_server_discard_cb (cl s3' d)) Cb_server_discard s3' else Some s3') \<bind>
     (\<lambda>s4. Some (e, s4))))"
    unfolding Let_def
    by (intro accounts_bind [OF accounts_note [where d = d and b = s2]] accounts_bind [where f = "\<lambda>x. x"])
      (simp_all add: accounts_call_app [OF cb] accounts_Some del: note_freed_simps)
  from accounts_after [OF k run] show ?thesis
    by (simp add: close_impl_def default_hooks_def s2)
qed

text \<open>After \<open>_tcp_close\<close> of \<open>c\<close> itself the pcb is gone, and nothing is to be kept.\<close>

lemma kept_gone: "c_pcb (cl s' c) = None \<Longrightarrow> evolves s s' \<Longrightarrow> (c_pb_cb (cl s c) = None \<Longrightarrow> c_pb_cb (cl s' c) = None) \<Longrightarrow> kept p c s s'"
  by (auto simp: kept_def sole_def dest: evolves_pcb_Some)

lemma kept_after_gone:
  assumes "c_pcb (cl s' c) = None" and "kept p c s1 s'" and "sole p c s \<Longrightarrow> sole p c s1"
    and "c_pb_cb (cl s c) = None \<Longrightarrow> c_pb_cb (cl s1 c) = None"
  shows "kept p c s s'"
  using assms by (auto simp: kept_def)

lemma accounts_close:
  assumes cb: "runner_accounts p c cb" and safe: "runner_safe k cb"
  shows "accounts p c s (\<lambda>x. x) (close E default_hooks cb d s)"
proof -
  let ?s1 = "clear_token d s"
  define s2 where "s2 = (if c_pcb (cl ?s1 d) \<noteq> None
                then let pending = c_rx_ack_len (cl ?s1 d) + (\<Sum>x \<leftarrow> c_cb_ctx (cl ?s1 d). ucast (ack_len x));
                         s' = upd d (\<lambda>k. k\<lparr>c_rx_ack_len := 0\<rparr>) ?s1
                     in if pending \<noteq> 0 then snd (tcp_recved E d pending s') else s'
                else ?s1)"
  have eq: "close E default_hooks cb d s = map_option snd (close_impl E default_hooks cb d s2)"
    by (simp add: close_def s2_def Let_def)
  have ci: "accounts p c s2 snd (close_impl E default_hooks cb d s2)" by (rule accounts_close_impl [OF cb])
  show ?thesis
  proof (cases "d = c")
    case True
    have same: "sole p c s \<Longrightarrow> sole p c s2" "c_pb_cb (cl s c) = None \<Longrightarrow> c_pb_cb (cl s2 c) = None"
      by (auto simp: s2_def sole_def Let_def clear_token_def)
    show ?thesis unfolding eq accounts_def
    proof (intro allI impI)
      fix s' assume "map_option snd (close_impl E default_hooks cb d s2) = Some s'"
      then obtain e where r: "close_impl E default_hooks cb d s2 = Some (e, s')" by auto
      have gone: "c_pcb (cl s' c) = None" using plain.close_impl_gone [OF safe r] True by simp
      have "kept p c s2 s'" using ci r by (simp add: accounts_def)
      from kept_after_gone [OF gone this same] show "kept p c s s'" .
    qed
  next
    case False
    have "kept p c ?s1 (upd d (\<lambda>k. k\<lparr>c_rx_ack_len := 0\<rparr>) ?s1)"
      using False by (simp add: kept_def sole_def)
    then have u: "kept p c s (upd d (\<lambda>k. k\<lparr>c_rx_ack_len := 0\<rparr>) ?s1)" by (rule kept_trans [OF kept_clear_token])
    have "kept p c s (snd (tcp_recved E d n (upd d (\<lambda>k. k\<lparr>c_rx_ack_len := 0\<rparr>) ?s1)))" for n
      by (rule kept_trans [OF u kept_recved]) (simp add: False)
    then have "kept p c s s2"
      using u kept_clear_token [of p c s d] unfolding s2_def Let_def by presburger
    moreover have "accounts p c s2 (\<lambda>x. x) (map_option snd (close_impl E default_hooks cb d s2))"
      by (rule accounts_map) (use ci in simp)
    ultimately show ?thesis unfolding eq by (rule accounts_after)
  qed
qed

lemma kept_push_pop:
  assumes "kept p c (push_ctx d s) s'"
  shows "kept p c s (pop_ctx d s')"
proof (cases "d = c")
  case True
  have "map ack_len (c_cb_ctx (cl s' c)) = map ack_len (c_cb_ctx (cl (push_ctx c s) c)) \<Longrightarrow>
        map ack_len (tl (c_cb_ctx (cl s' c))) = map ack_len (c_cb_ctx (cl s c))"
    by (simp add: push_ctx_def map_tl)
  with assms True show ?thesis
    by (auto simp: kept_def sole_def push_ctx_def pop_ctx_def)
next
  case False
  with assms show ?thesis by (auto simp: kept_def sole_def push_ctx_def pop_ctx_def)
qed

lemma accounts_error_impl:
  assumes cb: "runner_accounts p c cb" and safe: "runner_safe k cb"
  shows "accounts p c s (\<lambda>x. x) (error_impl cb d e s)"
proof (cases "call_app cb d (c_error_cb (cl (push_ctx d s) d)) (\<lambda>h. Cb_error h e) (push_ctx d s)")
  case None
  then show ?thesis by (simp add: error_impl_def accounts_def)
next
  case (Some s2)
  have ev: "evolves (push_ctx d s) s2" by (rule safe_evolves [OF safe_call_app [OF safe] Some])
  have "kept p c (push_ctx d s) s2" using accounts_call_app [OF cb] Some by (fastforce simp: accounts_def)
  then have k: "kept p c s (pop_ctx d s2)" by (rule kept_push_pop)
  let ?s3 = "pop_ctx d s2"
  have "accounts p c ?s3 (\<lambda>x. x)
     (call_app cb d (c_discard_cb (cl ?s3 d)) Cb_discard ?s3 \<bind>
             (\<lambda>s4. let s5 = note_freed d ?s3 s4 in call_app cb d (c_server_discard_cb (cl s5 d)) Cb_server_discard s5))"
    unfolding Let_def
    by (intro accounts_bind [OF accounts_note [where d = d and b = ?s3]] accounts_call_app [OF cb])
  from accounts_after [OF k this] k show ?thesis by (simp add: error_impl_def Some Let_def accounts_Some)
qed

lemma accounts_destroy:
  assumes cb: "runner_accounts p c cb"
  shows "accounts p c s (\<lambda>x. x) (destroy_impl E default_hooks cb d s)"
proof -
  have inv: "kept p c t (invalidate d t)" for t
    unfolding invalidate_def by (rule kept_upd) (simp_all add: comp_def)
  have hooks: "kept p c t (clear_hooks d t)" for t
    unfolding clear_hooks_def by (rule kept_upd) simp_all
  have close: "accounts p c t (\<lambda>x. x) ((if c_pcb (cl t d) \<noteq> None then map_option snd (close_impl E default_hooks cb d t) else Some t) \<bind>
      (\<lambda>s2. Some (invalidate d s2)))" for t
    by (rule accounts_bind [where f = "\<lambda>x. x"]) (auto intro!: accounts_map accounts_close_impl [OF cb] accounts_Some inv)
  show ?thesis
    unfolding destroy_impl_def Let_def
    by (rule accounts_after [OF kept_pin(3) [of _ _ _ d]], rule accounts_bind [where f = "\<lambda>x. x"])
      (use close in \<open>auto simp: default_hooks_def intro!: accounts_Some hooks\<close>)
qed

lemma accounts_drop:
  assumes cb: "runner_accounts p c cb" and safe: "runner_safe k cb"
  shows "accounts p c s (\<lambda>x. x) (drop_facade E default_hooks cb d s)"
proof -
  have facade: "kept p c t (upd d (\<lambda>k. k\<lparr>c_facade := False\<rparr>) t)" for t by (rule kept_upd) simp_all
  have rel: "accounts p c t (\<lambda>x. x) (release E default_hooks cb d (unpin d t))" for t
    by (rule accounts_after [OF kept_pin(2) [where d = d]]) (simp add: release_def accounts_destroy [OF cb] accounts_Some)
  show ?thesis
    unfolding drop_facade_def close_facade_def
    by (rule accounts_bind [OF accounts_after [OF kept_trans [OF kept_pin(1) facade] accounts_close [OF cb safe]] rel])
qed

lemma accounts_abort:
  assumes cb: "runner_accounts p c cb" and safe: "runner_safe k cb"
  shows "accounts p c s snd (abort E default_hooks cb d s)"
proof -
  let ?s1 = "clear_token d s"
  obtain e s3 where s3: "tcp_abort E d ?s1 = (e, s3)" by fastforce
  have k: "kept p c s s3" using kept_trans [OF kept_clear_token kept_tcp_abort] s3 by (metis snd_conv)
  have "accounts p c s3 snd ((if e \<noteq> ERR_CONN then error_impl cb d ERR_ABRT s3 else Some s3) \<bind> (\<lambda>s4. Some (e, s4)))"
    by (rule accounts_bind [where f = "\<lambda>x. x"]) (simp_all add: accounts_error_impl [OF cb safe] accounts_Some)
  from accounts_after [OF k this] show ?thesis
    by (simp add: abort_def default_hooks_def s3 Let_def cong: if_cong)
qed

lemma kept_start: "kept p c s (snd (start_async_task E s))"
  by (rule kept_fields) (simp_all add: start_async_task_def)

lemma kept_connect: "kept p c s (snd (connect E d a port s))"
proof -
  let ?s2 = "snd (start_async_task E (clear_token d s))"
  have 2: "kept p c s ?s2" by (rule kept_trans [OF kept_clear_token kept_start])
  have 3: "kept p c s (log Tcp_new ?s2)" by (rule kept_trans [OF 2 kept_log]) simp
  have 4: "kept p c s (bind_tcp_callbacks q d (log Tcp_new ?s2))" for q
    unfolding bind_tcp_callbacks_def by (rule kept_trans [OF 3], rule kept_logs) auto
  have 5: "kept p c s (snd (tcp_connect E (Some q) a port (bind_tcp_callbacks q d (log Tcp_new ?s2))))" for q
    by (rule kept_trans [OF 4 [of q]]) (simp add: tcp_connect_eq tcp_connect_sys_def kept_log)
  have 6: "kept p c s (log (Tcp_abort q) (reset_tcp_callbacks q (Some d)
     (snd (tcp_connect E (Some q) a port (bind_tcp_callbacks q d (log Tcp_new ?s2))))))" for q
    by (rule kept_trans [OF kept_trans [OF 5 kept_reset] kept_log]) simp
  show ?thesis using 2 3 5 6 kept_clear_token
    by (auto simp: connect_def Let_def split_beta split: option.splits)
qed

lemma kept_connect_host: "kept p c s (snd (connect_host E d host port s))"
proof -
  let ?s1 = "snd (start_async_task E s)"
  define s2 where "s2 = upd d (\<lambda>k. k\<lparr>c_dns_token := Some (next_token s)\<rparr>) (?s1\<lparr>next_token := Suc (next_token s)\<rparr>)"
  define s4 where "s4 = log (Dns_query host) (log New_object s2)"
  have 1: "kept p c s ?s1" by (rule kept_start)
  have "kept p c ?s1 s2" by (simp add: s2_def kept_def sole_def)
  then have 2: "kept p c s (log New_object s2)"
    by (rule kept_trans [OF kept_trans [OF 1] kept_log]) simp
  then have 4: "kept p c s s4" unfolding s4_def by (rule kept_trans) (simp add: kept_log)
  have 5: "kept p c s4 (upd d (\<lambda>k. k\<lparr>c_connect_port := port\<rparr>) s4)" by (rule kept_upd) simp_all
  show ?thesis
    using 1 2 4 kept_trans [OF 4 kept_connect] kept_trans [OF kept_trans [OF 4 5] kept_pin(1)]
    by (simp add: connect_host_def Let_def split_beta s2_def [symmetric] s4_def [symmetric])
qed

lemma accounts_map_snd: "accounts p c s snd m \<Longrightarrow> accounts p c s (\<lambda>x. x) (map_option snd m)"
  by (auto simp: accounts_def)

lemma kept_send: "kept p c s (snd (send E d s))"
proof -
  let ?s1 = "upd d (\<lambda>k. k\<lparr>c_tx_last_packet := millis E (trace s)\<rparr>) s"
  let ?s2 = "snd (tcp_output E d ?s1)"
  have st: "kept p c x (upd d (\<lambda>k. k\<lparr>c_tx_last_packet := y\<rparr>) x)" for x y by (rule kept_upd) simp_all
  have 2: "kept p c s ?s2" by (rule kept_trans [OF st kept_output])
  show ?thesis
    using 2 kept_trans [OF 2 st] by (simp add: send_def Let_def split_beta del: upd_simps)
qed

lemma accounts_add: "accounts p c s snd (add E default_hooks cb d x f s)"
proof -
  have "kept p c s (snd (tcp_write E d y f s))" for y by (rule kept_write)
  then show ?thesis
    by (auto simp: add_def default_hooks_def accounts_def Let_def split_beta split: option.splits if_splits)
qed

lemma accounts_write_impl: "accounts p c s snd (write_impl E default_hooks cb d x f s)"
  unfolding write_impl_def
  by (rule accounts_bind [OF accounts_add])
    (auto simp: split_beta intro!: accounts_Some kept_trans [OF kept_note kept_send])

lemma kept_ack: "kept p c s (snd (ack E d n s))"
proof (cases "d = c \<and> c_pcb (cl s c) = Some p")
  case True
  then show ?thesis
    by (auto simp: kept_def sole_def ack_def Let_def tcp_recved_eq tcp_recved_api_def)
next
  case False
  define n' where "n' = (if n > c_rx_ack_len (cl s d) then c_rx_ack_len (cl s d) else n)"
  define s1 where "s1 = (if n' \<noteq> 0 then snd (tcp_recved E d n' s) else s)"
  have k1: "kept p c s s1" using False by (auto simp: s1_def intro: kept_recved)
  have c1: "clients s1 = clients s" by (simp add: s1_def)
  have "kept p c s1 (upd d (\<lambda>k. k\<lparr>c_rx_ack_len := c_rx_ack_len k - n'\<rparr>) s1)"
    using False c1 by (auto simp: kept_def sole_def)
  with k1 have "kept p c s (upd d (\<lambda>k. k\<lparr>c_rx_ack_len := c_rx_ack_len k - n'\<rparr>) s1)" by (rule kept_trans)
  then show ?thesis by (simp only: ack_def Let_def snd_conv n'_def [symmetric] s1_def [symmetric])
qed

lemma kept_ackLater: "kept p c s (ackLater d s)"
  unfolding ackLater_def by (rule kept_upd) (simp_all add: comp_def)

lemma kept_end_server: "kept p c s (end_server E v s)"
  by (rule kept_fields; cases "sv_pcb (servers s v)") (simp_all add: end_server_def Let_def)

lemma kept_begin_server: "kept p c s (begin_server E v s)"
proof (cases "sv_pcb (servers s v)")
  case None
  obtain t where t: "trace (snd (start_async_task E s)) = trace s @ t" "set t \<subseteq> {Start_task}" using start_trace by blast
  have no: "credit p u = 0" if "set u \<subseteq> {Start_task, Tcp_listen q 5, Tcp_close q, Tcp_abort q}" for u q
    using that by (induction u) auto
  have t0: "credit p t = 0" by (rule no [of t 0]) (use t in auto)
  from None show ?thesis
  proof (cases rule: begin_server_cases [of s v E])
    case (unwound q u)
    have "credit p u = 0" by (rule no [of u q]) (use unwound in auto)
    with unwound t t0 show ?thesis by (intro kept_fields) simp_all
  qed (intro kept_fields; simp add: t t0)+
qed (simp add: begin_server_def)

text \<open>An application that reads its data through \<open>onData\<close>: it takes no packets whole.\<close>

fun reads_data :: "cmd \<Rightarrow> bool" where
  "reads_data (C_ackPacket c pb) = False"
| "reads_data (C_set c (OnPacket h)) = False"
| "reads_data x = True"

lemma accounts_exec:
  assumes cb: "runner_accounts p c cb" and safe: "runner_safe k cb" and x: "reads_data x"
  shows "accounts p c s (\<lambda>x. x) (exec E default_hooks cb x s)"
proof (cases x)
  case (C_set d y)
  with x show ?thesis by (cases y) (auto intro!: accounts_Some kept_upd)
next
  case (C_rx_timeout d n)
  then show ?thesis by (auto simp: setRxTimeout_def intro!: accounts_Some kept_upd)
next
  case (C_ack_timeout d n)
  then show ?thesis by (auto simp: setAckTimeout_def intro!: accounts_Some kept_upd)
next
  case (C_nodelay d b)
  then show ?thesis by (auto simp: setNoDelay_def intro!: accounts_Some kept_log split: option.split)
next
  case (C_abort d)
  then show ?thesis by (simp add: accounts_map_snd accounts_abort [OF cb safe])
next
  case (C_add d y f)
  then show ?thesis by (simp add: accounts_map_snd accounts_add)
next
  case (C_write d y f)
  then show ?thesis by (simp add: accounts_map_snd accounts_write_impl)
next
  case (C_drop d)
  then show ?thesis by (simp add: accounts_drop [OF cb safe])
next
  case (C_ackPacket d pb)
  with x show ?thesis by simp
qed (auto intro!: accounts_Some kept_connect kept_connect_host kept_send kept_ack kept_ackLater kept_begin_server
    kept_end_server kept_fields accounts_close [OF cb safe])

lemma accounts_exec_all:
  assumes cb: "runner_accounts p c cb" and safe: "runner_safe k cb"
  shows "list_all reads_data xs \<Longrightarrow> accounts p c s (\<lambda>x. x) (exec_all E default_hooks cb xs s)"
proof (induction xs arbitrary: s)
  case (Cons x xs)
  have "accounts p c s (\<lambda>x. x) (exec E default_hooks cb x s \<bind> exec_all E default_hooks cb xs)"
    by (rule accounts_bind [OF accounts_exec [OF cb safe]]) (use Cons in auto)
  then show ?case by (cases "exec E default_hooks cb x s") auto
qed (simp add: accounts_Some)

lemma fire_accounts: "(\<And>t. list_all reads_data (app t)) \<Longrightarrow> runner_accounts p c (fire E (default_hooks :: ('h, 'm) hooks) app n)"
proof (induction n)
  case (Suc n)
  note ih = accounts_exec_all [OF Suc.IH [OF Suc.prems] plain.fire_safe Suc.prems]
  have "accounts p c s (\<lambda>x. x) (fire E default_hooks app (Suc n) d e s)" for d e and s :: "('h, 'm) sys_scheme"
    unfolding fire.simps Let_def by (rule accounts_after [OF _ ih]) (simp add: kept_log)
  then show ?case by (simp add: runner_accounts_def)
qed (simp add: runner_accounts_def accounts_def)

section \<open>Receiving\<close>

definition account :: "pcb \<Rightarrow> cid \<Rightarrow> ('h, 'm) sys_scheme \<Rightarrow> u32" where
  "account p c s = credit p (trace s) + c_rx_ack_len (cl s c)"

text \<open>The state of the loop: the client is alone on its pcb and the current context owes nothing.\<close>

definition loop_inv :: "pcb \<Rightarrow> cid \<Rightarrow> u16 \<Rightarrow> ('h, 'm) sys_scheme \<Rightarrow> bool" where
  "loop_inv p c n s \<longleftrightarrow>
     sole p c s \<and> c_pb_cb (cl s c) = None
     \<and> (\<exists>ns. map ack_len (c_cb_ctx (cl s c)) = n # ns) \<and> (\<exists>vs. map client_is_valid (c_cb_ctx (cl s c)) = True # vs)"

lemma loop_inv_prep: "loop_inv p c 0 s \<Longrightarrow> loop_inv p c 0 (recv_prep E c s) \<and> account p c (recv_prep E c s) = account p c s"
  by (auto simp: loop_inv_def recv_prep_def set_top_def sole_def account_def)

lemma loop_inv_set: "loop_inv p c 0 s \<Longrightarrow> loop_inv p c n (set_top (\<lambda>x. x\<lparr>ack_len := n\<rparr>) c s)
    \<and> account p c (set_top (\<lambda>x. x\<lparr>ack_len := n\<rparr>) c s) = account p c s"
  by (auto simp: loop_inv_def set_top_def sole_def account_def)

lemma loop_inv_kept:
  assumes "loop_inv p c n s" and "kept p c s s'" and "evolves s s'" and "c_pcb (cl s' c) = Some p"
  shows "loop_inv p c n s' \<and> account p c s' = account p c s"
proof -
  have "sole p c s'" "c_pb_cb (cl s' c) = None" "map ack_len (c_cb_ctx (cl s' c)) = map ack_len (c_cb_ctx (cl s c))"
    "account p c s' = account p c s"
    using assms by (auto simp: loop_inv_def kept_def account_def)
  then show ?thesis using evolves_ctx [OF assms(3) evolves_alive [OF assms(3)], of c] assms(1,4) by (simp add: loop_inv_def)
qed

lemma top_ctx_inv: "loop_inv p c n s \<Longrightarrow> ack_len (top_ctx c s) = n \<and> client_is_valid (top_ctx c s)"
  by (auto simp: loop_inv_def top_ctx_def)

lemma loop_inv_log: "credit_of p x = 0 \<Longrightarrow> loop_inv p c n (log x s) = loop_inv p c n s \<and> account p c (log x s) = account p c s"
  by (simp add: loop_inv_def account_def sole_def)

lemma loop_inv_done:
  assumes "loop_inv p c n s" and "c_pcb (cl s c) = Some p"
  shows "loop_inv p c 0 (recv_done E c s) \<and> account p c (recv_done E c s) = account p c s + ucast n"
proof -
  have "ack_len (top_ctx c s) = n" using top_ctx_inv [OF assms(1)] by simp
  with assms show ?thesis
    by (auto simp: recv_done_def Let_def loop_inv_def account_def set_top_def sole_def tcp_recved_eq
        tcp_recved_api_def add.assoc add.commute add.left_commute)
qed

lemma recv_app_kept:
  assumes cb: "runner_accounts p c cb" and safe: "runner_safe k cb" and inv: "loop_inv p c 0 s"
    and run: "recv_app cb c b s = Some s'" and p: "c_pcb (cl s' c) = Some p"
  shows "loop_inv p c (pb_len b) s' \<and> account p c s' = account p c s"
proof -
  let ?s = "set_top (\<lambda>x. x\<lparr>ack_len := pb_len b\<rparr>) c s"
  have i: "loop_inv p c (pb_len b) ?s" "account p c ?s = account p c s" using loop_inv_set [OF inv] by auto
  have "kept p c ?s s' \<and> evolves ?s s'"
    using run accounts_call_app [OF cb] safe_evolves [OF safe_call_app [OF safe]]
    by (auto simp: recv_app_def Let_def accounts_def split: if_splits)
  then show ?thesis using loop_inv_kept [OF i(1) _ _ p] i(2) by auto
qed

lemma recv_loop_account:
  assumes cb: "runner_accounts p c cb" and safe: "runner_safe k cb"
  shows "recv_loop E cb c pb s = Some (left, s') \<Longrightarrow> loop_inv p c 0 s \<Longrightarrow> c_pcb (cl s' c) = Some p \<Longrightarrow>
     left = [] \<and> account p c s' = account p c s + (\<Sum>b \<leftarrow> pb. ucast (pb_len b))"
proof (induction pb arbitrary: s)
  case (Cons b pb)
  let ?s1 = "recv_prep E c s"
  have i1: "loop_inv p c 0 ?s1" "account p c ?s1 = account p c s" using loop_inv_prep [OF Cons.prems(2)] by auto
  then have "c_pb_cb (cl ?s1 c) = None" by (simp add: loop_inv_def)
  with Cons.prems(1) obtain s4 where s4: "recv_app cb c b ?s1 = Some s4"
    and rest: "(if gone c (log (Pbuf_free [b]) s4) then Some (pb, log (Pbuf_free [b]) s4)
                else recv_loop E cb c pb (recv_done E c (log (Pbuf_free [b]) s4))) = Some (left, s')"
    by (auto split: option.splits)
  let ?s5 = "log (Pbuf_free [b]) s4"
  have ev: "evolves ?s5 s'"
  proof (cases "gone c ?s5")
    case False
    then have "recv_loop E cb c pb (recv_done E c ?s5) = Some (left, s')" using rest by simp
    then have "evolves (recv_done E c ?s5) s'" using safe_evolves [OF recv_loop_safe [OF safe]] by force
    then show ?thesis by (rule evolves_trans [OF evolves_recv_done])
  qed (use rest in simp)
  have p5: "c_pcb (cl ?s5 c) = Some p" by (rule evolves_pcb_Some [OF ev Cons.prems(3)])
  then have i4: "loop_inv p c (pb_len b) s4" "account p c s4 = account p c s"
    using recv_app_kept [OF cb safe i1(1) s4] i1(2) by auto
  then have i5: "loop_inv p c (pb_len b) ?s5" "account p c ?s5 = account p c s" by (simp_all add: loop_inv_log)
  have ng: "\<not> gone c ?s5" using top_ctx_inv [OF i5(1)] p5 by (simp add: gone_def)
  have i6: "loop_inv p c 0 (recv_done E c ?s5)" "account p c (recv_done E c ?s5) = account p c s + ucast (pb_len b)"
    using loop_inv_done [OF i5(1) p5, of E] i5(2) by auto
  from rest ng have "recv_loop E cb c pb (recv_done E c ?s5) = Some (left, s')" by simp
  from Cons.IH [OF this i6(1) Cons.prems(3)] i6(2) show ?case by (simp add: add.assoc)
qed simp

lemma plain_recv_impl:
  "recv_impl E default_hooks cb c pb s =
     recv_loop E cb c pb (push_ctx c s) \<bind>
       (\<lambda>(left, s2). let s3 = (if left \<noteq> [] then log (Pbuf_free left) s2 else s2)
                     in Some (pop_ctx c s3))"
  by (simp add: recv_impl_def default_hooks_def)

section \<open>Properties\<close>

text \<open>
  C1: no receive window is lost or invented. When a chain of buffers is delivered to a client that is
  still connected afterwards, the bytes credited to its pcb plus the bytes it owes for later have grown by exactly
  the length of the chain (modulo 2 to the 32), whatever the application's callbacks did meanwhile: acknowledge, ask
  to acknowledge later, write, close or abort other connections. The application here reads through \<open>onData\<close>.
\<close>

theorem recv_accounts_for_every_byte:
  assumes "\<forall>t. list_all reads_data (app t)" and "c_pb_cb (cl s c) = None" and "\<forall>d. d \<noteq> c \<longrightarrow> c_pcb (cl s d) \<noteq> Some p"
    and "recv_impl E default_hooks (fire E default_hooks app n) c pb s = Some s'" and "c_pcb (cl s' c) = Some p"
  shows "credit p (trace s') + c_rx_ack_len (cl s' c)
     = credit p (trace s) + c_rx_ack_len (cl s c) + (\<Sum>b \<leftarrow> pb. ucast (pb_len b))"
proof -
  let ?cb = "fire E default_hooks app n"
  have keeps: "runner_accounts p c ?cb" by (rule fire_accounts) (use assms(1) in simp)
  have safe: "runner_safe n ?cb" by (rule plain.fire_safe)
  from assms(4) obtain l s2 where r: "recv_loop E ?cb c pb (push_ctx c s) = Some (l, s2)"
    and s': "s' = pop_ctx c (if l \<noteq> [] then log (Pbuf_free l) s2 else s2)"
    unfolding plain_recv_impl by (auto simp: bind_eq_Some_conv Let_def)
  have i: "loop_inv p c 0 (push_ctx c s)"
    using assms(2,3) by (simp add: loop_inv_def push_ctx_def new_ctx_def sole_def)
  have p2: "c_pcb (cl s2 c) = Some p" using assms(5) s' by (auto simp: Let_def split: if_splits)
  have "l = []" "account p c s2 = account p c (push_ctx c s) + (\<Sum>b \<leftarrow> pb. ucast (pb_len b))"
    using recv_loop_account [OF keeps safe r i p2] by auto
  then show ?thesis using s' by (auto simp: Let_def account_def push_ctx_def pop_ctx_def)
qed

text \<open>A connected client that asks to acknowledge later, and a chain of two buffers.\<close>

definition later_app :: "call list \<Rightarrow> cmd list" where
  "later_app t = [C_ackLater 0, C_ack 0 1]"

definition reading :: "nat sys" where
  "reading = upd 0 (\<lambda>k. k\<lparr>c_pcb := Some 5, c_recv_cb := Some 1\<rparr>) boot"

definition two_bufs :: "pbuf list" where
  "two_bufs = [\<lparr>pb_id = 1, pb_data = [1, 2, 3, 4]\<rparr>, \<lparr>pb_id = 2, pb_data = [5, 6]\<rparr>]"

definition gentle :: "cid \<Rightarrow> ('h, 'm) runner \<Rightarrow> bool" where
  "gentle c cb \<longleftrightarrow> (\<forall>e s. \<exists>s'. cb c e s = Some s' \<and> c_pcb (cl s' c) = c_pcb (cl s c) \<and> c_pb_cb (cl s' c) = c_pb_cb (cl s c))"

lemma recv_app_gentle:
  assumes "gentle c cb"
  shows "\<exists>s'. recv_app cb c b s = Some s' \<and> c_pcb (cl s' c) = c_pcb (cl s c) \<and> c_pb_cb (cl s' c) = c_pb_cb (cl s c)"
proof -
  let ?s = "set_top (\<lambda>x. x\<lparr>ack_len := pb_len b\<rparr>) c s"
  have "c_pcb (cl ?s c) = c_pcb (cl s c)" "c_pb_cb (cl ?s c) = c_pb_cb (cl s c)" by (simp_all add: set_top_def)
  moreover have "\<exists>s'. call_app cb c h mk ?s = Some s' \<and> c_pcb (cl s' c) = c_pcb (cl ?s c) \<and> c_pb_cb (cl s' c) = c_pb_cb (cl ?s c)" for h mk
    using assms unfolding gentle_def by (cases h) (simp add: call_app_def, simp only: call_app_def option.case)
  ultimately show ?thesis by (simp add: recv_app_def Let_def)
qed

lemma recv_loop_gentle:
  assumes g: "gentle c cb" and safe: "runner_safe k cb"
  shows "c_pb_cb (cl s c) = None \<Longrightarrow> c_pcb (cl s c) = Some p \<Longrightarrow> client_is_valid (top_ctx c s) \<Longrightarrow>
     \<exists>s'. recv_loop E cb c pb s = Some ([], s') \<and> c_pcb (cl s' c) = Some p"
proof (induction pb arbitrary: s)
  case (Cons b pb)
  let ?s1 = "recv_prep E c s"
  have 1: "c_pb_cb (cl ?s1 c) = None" "c_pcb (cl ?s1 c) = Some p"
    using Cons.prems by (simp_all add: recv_prep_def set_top_def)
  obtain s4 where s4: "recv_app cb c b ?s1 = Some s4" "c_pcb (cl s4 c) = Some p" "c_pb_cb (cl s4 c) = None"
    using recv_app_gentle [OF g] 1 by metis
  have ev: "evolves s (log (Pbuf_free [b]) s4)"
    using evolves_trans [OF evolves_trans [OF evolves_recv_prep safe_evolves [OF recv_app_safe [OF safe] s4(1)]] evolves_log(1)] .
  then have v: "client_is_valid (top_ctx c (log (Pbuf_free [b]) s4))"
    by (rule top_valid_open [OF _ _ Cons.prems(3)]) (simp add: s4(2))
  let ?s7 = "recv_done E c (log (Pbuf_free [b]) s4)"
  have 7: "c_pb_cb (cl ?s7 c) = None" "c_pcb (cl ?s7 c) = Some p"
    using s4 by (auto simp: recv_done_def Let_def set_top_def)
  moreover have "client_is_valid (top_ctx c ?s7)" by (rule top_valid_open [OF evolves_recv_done _ v]) (simp add: 7)
  ultimately obtain s' where "recv_loop E cb c pb ?s7 = Some ([], s')" "c_pcb (cl s' c) = Some p"
    using Cons.IH by blast
  then show ?case using 1 s4 v by (simp add: gone_def)
qed simp

lemma later_gentle: "gentle 0 (fire calm default_hooks later_app 1)"
  unfolding gentle_def
  by (simp add: later_app_def ackLater_def ack_def Let_def tcp_recved_eq tcp_recved_api_def split: option.split)

lemma reading_run:
  "\<exists>s'. recv_impl calm default_hooks (fire calm default_hooks later_app 1) 0 two_bufs reading = Some s' \<and> c_pcb (cl s' 0) = Some 5"
proof -
  have "\<exists>s'. recv_loop calm (fire calm default_hooks later_app 1) 0 two_bufs (push_ctx 0 reading) = Some ([], s') \<and> c_pcb (cl s' 0) = Some 5"
    by (rule recv_loop_gentle [OF later_gentle plain.fire_safe])
      (simp_all add: push_ctx_def reading_def boot_def init_client_def top_ctx_def new_ctx_def)
  then show ?thesis by (auto simp: plain_recv_impl Let_def)
qed

theorem recv_accounts_for_every_byte_witness:
  "\<exists>s'. recv_impl calm default_hooks (fire calm default_hooks later_app 1) 0 two_bufs reading = Some s'
     \<and> credit 5 (trace s') + c_rx_ack_len (cl s' 0) = 6"
proof -
  obtain s' where s': "recv_impl calm default_hooks (fire calm default_hooks later_app 1) 0 two_bufs reading = Some s'"
    and p: "c_pcb (cl s' 0) = Some 5" using reading_run by blast
  have "credit 5 (trace s') + c_rx_ack_len (cl s' 0)
     = credit 5 (trace reading) + c_rx_ack_len (cl reading 0) + (\<Sum>b \<leftarrow> two_bufs. ucast (pb_len b))"
    by (rule recv_accounts_for_every_byte [OF _ _ _ s' p])
      (auto simp: later_app_def reading_def boot_def init_client_def)
  then show ?thesis using s' by (simp add: reading_def boot_def init_client_def two_bufs_def pb_len_def)
qed

end
