(* ===== verification/Key_Parsing.thy ===== *)
theory Key_Parsing
  imports Prelude "HOL-Library.Monad_Syntax"
begin

unbundle bit_operations_syntax

text \<open>
  Keys and certificates of the TLS server of the ESP8266 build (\<open>src/AsyncSecureSession.cpp\<close>): PEM text, the DER
  reader, and the decryption of a PKCS#8 key (PBES2 with PBKDF2, HMAC-SHA-256 and AES-256-CBC). BearSSL is not part of
  the repository: its HMAC, its CBC decryption, its PEM decoder and its key parser are parameters. A
  buffer is the list of its bytes, a null pointer \<open>None\<close>; \<open>size_t\<close> and \<open>uint32_t\<close> have 32 bits there.
\<close>

section \<open>DER\<close>

text \<open>A big-endian number of at most four bytes, as the loops of \<open>brssl_der_take\<close> and of the iteration count read it.\<close>

definition be_word :: "u8 list \<Rightarrow> u32" where
  "be_word bs = foldl (\<lambda>l b. push_bit 8 l OR ucast b) 0 bs"

text \<open>\<open>brssl_der_take\<close>: tag, value, and what follows the element.\<close>

definition der_value :: "u8 \<Rightarrow> nat \<Rightarrow> u8 list \<Rightarrow> (u8 \<times> u8 list \<times> u8 list) option" where
  "der_value t l r = (if l > length r then None else Some (t, take l r, drop l r))"

definition brssl_der_take :: "u8 list \<Rightarrow> (u8 \<times> u8 list \<times> u8 list) option" where
  "brssl_der_take d =
     (if length d < 2 then None
      else if d ! 0 = 0x1f then None
      else if d ! 1 AND 0x80 \<noteq> 0
      then let nb = unat (d ! 1 AND 0x7f)
           in if nb = 0 \<or> nb > 4 \<or> length d < 2 + nb then None
              else der_value (d ! 0) (unat (be_word (take nb (drop 2 d)))) (drop (2 + nb) d)
      else der_value (d ! 0) (unat (d ! 1)) (drop 2 d))"

definition brssl_der_peek_tag :: "u8 list \<Rightarrow> u8" where
  "brssl_der_peek_tag d = (if d = [] then 0 else d ! 0)"

definition OID_PBES2 :: "u8 list" where "OID_PBES2 = [0x2a, 0x86, 0x48, 0x86, 0xf7, 0x0d, 0x01, 0x05, 0x0d]"
definition OID_PBKDF2 :: "u8 list" where "OID_PBKDF2 = [0x2a, 0x86, 0x48, 0x86, 0xf7, 0x0d, 0x01, 0x05, 0x0c]"
definition OID_HMAC_SHA256 :: "u8 list" where "OID_HMAC_SHA256 = [0x2a, 0x86, 0x48, 0x86, 0xf7, 0x0d, 0x02, 0x09]"
definition OID_AES256_CBC :: "u8 list" where "OID_AES256_CBC = [0x60, 0x86, 0x48, 0x01, 0x65, 0x03, 0x04, 0x01, 0x2a]"

definition brssl_oid_match :: "u8 list \<Rightarrow> u8 list \<Rightarrow> bool" where
  "brssl_oid_match v oid \<longleftrightarrow> length v = length oid \<and> v = oid"

section \<open>PBKDF2\<close>

text \<open>\<open>hmac key message\<close> is BearSSL's HMAC-SHA-256; \<open>hlen\<close> is 32.\<close>

type_synonym hmac = "u8 list \<Rightarrow> u8 list \<Rightarrow> u8 list"

definition xor_bytes :: "u8 list \<Rightarrow> u8 list \<Rightarrow> u8 list" where
  "xor_bytes t u = map (\<lambda>(a, b). a XOR b) (zip t u)"

fun pbkdf2_rounds :: "hmac \<Rightarrow> u8 list \<Rightarrow> nat \<Rightarrow> u8 list \<Rightarrow> u8 list \<Rightarrow> u8 list" where
  "pbkdf2_rounds H pass 0 u t = t"
| "pbkdf2_rounds H pass (Suc n) u t = (let u' = H pass u in pbkdf2_rounds H pass n u' (xor_bytes t u'))"

definition be4 :: "u32 \<Rightarrow> u8 list" where
  "be4 i = [ucast (drop_bit 24 i), ucast (drop_bit 16 i), ucast (drop_bit 8 i), ucast i]"

text \<open>The outer loop, from block \<open>idx\<close> on, while so many bytes are missing.\<close>

function pbkdf2_blocks :: "hmac \<Rightarrow> u8 list \<Rightarrow> u8 list \<Rightarrow> u32 \<Rightarrow> u32 \<Rightarrow> nat \<Rightarrow> u8 list" where
  "pbkdf2_blocks H pass salt iters idx missing =
     (if missing = 0 then []
      else
        let u = H pass (salt @ be4 idx);
            t = pbkdf2_rounds H pass (unat iters - 1) u (take 32 u);
            tk = (if 32 > missing then missing else 32)
        in take tk t @ pbkdf2_blocks H pass salt iters (idx + 1) (missing - tk))"
  by pat_completeness auto

termination
  by (relation "measure (\<lambda>(H, pass, salt, iters, idx, missing). missing)") auto

declare pbkdf2_blocks.simps [simp del]

definition brssl_pbkdf2 :: "hmac \<Rightarrow> u8 list \<Rightarrow> u8 list \<Rightarrow> u32 \<Rightarrow> nat \<Rightarrow> u8 list option" where
  "brssl_pbkdf2 H pass salt iters outlen = (if iters = 0 then None else Some (pbkdf2_blocks H pass salt iters 1 outlen))"

section \<open>CBC and padding\<close>

text \<open>\<open>dec key iv data\<close> is BearSSL's AES-CBC decryption.\<close>

type_synonym cbc = "u8 list \<Rightarrow> u8 list \<Rightarrow> u8 list \<Rightarrow> u8 list"

definition brssl_cbc_decrypt :: "cbc \<Rightarrow> u8 list \<Rightarrow> u8 list \<Rightarrow> u8 list \<Rightarrow> u8 list option" where
  "brssl_cbc_decrypt D key iv data = (if data = [] \<or> length data mod 16 \<noteq> 0 then None else Some (D key iv data))"

text \<open>The length without the padding, 0 if it is invalid.\<close>

definition brssl_strip_pkcs7 :: "u8 list \<Rightarrow> nat \<Rightarrow> nat" where
  "brssl_strip_pkcs7 data bs =
     (if data = [] \<or> length data mod bs \<noteq> 0 then 0
      else
        let pad = unat (data ! (length data - 1))
        in if pad = 0 \<or> pad > bs \<or> pad > length data then 0
           else if list_all (\<lambda>i. data ! (length data - i) = of_nat pad) [1..<Suc pad] then length data - pad
           else 0)"

section \<open>PBES2\<close>

text \<open>The element must have the tag; the message is the one of \<open>err\<close>.\<close>

definition expect :: "u8 \<Rightarrow> string \<Rightarrow> u8 list \<Rightarrow> string + (u8 list \<times> u8 list)" where
  "expect t msg d = (case brssl_der_take d of None \<Rightarrow> Inl msg | Some (t', v, r) \<Rightarrow> if t' \<noteq> t then Inl msg else Inr (v, r))"

definition then_parse :: "string + 'a \<Rightarrow> ('a \<Rightarrow> string + 'b) \<Rightarrow> string + 'b" where
  "then_parse m f = (case m of Inl e \<Rightarrow> Inl e | Inr x \<Rightarrow> f x)"

definition check :: "bool \<Rightarrow> string \<Rightarrow> string + 'b \<Rightarrow> string + 'b" where
  "check b msg k = (if b then k else Inl msg)"

text \<open>The parameters of PBKDF2: salt and iteration count. A key length is read over.\<close>

definition pbkdf2_params :: "u8 list \<Rightarrow> string + (u8 list \<times> u32)" where
  "pbkdf2_params kdf =
     (if brssl_der_peek_tag kdf = 0x30
      then then_parse (expect 0x30 ''bad PBKDF2 params'' kdf) (\<lambda>(kp, _).
           then_parse (expect 0x04 ''bad salt'' kp) (\<lambda>(salt, kp1).
           then_parse (expect 0x02 ''bad iteration count'' kp1) (\<lambda>(v, kp2).
           check (v \<noteq> [] \<and> length v \<le> 4) ''bad iteration count'' (
           then_parse (if brssl_der_peek_tag kp2 = 0x02 then expect 0x02 ''bad key length'' kp2 else Inr ([], kp2)) (\<lambda>(_, kp3).
           if brssl_der_peek_tag kp3 = 0x30
           then then_parse (expect 0x30 ''bad PRF seq'' kp3) (\<lambda>(prf, _).
                then_parse (expect 0x06 ''unsupported PRF (only hmacSHA256)'' prf) (\<lambda>(oid, _).
                check (brssl_oid_match oid OID_HMAC_SHA256) ''unsupported PRF (only hmacSHA256)'' (Inr (salt, be_word v))))
           else Inl ''unsupported PRF (only hmacSHA256)'')))))
      else Inl ''PBKDF2 params omitted'')"

definition pbes2_kdf :: "u8 list \<Rightarrow> string + (u8 list \<times> u32)" where
  "pbes2_kdf v =
     then_parse (expect 0x06 ''unsupported kdf (only PBKDF2)'' v) (\<lambda>(oid, kdf).
     check (brssl_oid_match oid OID_PBKDF2) ''unsupported kdf (only PBKDF2)'' (pbkdf2_params kdf))"

definition pbes2_cipher :: "u8 list \<Rightarrow> string + u8 list" where
  "pbes2_cipher v =
     then_parse (expect 0x06 ''missing cipher OID'' v) (\<lambda>(oid, enc).
     check (brssl_oid_match oid OID_AES256_CBC) ''unsupported cipher (only aes-256-cbc)'' (
     then_parse (expect 0x04 ''missing IV'' enc) (\<lambda>(iv, _).
     check (length iv = 16) ''IV length mismatch'' (Inr iv))))"

text \<open>Key derivation and decryption; \<open>alloc\<close> answers \<open>malloc\<close>.\<close>

definition pbes2_open ::
  "hmac \<Rightarrow> cbc \<Rightarrow> (nat \<Rightarrow> bool) \<Rightarrow> u8 list \<Rightarrow> u8 list \<Rightarrow> u32 \<Rightarrow> u8 list \<Rightarrow> u8 list \<Rightarrow> string + u8 list" where
  "pbes2_open H D alloc password salt iters iv ct =
     (case brssl_pbkdf2 H password salt iters 32 of
        None \<Rightarrow> Inl ''PBKDF2 failed''
      | Some dk \<Rightarrow>
          if \<not> alloc (length ct) then Inl ''OOM''
          else case brssl_cbc_decrypt D dk iv ct of
            None \<Rightarrow> Inl ''CBC decrypt failed''
          | Some plain \<Rightarrow>
              let n = brssl_strip_pkcs7 plain 16
              in if n = 0 then Inl ''bad padding (wrong password?)'' else Inr (take n plain))"

definition brssl_pbes2_decrypt ::
  "hmac \<Rightarrow> cbc \<Rightarrow> (nat \<Rightarrow> bool) \<Rightarrow> u8 list option \<Rightarrow> u8 list option \<Rightarrow> string + u8 list" where
  "brssl_pbes2_decrypt H D alloc der password =
     (case (der, password) of
        (Some d, Some pw) \<Rightarrow>
          check (pw \<noteq> []) ''empty password'' (
          then_parse (expect 0x30 ''not a SEQUENCE'' d) (\<lambda>(emain, _).
          then_parse (expect 0x30 ''missing algorithm seq'' emain) (\<lambda>(alg, emain1).
          then_parse (expect 0x06 ''missing algorithm OID'' alg) (\<lambda>(oid, alg1).
          check (brssl_oid_match oid OID_PBES2) ''unsupported algorithm (only PBES2)'' (
          then_parse (expect 0x30 ''missing PBES2 params'' alg1) (\<lambda>(params, _).
          then_parse (expect 0x30 ''missing kdf seq'' params) (\<lambda>(kdf, params1).
          then_parse (pbes2_kdf kdf) (\<lambda>(salt, iters).
          then_parse (expect 0x30 ''missing cipher seq'' params1) (\<lambda>(cipher, _).
          then_parse (pbes2_cipher cipher) (\<lambda>iv.
          then_parse (expect 0x04 ''missing encryptedData'' emain1) (\<lambda>(ct, _).
          pbes2_open H D alloc pw salt iters iv ct)))))))))))
      | _ \<Rightarrow> Inl ''bad args'')"

section \<open>PEM\<close>

text \<open>
  BearSSL's PEM decoder: \<open>push\<close> takes a prefix of the input and hands decoded chunks to the callback, \<open>event\<close> returns the
  next event, \<open>name\<close> the label of the current object.
\<close>

datatype pem_event = Pem_begin | Pem_end | Pem_other

record 'd pem_decoder =
  pd_init :: 'd
  pd_push :: "'d \<Rightarrow> u8 list \<Rightarrow> nat \<times> u8 list list \<times> 'd"
  pd_event :: "'d \<Rightarrow> pem_event \<times> 'd"
  pd_name :: "'d \<Rightarrow> string"

text \<open>\<open>CertParseCtx\<close> and \<open>BrsslPemBuf\<close>; and whether the current object has the wanted label.\<close>

record 'd pem_state =
  ps_dec :: 'd
  ps_buf :: "u8 list option"
  ps_error :: bool
  ps_in :: bool

text \<open>\<open>append_to_cert_vector\<close> and \<open>brssl_pem_append\<close>; \<open>ok\<close> answers \<open>realloc\<close>.\<close>

definition brssl_pem_append :: "(u8 list \<Rightarrow> bool) \<Rightarrow> u8 list \<Rightarrow> 'd pem_state \<Rightarrow> 'd pem_state" where
  "brssl_pem_append ok chunk x =
     (if ps_error x then x
      else let b = (case ps_buf x of None \<Rightarrow> [] | Some b \<Rightarrow> b) @ chunk
           in if ok b then x\<lparr>ps_buf := Some b\<rparr> else x\<lparr>ps_buf := None, ps_error := True\<rparr>)"

definition pem_start :: "'d pem_decoder \<Rightarrow> 'd pem_state" where
  "pem_start dec = \<lparr>ps_dec = pd_init dec, ps_buf = None, ps_error = False, ps_in = False\<rparr>"

text \<open>One push of what is left of the input: how much was taken, and the state.\<close>

definition pem_push :: "'d pem_decoder \<Rightarrow> (u8 list \<Rightarrow> bool) \<Rightarrow> u8 list \<Rightarrow> 'd pem_state \<Rightarrow> nat \<times> 'd pem_state" where
  "pem_push dec ok input x =
     (case pd_push dec (ps_dec x) input of (n, chunks, d) \<Rightarrow> (n, fold (brssl_pem_append ok) chunks (x\<lparr>ps_dec := d\<rparr>)))"

definition pem_begin :: "'d pem_decoder \<Rightarrow> string \<Rightarrow> 'd \<Rightarrow> 'd pem_state \<Rightarrow> 'd pem_state" where
  "pem_begin dec label d x = x\<lparr>ps_dec := d, ps_in := (pd_name dec d = label), ps_buf := None\<rparr>"

text \<open>The object that is complete: of the wanted label and not empty.\<close>

definition pem_object :: "'d pem_state \<Rightarrow> u8 list option" where
  "pem_object x = (if ps_in x then (case ps_buf x of None \<Rightarrow> None | Some b \<Rightarrow> if b \<noteq> [] then Some b else None) else None)"

definition pem_close :: "'d \<Rightarrow> 'd pem_state \<Rightarrow> 'd pem_state" where
  "pem_close d x = x\<lparr>ps_dec := d, ps_buf := None, ps_in := False\<rparr>"

definition of_list :: "'a option \<Rightarrow> 'a list" where
  "of_list x = (case x of None \<Rightarrow> [] | Some a \<Rightarrow> [a])"

text \<open>
  \<open>parse_certificates\<close>. The inner loop drains the events; its result is None in place of the state when an
  allocation failed. The decoder decides when the loops end.
\<close>

partial_function (option) cert_drain ::
  "'d pem_decoder \<Rightarrow> u8 list list \<Rightarrow> bool \<Rightarrow> 'd pem_state \<Rightarrow> (u8 list list \<times> bool \<times> 'd pem_state option) option" where
  "cert_drain dec certs progress st =
     (if ps_error st then Some ([], progress, None)
      else case pd_event dec (ps_dec st) of (ev, d) \<Rightarrow>
        if ev = Pem_begin then cert_drain dec certs True (pem_begin dec ''CERTIFICATE'' d st)
        else if ev = Pem_end then cert_drain dec (certs @ of_list (pem_object st)) True (pem_close d st)
        else Some (certs, progress, Some (st\<lparr>ps_dec := d\<rparr>)))"

partial_function (option) cert_feed ::
  "'d pem_decoder \<Rightarrow> (u8 list \<Rightarrow> bool) \<Rightarrow> u8 list \<Rightarrow> nat \<Rightarrow> u8 list list \<Rightarrow> 'd pem_state \<Rightarrow> u8 list list option" where
  "cert_feed dec ok pem pushed certs st =
     (case pem_push dec ok (drop pushed pem) st of (r, x1) \<Rightarrow>
        cert_drain dec certs (r > 0) x1 \<bind> (\<lambda>(certs1, progress, x2).
          case x2 of
            None \<Rightarrow> Some []
          | Some x3 \<Rightarrow>
              if pushed + r \<ge> length pem \<or> \<not> progress then Some (certs1 @ of_list (pem_object x3))
              else cert_feed dec ok pem (pushed + r) certs1 x3))"

definition parse_certificates :: "'d pem_decoder \<Rightarrow> (u8 list \<Rightarrow> bool) \<Rightarrow> u8 list option \<Rightarrow> u8 list list option" where
  "parse_certificates dec ok pem =
     (case pem of None \<Rightarrow> Some [] | Some text \<Rightarrow> cert_feed dec ok text 0 [] (pem_start dec))"

text \<open>
  \<open>brssl_pem_extract_object\<close>: the first object with the label. The inner loop ends with an answer (\<open>Inl\<close>) or goes on (\<open>Inr\<close>).
\<close>

partial_function (option) object_drain ::
  "'d pem_decoder \<Rightarrow> string \<Rightarrow> bool \<Rightarrow> 'd pem_state \<Rightarrow> (u8 list option + bool \<times> 'd pem_state) option" where
  "object_drain dec label progress st =
     (if ps_error st then Some (Inl None)
      else case pd_event dec (ps_dec st) of (ev, d) \<Rightarrow>
        if ev = Pem_begin then object_drain dec label True (pem_begin dec label d st)
        else if ev = Pem_end
        then (case pem_object st of Some b \<Rightarrow> Some (Inl (Some b)) | None \<Rightarrow> object_drain dec label True (pem_close d st))
        else Some (Inr (progress, st\<lparr>ps_dec := d\<rparr>)))"

partial_function (option) object_feed ::
  "'d pem_decoder \<Rightarrow> (u8 list \<Rightarrow> bool) \<Rightarrow> string \<Rightarrow> u8 list \<Rightarrow> nat \<Rightarrow> 'd pem_state \<Rightarrow> u8 list option option" where
  "object_feed dec ok label pem pushed st =
     (case pem_push dec ok (drop pushed pem) st of (r, x1) \<Rightarrow>
        object_drain dec label (r > 0) x1 \<bind> (\<lambda>res.
          case res of
            Inl b \<Rightarrow> Some b
          | Inr (progress, x2) \<Rightarrow>
              if pushed + r \<ge> length pem \<or> \<not> progress then Some (pem_object x2)
              else object_feed dec ok label pem (pushed + r) x2))"

definition brssl_pem_extract_object :: "'d pem_decoder \<Rightarrow> (u8 list \<Rightarrow> bool) \<Rightarrow> u8 list \<Rightarrow> string \<Rightarrow> u8 list option option" where
  "brssl_pem_extract_object dec ok pem label = object_feed dec ok label pem 0 (pem_start dec)"

text \<open>\<open>normalize_pem\<close>: a copy in RAM that ends with a newline.\<close>

definition normalize_pem :: "bool \<Rightarrow> u8 list option \<Rightarrow> u8 list option" where
  "normalize_pem alloc src =
     (case src of
        None \<Rightarrow> None
      | Some s \<Rightarrow>
          let has_nl = (length s > 0 \<and> (s ! (length s - 1) = 10 \<or> s ! (length s - 1) = 13))
          in if \<not> alloc then None else Some (if has_nl then s else s @ [10]))"

section \<open>The context of a server\<close>

text \<open>
  What \<open>tcp_ssl_new_server_ctx\<close> uses of BearSSL and of the heap: the decoder, the HMAC and CBC, the key parsers
  (of PEM text, of DER), which say whether they found an RSA and an EC key, and the answers of the allocations. \<open>x_pkcs8\<close> is the build
  switch for encrypted keys.
\<close>

datatype alloc_site = Norm_cert | Norm_key | New_ctx | Copy_password | Plain_der nat | New_key | Grow_buffer "u8 list"

record 'd bear_keys =
  x_pkcs8 :: bool
  x_pem :: "'d pem_decoder"
  x_hmac :: hmac
  x_cbc :: cbc
  x_key_pem :: "u8 list \<Rightarrow> bool \<times> bool"
  x_key_der :: "u8 list \<Rightarrow> bool \<times> bool"
  x_alloc :: "alloc_site \<Rightarrow> bool"

definition cstr :: "string \<Rightarrow> u8 list" where
  "cstr s = map (\<lambda>c. of_nat (of_char c)) s"

definition strstr :: "u8 list \<Rightarrow> u8 list \<Rightarrow> bool" where
  "strstr hay needle = list_ex (\<lambda>k. take (length needle) (drop k hay) = needle) [0..<Suc (length hay)]"

text \<open>The key kind decides the cipher suites (\<open>br_ssl_server_init_lean\<close>): an EC key is preferred.\<close>

datatype suites = Ecdsa_suites | Rsa_suites

record server_ctx =
  x_chain :: "u8 list list"
  x_suites :: suites

definition server_suites :: "bool \<Rightarrow> bool \<Rightarrow> suites" where
  "server_suites rsa ec = (if ec then Ecdsa_suites else Rsa_suites)"

text \<open>The private key: the answer of the parser, or None when the context is given up. First the encrypted one.\<close>

definition decrypted_key :: "'d bear_keys \<Rightarrow> u8 list option \<Rightarrow> u8 list \<Rightarrow> (bool \<times> bool) option" where
  "decrypted_key X obj pw =
     (case obj of
        None \<Rightarrow> None
      | Some der \<Rightarrow>
          (case brssl_pbes2_decrypt (x_hmac X) (x_cbc X) (\<lambda>n. x_alloc X (Plain_der n)) (Some der) (Some pw) of
             Inl err \<Rightarrow> None
           | Inr plain \<Rightarrow> if x_alloc X New_key then Some (x_key_der X plain) else None))"

definition server_key :: "'d bear_keys \<Rightarrow> u8 list \<Rightarrow> u8 list option \<Rightarrow> (bool \<times> bool) option option" where
  "server_key X key password =
     (if x_pkcs8 X \<and> strstr key (cstr ''ENCRYPTED PRIVATE KEY'')
      then case password of
             None \<Rightarrow> Some None
           | Some pw \<Rightarrow>
               if pw = [] then Some None
               else map_option (\<lambda>obj. decrypted_key X obj pw)
                 (brssl_pem_extract_object (x_pem X) (\<lambda>b. x_alloc X (Grow_buffer b)) key ''ENCRYPTED PRIVATE KEY'')
      else Some (if x_alloc X New_key then Some (x_key_pem X key) else None))"

definition finish_ctx :: "'d bear_keys \<Rightarrow> u8 list \<Rightarrow> u8 list option \<Rightarrow> u8 list list \<Rightarrow> server_ctx option option" where
  "finish_ctx X key password chain =
     (if chain = [] then Some None
      else server_key X key password \<bind> (\<lambda>pk.
        case pk of
          None \<Rightarrow> Some None
        | Some (rsa, ec) \<Rightarrow>
            if \<not> rsa \<and> \<not> ec then Some None
            else Some (Some \<lparr>x_chain = chain, x_suites = server_suites rsa ec\<rparr>)))"

definition tcp_ssl_new_server_ctx ::
  "'d bear_keys \<Rightarrow> u8 list option \<Rightarrow> u8 list option \<Rightarrow> u8 list option \<Rightarrow> server_ctx option option" where
  "tcp_ssl_new_server_ctx X cert_pem key_pem password =
     (if cert_pem = None \<or> key_pem = None then Some None
      else case (normalize_pem (x_alloc X Norm_cert) cert_pem, normalize_pem (x_alloc X Norm_key) key_pem) of
        (Some cert, Some key) \<Rightarrow>
          if \<not> x_alloc X New_ctx then Some None
          else if x_pkcs8 X \<and> password \<noteq> None \<and> \<not> x_alloc X Copy_password then Some None
          else parse_certificates (x_pem X) (\<lambda>b. x_alloc X (Grow_buffer b)) (Some cert) \<bind> finish_ctx X key password
      | _ \<Rightarrow> Some None)"

section \<open>A reference encoder\<close>

text \<open>Big-endian bytes without leading zeros, and an element in the definite form with the shortest length.\<close>

fun be :: "nat \<Rightarrow> u8 list" where
  "be n = (if n = 0 then [] else be (n div 256) @ [of_nat (n mod 256)])"

declare be.simps [simp del]

definition der_header :: "u8 \<Rightarrow> nat \<Rightarrow> u8 list" where
  "der_header t n = t # (if n < 128 then [of_nat n] else of_nat (128 + length (be n)) # be n)"

definition der_enc :: "u8 \<Rightarrow> u8 list \<Rightarrow> u8 list" where
  "der_enc t v = der_header t (length v) @ v"

lemma be_length: "n < 256 ^ k \<Longrightarrow> length (be n) \<le> k"
proof (induction k arbitrary: n)
  case 0
  then show ?case by (simp add: be.simps)
next
  case (Suc k)
  then have "n div 256 < 256 ^ k" by (simp add: less_mult_imp_div_less mult.commute)
  from Suc.IH [OF this] show ?case by (subst be.simps) simp
qed

lemma be_length_pos: "n > 0 \<Longrightarrow> length (be n) > 0"
  by (subst be.simps) simp

lemma byte_shift:
  fixes l :: u32 and b :: u8
  assumes "unat l < 2 ^ 24"
  shows "unat (push_bit 8 l OR ucast b) = unat l * 256 + unat b"
proof -
  have "push_bit 8 l AND ucast b = 0"
    by (rule bit_word_eqI) (auto simp: bit_simps dest: bit_imp_le_length)
  then have "push_bit 8 l OR ucast b = push_bit 8 l + (ucast b :: u32)" by (rule disjunctive_add_eq_or [symmetric])
  moreover have "unat (push_bit 8 l) = unat l * 256"
    unfolding unsigned_push_bit_eq using assms by (simp add: push_bit_eq_mult take_bit_nat_eq_self)
  moreover have l: "unat b < 2 ^ LENGTH(8)" by (rule unsigned_less)
  moreover have "unat (ucast b :: u32) = unat b" using l by (simp add: unsigned_ucast_eq take_bit_nat_eq_self)
  ultimately show ?thesis using assms by (simp add: unat_add_lem [THEN iffD1])
qed

lemma be_word_snoc: "be_word (bs @ [b]) = push_bit 8 (be_word bs) OR ucast b"
  by (simp add: be_word_def)

lemma be_word_be: "n < 2 ^ 32 \<Longrightarrow> unat (be_word (be n)) = n"
proof (induction n rule: be.induct)
  case (1 n)
  show ?case
  proof (cases "n = 0")
    case True
    then show ?thesis by (simp add: be.simps be_word_def)
  next
    case False
    have s: "n div 256 < 2 ^ 24" using 1(2) by (simp add: less_mult_imp_div_less)
    have ih: "unat (be_word (be (n div 256))) = n div 256" using 1(1) [OF False] s by simp
    have b: "unat (of_nat (n mod 256) :: u8) = n mod 256" by (simp add: unat_of_nat)
    have "be n = be (n div 256) @ [of_nat (n mod 256)]" using False by (subst be.simps) simp
    then show ?thesis using byte_shift [of "be_word (be (n div 256))" "of_nat (n mod 256)"] ih s b
      by (simp add: be_word_snoc)
  qed
qed

lemma low_seven:
  assumes "n < 128"
  shows "(of_nat n :: u8) AND 0x80 = 0" "unat (of_nat n :: u8) = n"
    "(of_nat (128 + n) :: u8) AND 0x80 \<noteq> 0" "unat ((of_nat (128 + n) :: u8) AND 0x7f) = n"
proof -
  show u: "unat (of_nat n :: u8) = n" using assms by (simp add: unat_of_nat)
  have m: "(w :: u8) AND 0x7f = take_bit 7 w" for w by (simp add: take_bit_eq_mask mask_eq_exp_minus_1)
  have e: "(w :: u8) AND 0x80 = 0 \<longleftrightarrow> \<not> bit w 7" for w
    using and_exp_eq_0_iff_not_bit [of w 7] by simp
  have b: "bit (of_nat k :: u8) 7 \<longleftrightarrow> bit k 7" for k :: nat by (simp add: bit_of_nat_iff)
  have "\<not> bit n 7" using assms by (simp add: bit_iff_odd)
  then show "(of_nat n :: u8) AND 0x80 = 0" using e b by blast
  have "(128 + n) div 128 = 1" by (rule div_nat_eqI) (use assms in simp_all)
  then have "bit (128 + n) 7" by (simp add: bit_iff_odd)
  then show "(of_nat (128 + n) :: u8) AND 0x80 \<noteq> 0" using e b by blast
  have "take_bit 7 (128 + n) = n" using assms by (simp add: take_bit_eq_mod)
  then show "unat ((of_nat (128 + n) :: u8) AND 0x7f) = n"
    unfolding m unsigned_take_bit_eq unat_of_nat using assms by simp
qed

lemma der_take_enc:
  assumes "t \<noteq> 0x1f" and "length v < 2 ^ 32"
  shows "brssl_der_take (der_enc t v @ r) = Some (t, v, r)"
proof (cases "length v < 128")
  case True
  then show ?thesis using assms low_seven [OF True]
    by (simp add: brssl_der_take_def der_enc_def der_header_def der_value_def)
next
  case False
  let ?b = "be (length v)"
  have l: "length ?b \<le> 4" using be_length [of "length v" 4] assms by simp
  have p: "length ?b > 0" by (rule be_length_pos) (use False in linarith)
  have n: "unat (be_word ?b) = length v" by (rule be_word_be) (use assms in simp)
  have k: "length ?b < 128" using l by simp
  note s = low_seven(3,4) [OF k]
  show ?thesis using assms False l p n s
    by (simp add: brssl_der_take_def der_enc_def der_header_def der_value_def Let_def del: of_nat_add)
qed

lemma der_take_slice:
  assumes "brssl_der_take d = Some (t, v, r)"
  shows "\<exists>h. d = h @ v @ r \<and> 2 \<le> length h \<and> length h \<le> 6 \<and> t = hd d"
proof -
  obtain k l where k: "2 \<le> k" "k \<le> 6" "k \<le> length d" and v: "der_value (d ! 0) l (drop k d) = Some (t, v, r)"
  proof (cases "d ! 1 AND 0x80 \<noteq> 0")
    case True
    then show ?thesis using assms that [of "2 + unat (d ! 1 AND 0x7f)"] 
      by (auto simp: brssl_der_take_def Let_def split: if_splits)
  next
    case False
    then show ?thesis using assms that [of 2] by (auto simp: brssl_der_take_def split: if_splits)
  qed
  have "drop k d = v @ r" and t: "t = d ! 0" using v append_take_drop_id [of l "drop k d"] by (auto simp: der_value_def simp del: append_take_drop_id split: if_splits)
  then have s: "d = take k d @ v @ r" by (metis append_take_drop_id)
  have "d \<noteq> []" using k by auto
  then have "t = hd d" using t by (simp add: hd_conv_nth)
  with s k show ?thesis by (intro exI [of _ "take k d"]) simp
qed

section \<open>PBKDF2 of RFC 8018\<close>

fun rfc_U :: "hmac \<Rightarrow> u8 list \<Rightarrow> u8 list \<Rightarrow> nat \<Rightarrow> nat \<Rightarrow> u8 list" where
  "rfc_U H P S i 0 = H P (S @ be4 (of_nat i))"
| "rfc_U H P S i (Suc j) = H P (rfc_U H P S i j)"

definition rfc_T :: "hmac \<Rightarrow> u8 list \<Rightarrow> u8 list \<Rightarrow> nat \<Rightarrow> nat \<Rightarrow> u8 list" where
  "rfc_T H P S c i = foldl xor_bytes (rfc_U H P S i 0) (map (rfc_U H P S i) [1..<c])"

lemma rounds_rfc:
  "pbkdf2_rounds H P k (rfc_U H P S i j) t = foldl xor_bytes t (map (rfc_U H P S i) [Suc j..<Suc j + k])"
proof (induction k arbitrary: j t)
  case (Suc k)
  have "[Suc j..<Suc j + Suc k] = Suc j # [Suc (Suc j)..<Suc (Suc j) + k]" by (simp add: upt_conv_Cons)
  then show ?case using Suc.IH [of "Suc j"] by (simp add: Let_def)
qed simp

lemma length_foldl_xor: "\<forall>u \<in> set us. length u = n \<Longrightarrow> length t = n \<Longrightarrow> length (foldl xor_bytes t us) = n"
  by (induction us arbitrary: t) (simp_all add: xor_bytes_def)

lemma blocks_rfc:
  assumes len: "\<And>k m. length (H k m) = 32" and it: "iters \<noteq> 0"
  shows "pbkdf2_blocks H P S iters (of_nat i) n = take n (concat (map (rfc_T H P S (unat iters)) [i..<i + (n + 31) div 32]))"
proof (induction n arbitrary: i rule: less_induct)
  case (less n)
  show ?case
  proof (cases "n = 0")
    case True
    then show ?thesis by (simp add: pbkdf2_blocks.simps)
  next
    case False
    let ?T = "rfc_T H P S (unat iters)"
    have u: "length (rfc_U H P S i j) = 32" for j by (cases j) (simp_all add: len)
    have T: "pbkdf2_rounds H P (unat iters - 1) (H P (S @ be4 (of_nat i))) (take 32 (H P (S @ be4 (of_nat i)))) = ?T i"
    proof -
      have "unat iters = Suc (unat iters - 1)" using it by (simp add: unat_gt_0)
      then have "[1..<unat iters] = [Suc 0..<Suc 0 + (unat iters - 1)]" by simp
      then show ?thesis using rounds_rfc [of H P "unat iters - 1" S i 0] by (simp add: rfc_T_def len)
    qed
    have l: "length (?T i) = 32" unfolding rfc_T_def by (rule length_foldl_xor) (simp_all add: u del: rfc_U.simps)
    define k where "k = (if 32 > n then n else 32)"
    have rest: "pbkdf2_blocks H P S iters (of_nat i + 1) (n - k)
        = take (n - k) (concat (map ?T [Suc i..<Suc i + (n - k + 31) div 32]))"
      using less.IH [of "n - k" "Suc i"] False by (simp add: k_def add.commute)
    have b: "(n + 31) div 32 = Suc ((n - k + 31) div 32)"
      using False by (auto simp: k_def le_div_geq)
    have "[i..<i + (n + 31) div 32] = i # [Suc i..<Suc i + (n - k + 31) div 32]" unfolding b by (simp add: upt_conv_Cons)
    then show ?thesis
      using False l T rest by (subst pbkdf2_blocks.simps) (auto simp: Let_def k_def [symmetric], auto simp: k_def)
  qed
qed

text \<open>
  C21: the derived key is the one of RFC 8018: the first bytes of the blocks \<open>T 1, T 2, ...\<close>, where a block is the exclusive or
  of as many iterates of the HMAC as the iteration count says, for every password, salt, count and length.
\<close>

theorem pbkdf2_is_rfc8018:
  assumes "\<And>k m. length (H k m) = 32" and "iters \<noteq> 0"
  shows "brssl_pbkdf2 H P S iters n = Some (take n (concat (map (rfc_T H P S (unat iters)) [1..<1 + (n + 31) div 32])))"
  using blocks_rfc [OF assms, where P = P and S = S and i = 1 and n = n] assms(2) by (simp add: brssl_pbkdf2_def)

text \<open>A function of the right length in place of the HMAC.\<close>

definition toy_hmac :: hmac where
  "toy_hmac k m = take 32 (k @ m @ replicate 32 7)"

theorem pbkdf2_is_rfc8018_witness:
  "brssl_pbkdf2 toy_hmac [1, 2] [3] 2 3 = Some (take 3 (concat (map (rfc_T toy_hmac [1, 2] [3] 2) [1..<2])))"
proof -
  have l: "length (toy_hmac k m) = 32" for k m by (simp add: toy_hmac_def)
  have "unat (2 :: u32) = 2" "(1 + (3 + 31) div 32 :: nat) = 2" by simp_all
  with pbkdf2_is_rfc8018 [where H = toy_hmac and iters = 2 and P = "[1, 2]" and S = "[3]" and n = 3, OF l]
  show ?thesis by (simp add: numeral_2_eq_2)
qed

section \<open>PKCS#7\<close>

definition pkcs7_pad :: "nat \<Rightarrow> u8 list \<Rightarrow> u8 list" where
  "pkcs7_pad b m = (let k = b - length m mod b in m @ replicate k (of_nat k))"

lemma pkcs7_pad_length: "b > 0 \<Longrightarrow> length (pkcs7_pad b m) mod b = 0"
proof -
  assume b: "b > 0"
  then have "length m mod b < b" by simp
  then have "length m + (b - length m mod b) = b * (length m div b + 1)"
    by (simp add: algebra_simps minus_mod_eq_mult_div [symmetric])
  then show ?thesis by (simp add: pkcs7_pad_def Let_def)
qed

lemma pkcs7_strip:
  assumes "0 < b" and "b < 256"
  shows "brssl_strip_pkcs7 (pkcs7_pad b m) b = length m"
proof -
  define k where "k = b - length m mod b"
  have k: "0 < k" "k \<le> b" using assms by (auto simp: k_def)
  have pad: "pkcs7_pad b m = m @ replicate k (of_nat k)" by (simp add: pkcs7_pad_def k_def Let_def)
  have u: "unat (of_nat k :: u8) = k" using k assms by (simp add: unat_of_nat)
  have last: "pkcs7_pad b m ! (length (pkcs7_pad b m) - 1) = of_nat k"
  proof -
    have "\<not> length m + k - 1 < length m" using k by linarith
    then show ?thesis using k by (simp add: pad nth_append)
  qed
  have all: "pkcs7_pad b m ! (length (pkcs7_pad b m) - i) = of_nat k" if "i \<in> {1..k}" for i
    using that by (auto simp add: pad nth_append)
  have ne: "pkcs7_pad b m \<noteq> []" using k by (simp add: pad)
  have len: "length (pkcs7_pad b m) = length m + k" by (simp add: pad)
  have list: "list_all (\<lambda>i. pkcs7_pad b m ! (length m + k - i) = of_nat k) [1..<Suc k]"
    using all by (auto simp: list_all_iff len)
  show "brssl_strip_pkcs7 (pkcs7_pad b m) b = length m"
    using pkcs7_pad_length [OF assms(1), of m] list k
    unfolding brssl_strip_pkcs7_def Let_def last u by (simp add: ne len del: upt_Suc)
qed

lemma pkcs7_strip_pad:
  assumes "0 < b" and "brssl_strip_pkcs7 d b \<noteq> 0"
  shows "brssl_strip_pkcs7 d b < length d \<and> pkcs7_pad b (take (brssl_strip_pkcs7 d b) d) = d"
proof -
  define p where "p = unat (d ! (length d - 1))"
  have f: "d \<noteq> []" "length d mod b = 0" "p \<noteq> 0" "p \<le> b" "p \<le> length d"
    and all: "\<forall>i \<in> {1..p}. d ! (length d - i) = of_nat p" and n: "brssl_strip_pkcs7 d b = length d - p"
  proof -
    have s: "brssl_strip_pkcs7 d b = (if d = [] \<or> length d mod b \<noteq> 0 then 0 else if p = 0 \<or> p > b \<or> p > length d then 0
        else if list_all (\<lambda>i. d ! (length d - i) = of_nat p) [1..<Suc p] then length d - p else 0)"
      unfolding brssl_strip_pkcs7_def p_def Let_def by (rule refl)
    let ?ok = "list_all (\<lambda>i. d ! (length d - i) = of_nat p) [1..<Suc p]"
    have a: "\<not> (d = [] \<or> length d mod b \<noteq> 0)" using assms(2) s by meson
    have c: "\<not> (p = 0 \<or> p > b \<or> p > length d)" using assms(2) s a by meson
    have o: ?ok using assms(2) s a c by meson
    show "d \<noteq> []" "length d mod b = 0" "p \<noteq> 0" "p \<le> b" "p \<le> length d" using a c by auto
    show "brssl_strip_pkcs7 d b = length d - p" using s a c o by simp
    show "\<forall>i \<in> {1..p}. d ! (length d - i) = of_nat p" using o unfolding list_all_iff by (metis atLeastAtMost_upt atLeastAtMost_iff set_upt)
  qed
  have "drop (length d - p) d = replicate p (of_nat p)"
  proof (rule nth_equalityI)
    fix i assume "i < length (drop (length d - p) d)"
    then have i: "i < p" using f(5) by simp
    have e: "length d - (p - i) = length d - p + i" using i f(5) by linarith
    have "d ! (length d - (p - i)) = of_nat p" by (rule bspec [OF all]) (use i in auto)
    then have "d ! (length d - p + i) = of_nat p" unfolding e .
    then show "drop (length d - p) d ! i = replicate p (of_nat p) ! i" using i by simp
  qed (use f in simp)
  then have d: "d = take (length d - p) d @ replicate p (of_nat p)" by (metis append_take_drop_id)
  have "b - (length d - p) mod b = p"
  proof -
    obtain q where q: "length d = b * q" using f(2) by auto
    then have "q \<noteq> 0" using f(3,5) by (cases "q = 0") auto
    then have "length d - p = b * (q - 1) + (b - p)"
      using q f(4) by (cases q) simp_all
    then have "(length d - p) mod b = (b - p) mod b" by simp
    then show ?thesis using f(3,4) by (cases "p = b") simp_all
  qed
  then have "pkcs7_pad b (take (length d - p) d) = d"
    using d f by (simp add: pkcs7_pad_def Let_def)
  then show ?thesis using f n by simp
qed

text \<open>
  Stripping inverts padding, for every message and block length up to 255 bytes; and what is stripped with a nonzero
  result was exactly a padded message, so a wrong padding byte anywhere is refused. An empty message padded to
  one block is refused as well, as 0 stands for invalid.
\<close>

theorem pkcs7_roundtrip:
  assumes "0 < b" and "b < 256"
  shows "brssl_strip_pkcs7 (pkcs7_pad b m) b = length m
    \<and> (let n = brssl_strip_pkcs7 d b in if n = 0 then True else n < length d \<and> pkcs7_pad b (take n d) = d)"
  using pkcs7_strip [OF assms] pkcs7_strip_pad [OF assms(1)] by (simp add: Let_def)

theorem pkcs7_roundtrip_witness:
  "brssl_strip_pkcs7 (pkcs7_pad 16 [1, 2, 3]) 16 = 3"
  using pkcs7_roundtrip [of 16 "[1, 2, 3]"] by simp

section \<open>DER and the envelope\<close>

text \<open>
  C20: the reader returns the tag and the value of an element written in DER, and what follows it, for every
  value below 4 GB and every tag but 0x1f; and whatever it accepts, well formed or not, is a header of at most six bytes with a
  value that lies inside the input, so nothing outside the buffer is read.
\<close>

theorem der_roundtrip:
  assumes "t \<noteq> 0x1f" and "length v < 2 ^ 32"
  shows "brssl_der_take (der_enc t v @ r) = Some (t, v, r)
    \<and> (case brssl_der_take d of None \<Rightarrow> True
       | Some (t', v', r') \<Rightarrow> \<exists>h. d = h @ v' @ r' \<and> 2 \<le> length h \<and> length h \<le> 6 \<and> t' = hd d)"
  using der_take_enc [OF assms] der_take_slice by (auto split: option.splits)

theorem der_roundtrip_witness:
  "brssl_der_take (der_enc 0x04 [1, 2, 3] @ [9]) = Some (0x04, [1, 2, 3], [9])"
  using der_roundtrip [of "0x04" "[1, 2, 3]" "[9]"] by simp

text \<open>The envelope as OpenSSL writes it; a DER integer is signed, so a leading bit gets a zero byte in front.\<close>

definition der_int :: "nat \<Rightarrow> u8 list" where
  "der_int n = (if be n = [] \<or> hd (be n) \<ge> 0x80 then 0 # be n else be n)"

definition kdf_enc :: "u8 list \<Rightarrow> nat \<Rightarrow> u8 list" where
  "kdf_enc salt n =
     der_enc 0x06 OID_PBKDF2 @ der_enc 0x30 (der_enc 0x04 salt @ der_enc 0x02 (der_int n)
       @ der_enc 0x30 (der_enc 0x06 OID_HMAC_SHA256 @ der_enc 0x05 []))"

definition cipher_enc :: "u8 list \<Rightarrow> u8 list" where
  "cipher_enc iv = der_enc 0x06 OID_AES256_CBC @ der_enc 0x04 iv"

definition envelope :: "u8 list \<Rightarrow> nat \<Rightarrow> u8 list \<Rightarrow> u8 list \<Rightarrow> u8 list" where
  "envelope salt n iv ct =
     der_enc 0x30 (der_enc 0x30 (der_enc 0x06 OID_PBES2 @ der_enc 0x30 (der_enc 0x30 (kdf_enc salt n) @ der_enc 0x30 (cipher_enc iv)))
       @ der_enc 0x04 ct)"

lemma length_der_enc: "length v < 2 ^ 32 \<Longrightarrow> length (der_enc t v) \<le> length v + 6"
  using be_length [of "length v" 4] by (simp add: der_enc_def der_header_def)

lemma hd_der_enc: "brssl_der_peek_tag (der_enc t v @ r) = t"
  by (simp add: brssl_der_peek_tag_def der_enc_def der_header_def)

lemma expect_enc: "t \<noteq> 0x1f \<Longrightarrow> length v < 2 ^ 32 \<Longrightarrow> expect t msg (der_enc t v @ r) = Inr (v, r)"
  by (simp add: expect_def der_take_enc)

lemma expect_enc_last: "t \<noteq> 0x1f \<Longrightarrow> length v < 2 ^ 32 \<Longrightarrow> expect t msg (der_enc t v) = Inr (v, [])"
  using expect_enc [of t v msg "[]"] by simp

lemma hd_be: "0 < n \<Longrightarrow> length (be n) = Suc k \<Longrightarrow> unat (hd (be n)) = n div 256 ^ k"
proof (induction n arbitrary: k rule: be.induct)
  case (1 n)
  have e: "be n = be (n div 256) @ [of_nat (n mod 256)]" using 1(2) by (subst be.simps) simp
  show ?case
  proof (cases "n < 256")
    case True
    then have "be (n div 256) = []" by (simp add: be.simps)
    then show ?thesis using e 1(3) True by (simp add: unat_of_nat)
  next
    case False
    then have p: "0 < n div 256" by (simp add: div_greater_zero_iff)
    then have ne: "be (n div 256) \<noteq> []" using be_length_pos by fastforce
    then obtain j where k: "k = Suc j" using e 1(3) by (cases k) auto
    have "unat (hd (be (n div 256))) = n div 256 div 256 ^ j" using 1(1) [OF _ p] 1(2,3) e k by simp
    then show ?thesis using e ne k by (simp add: div_mult2_eq)
  qed
qed

lemma der_int_word:
  assumes "0 < n" and "n < 2 ^ 31"
  shows "be_word (der_int n) = of_nat n" "der_int n \<noteq> []" "length (der_int n) \<le> 4"
proof -
  have w: "be_word (be n) = of_nat n"
    by (rule word_unat_eq_iff [THEN iffD2]) (use be_word_be [of n] assms in \<open>simp add: unat_of_nat\<close>)
  have z: "be_word (0 # bs) = be_word bs" for bs by (simp add: be_word_def)
  show "be_word (der_int n) = of_nat n" by (simp add: der_int_def z w)
  have ne: "be n \<noteq> []" using be_length_pos [OF assms(1)] by simp
  then show "der_int n \<noteq> []" by (simp add: der_int_def)
  have four: "length (be n) \<le> 4" using be_length [of n 4] assms by simp
  have "length (be n) \<noteq> 4" if "hd (be n) \<ge> 0x80"
  proof
    assume l: "length (be n) = 4"
    have "unat (hd (be n)) = n div 256 ^ 3" by (rule hd_be) (use assms l in simp_all)
    also have "\<dots> < 128" using assms(2) by (simp add: less_mult_imp_div_less)
    finally show False using that by (simp add: word_le_nat_alt)
  qed
  then show "length (der_int n) \<le> 4" using four by (auto simp: der_int_def)
qed

lemma kdf_roundtrip:
  assumes "0 < n" and "n < 2 ^ 31" and "length salt < 2 ^ 30"
  shows "pbes2_kdf (kdf_enc salt n) = Inr (salt, of_nat n)"
proof -
  note i = der_int_word [OF assms(1,2)]
  have ph: "length (der_enc 0x06 OID_HMAC_SHA256 @ der_enc 0x05 []) < 100"
    by (simp add: der_enc_def der_header_def OID_HMAC_SHA256_def)
  define P where "P = der_enc 0x30 (der_enc 0x06 OID_HMAC_SHA256 @ der_enc 0x05 [])"
  have "length P < 200" using length_der_enc [of "der_enc 0x06 OID_HMAC_SHA256 @ der_enc 0x05 []" "0x30"] ph by (simp add: P_def)
  moreover have "length (der_enc 0x02 (der_int n)) \<le> 10" using length_der_enc [of "der_int n" "0x02"] i by simp
  moreover have "length (der_enc 0x04 salt) < 2 ^ 30 + 6" using length_der_enc [of salt "0x04"] assms by simp
  ultimately have l: "length (der_enc 0x04 salt @ der_enc 0x02 (der_int n) @ P) < 2 ^ 32" by simp
  have p: "expect 0x30 m P = Inr (der_enc 0x06 OID_HMAC_SHA256 @ der_enc 0x05 [], [])" for m
    unfolding P_def by (rule expect_enc_last) (use ph in simp_all)
  have t: "brssl_der_peek_tag P = 0x30" using hd_der_enc [of "0x30" _ "[]"] by (simp add: P_def)
  have oid: "length OID_HMAC_SHA256 < 2 ^ 32" "length OID_PBKDF2 < 2 ^ 32" by (simp_all add: OID_HMAC_SHA256_def OID_PBKDF2_def)
  have tag: "brssl_der_peek_tag (der_enc 0x30 x) = 0x30" for x using hd_der_enc [of "0x30" x "[]"] by simp
  show ?thesis
    using l i assms oid p t
    by (simp add: pbes2_kdf_def kdf_enc_def P_def [symmetric] pbkdf2_params_def expect_enc expect_enc_last then_parse_def
        check_def brssl_oid_match_def tag)
qed

lemma cipher_roundtrip: "length iv = 16 \<Longrightarrow> pbes2_cipher (cipher_enc iv) = Inr iv"
  by (simp add: pbes2_cipher_def cipher_enc_def expect_enc expect_enc_last then_parse_def check_def brssl_oid_match_def
      OID_AES256_CBC_def)

lemma envelope_parse:
  assumes n: "0 < n" "n < 2 ^ 31" and salt: "length salt < 2 ^ 30" and iv: "length iv = 16" and ct: "length ct < 2 ^ 31" and pw: "pw \<noteq> []"
  shows "brssl_pbes2_decrypt H D alloc (Some (envelope salt n iv ct)) (Some pw) = pbes2_open H D alloc pw salt (of_nat n) iv ct"
proof -
  have small: "length (der_enc t v) < N + 6" if "length v < N" "N < 2 ^ 32" for t v N
    using length_der_enc [of v t] that by simp
  define K where "K = der_enc 0x30 (kdf_enc salt n)"
  define C where "C = der_enc 0x30 (cipher_enc iv)"
  define A where "A = der_enc 0x06 OID_PBES2 @ der_enc 0x30 (K @ C)"
  have i: "length (der_int n) < 5" using der_int_word [OF n] by simp
  have oids: "length OID_PBES2 < 10" "length OID_PBKDF2 < 10" "length OID_AES256_CBC < 10" "length OID_HMAC_SHA256 < 10"
    by (simp_all add: OID_PBES2_def OID_PBKDF2_def OID_AES256_CBC_def OID_HMAC_SHA256_def)
  have ph: "length (der_enc 0x30 (der_enc 0x06 OID_HMAC_SHA256 @ der_enc 0x05 [])) < 100"
    using small [of "der_enc 0x06 OID_HMAC_SHA256 @ der_enc 0x05 []" 94 "0x30"] oids
      small [of OID_HMAC_SHA256 10 "0x06"] small [of "[]" 1 "0x05"] by simp
  have kp: "length (der_enc 0x04 salt @ der_enc 0x02 (der_int n) @ der_enc 0x30 (der_enc 0x06 OID_HMAC_SHA256 @ der_enc 0x05 []))
      < 2 ^ 30 + 200"
    using ph small [of salt "2 ^ 30" "0x04"] salt small [of "der_int n" 5 "0x02"] i by simp
  have k: "length (kdf_enc salt n) < 2 ^ 30 + 300"
    using small [OF kp, of "0x30"] small [of OID_PBKDF2 10 "0x06"] oids by (simp add: kdf_enc_def)
  have c: "length (cipher_enc iv) < 100"
    using small [of OID_AES256_CBC 10 "0x06"] small [of iv 17 "0x04"] iv oids by (simp add: cipher_enc_def)
  have kc: "length (K @ C) < 2 ^ 30 + 500" using small [OF k, of "0x30"] small [OF c, of "0x30"] by (simp add: K_def C_def)
  have a: "length A < 2 ^ 30 + 600" using small [OF kc, of "0x30"] small [of OID_PBES2 10 "0x06"] oids by (simp add: A_def)
  have e: "length (der_enc 0x30 A @ der_enc 0x04 ct) < 2 ^ 32"
    using small [OF a, of "0x30"] small [of ct "2 ^ 31" "0x04"] ct by simp
  have env: "envelope salt n iv ct = der_enc 0x30 (der_enc 0x30 A @ der_enc 0x04 ct)"
    by (simp add: envelope_def A_def K_def C_def)
  have 1: "expect 0x30 m (envelope salt n iv ct) = Inr (der_enc 0x30 A @ der_enc 0x04 ct, [])" for m
    unfolding env by (rule expect_enc_last) (use e in simp_all)
  have 2: "expect 0x30 m (der_enc 0x30 A @ der_enc 0x04 ct) = Inr (A, der_enc 0x04 ct)" for m
    by (rule expect_enc) (use a in simp_all)
  have 3: "expect 0x06 m A = Inr (OID_PBES2, der_enc 0x30 (K @ C))" for m
    unfolding A_def by (rule expect_enc) (use oids in simp_all)
  have 4: "expect 0x30 m (der_enc 0x30 (K @ C)) = Inr (K @ C, [])" for m
    by (rule expect_enc_last) (use kc in simp_all)
  have 5: "expect 0x30 m (K @ C) = Inr (kdf_enc salt n, C)" for m
    unfolding K_def by (rule expect_enc) (use k in simp_all)
  have 6: "expect 0x30 m C = Inr (cipher_enc iv, [])" for m
    unfolding C_def by (rule expect_enc_last) (use c in simp_all)
  have 7: "expect 0x04 m (der_enc 0x04 ct) = Inr (ct, [])" for m
    by (rule expect_enc_last) (use ct in simp_all)
  show ?thesis
    using pw by (simp add: brssl_pbes2_decrypt_def check_def then_parse_def brssl_oid_match_def 1 2 3 4 5 6 7
        kdf_roundtrip [OF n salt] cipher_roundtrip [OF iv])
qed

text \<open>
  C19: a key encrypted with a password is recovered with that password. For every message, salt, initial vector and iteration count
  up to 2147483647, the envelope that holds the padded message, encrypted under the key derived from the password, decrypts to the
  message, if AES-CBC decryption inverts the encryption. The one exception is the empty message, which is refused.
\<close>

theorem pbes2_roundtrip:
  assumes "\<And>k v x. length x mod 16 = 0 \<Longrightarrow> D k v (C k v x) = x \<and> length (C k v x) = length x"
    and "0 < n" and "n < 2 ^ 31" and "length salt < 2 ^ 30" and "length iv = 16" and "length m < 2 ^ 30" and "pw \<noteq> []"
    and "\<And>k. alloc k"
  shows "brssl_pbes2_decrypt H D alloc
      (Some (envelope salt n iv (C (the (brssl_pbkdf2 H pw salt (of_nat n) 32)) iv (pkcs7_pad 16 m)))) (Some pw)
    = (if m = [] then Inl ''bad padding (wrong password?)'' else Inr m)"
proof -
  have p: "length (pkcs7_pad 16 m) mod 16 = 0" by (rule pkcs7_pad_length) simp
  have len: "length (pkcs7_pad 16 m) < 2 ^ 31" using assms(6) by (simp add: pkcs7_pad_def Let_def)
  have ne: "pkcs7_pad 16 m \<noteq> []" by (simp add: pkcs7_pad_def Let_def)
  have s: "brssl_strip_pkcs7 (pkcs7_pad 16 m) 16 = length m" using pkcs7_strip [of 16 m] by simp
  have t: "take (length m) (pkcs7_pad 16 m) = m" by (simp add: pkcs7_pad_def Let_def)
  have w: "(of_nat n :: u32) \<noteq> 0"
    using assms(2,3) by (simp add: word_unat_eq_iff unat_of_nat)
  then obtain dk where dk: "brssl_pbkdf2 H pw salt (of_nat n) 32 = Some dk" by (simp add: brssl_pbkdf2_def)
  let ?ct = "C dk iv (pkcs7_pad 16 m)"
  have ct: "D dk iv ?ct = pkcs7_pad 16 m" "length ?ct = length (pkcs7_pad 16 m)" using assms(1) [OF p] by auto
  then have "?ct \<noteq> []" using ne by auto
  then have "pbes2_open H D alloc pw salt (of_nat n) iv ?ct = (if m = [] then Inl ''bad padding (wrong password?)'' else Inr m)"
    using ct p s t by (simp add: pbes2_open_def dk assms(8) brssl_cbc_decrypt_def Let_def)
  moreover have "brssl_pbes2_decrypt H D alloc (Some (envelope salt n iv ?ct)) (Some pw) = pbes2_open H D alloc pw salt (of_nat n) iv ?ct"
    by (rule envelope_parse) (use assms len ct in simp_all)
  ultimately show ?thesis by (simp add: dk)
qed

text \<open>With the identity in place of AES.\<close>

theorem pbes2_roundtrip_witness:
  "brssl_pbes2_decrypt toy_hmac (\<lambda>_ _ x. x) (\<lambda>_. True) (Some (envelope [1, 2] 2048 (replicate 16 5) (pkcs7_pad 16 [48, 1, 0]))) (Some [97])
   = Inr [48, 1, 0]"
  using pbes2_roundtrip [where D = "\<lambda>_ _ x. x" and C = "\<lambda>_ _ x. x" and H = toy_hmac and alloc = "\<lambda>_. True" and n = 2048
      and salt = "[1, 2]" and iv = "replicate 16 5" and m = "[48, 1, 0]" and pw = "[97]"] by simp

section \<open>The context\<close>

lemma pem_object_ne: "b \<in> set (of_list (pem_object x)) \<Longrightarrow> b \<noteq> []"
  by (auto simp: of_list_def pem_object_def split: option.splits if_splits)

lemma cert_drain_ne:
  assumes "cert_drain dec certs progress st = Some y"
  shows "[] \<notin> set certs \<longrightarrow> [] \<notin> set (fst y)"
proof (rule cert_drain.raw_induct [where P = "\<lambda>dec certs progress st y. [] \<notin> set certs \<longrightarrow> [] \<notin> set (fst y)", OF _ assms])
  fix drain and dec :: "'a pem_decoder" and certs progress st y
  assume IH: "\<And>dec certs progress st y. drain dec certs progress st = Some y \<Longrightarrow> [] \<notin> set certs \<longrightarrow> [] \<notin> set (fst y)"
    and body: "(if ps_error st then Some ([], progress, None)
      else case pd_event dec (ps_dec st) of (ev, d) \<Rightarrow>
        if ev = Pem_begin then drain dec certs True (pem_begin dec ''CERTIFICATE'' d st)
        else if ev = Pem_end then drain dec (certs @ of_list (pem_object st)) True (pem_close d st)
        else Some (certs, progress, Some (st\<lparr>ps_dec := d\<rparr>))) = Some y"
  then show "[] \<notin> set certs \<longrightarrow> [] \<notin> set (fst y)"
    by (fastforce split: if_splits prod.splits dest: IH pem_object_ne)
qed

lemma cert_feed_ne:
  assumes "cert_feed dec ok pem pushed certs st = Some y"
  shows "[] \<notin> set certs \<longrightarrow> [] \<notin> set y"
proof (rule cert_feed.raw_induct [where P = "\<lambda>dec ok pem pushed certs st y. [] \<notin> set certs \<longrightarrow> [] \<notin> set y", OF _ assms])
  fix feed and dec :: "'a pem_decoder" and ok pem pushed certs st y
  assume IH: "\<And>dec ok pem pushed certs st y. feed dec ok pem pushed certs st = Some y \<Longrightarrow> [] \<notin> set certs \<longrightarrow> [] \<notin> set y"
    and body: "(case pem_push dec ok (drop pushed pem) st of (r, x1) \<Rightarrow>
        cert_drain dec certs (r > 0) x1 \<bind> (\<lambda>(certs1, progress, x2).
          case x2 of
            None \<Rightarrow> Some []
          | Some x3 \<Rightarrow>
              if pushed + r \<ge> length pem \<or> \<not> progress then Some (certs1 @ of_list (pem_object x3))
              else feed dec ok pem (pushed + r) certs1 x3)) = Some y"
  obtain r x1 where push: "pem_push dec ok (drop pushed pem) st = (r, x1)" by fastforce
  with body obtain certs1 progress x2 where d: "cert_drain dec certs (r > 0) x1 = Some (certs1, progress, x2)"
    by (cases "cert_drain dec certs (r > 0) x1") auto
  show "[] \<notin> set certs \<longrightarrow> [] \<notin> set y"
    using body cert_drain_ne [OF d] push d
    by (auto split: if_splits option.splits dest: IH pem_object_ne)
qed

lemma parse_certificates_ne: "parse_certificates dec ok pem = Some certs \<Longrightarrow> [] \<notin> set certs"
  using cert_feed_ne by (fastforce simp: parse_certificates_def split: option.splits)

lemma normalize_pem_ok: "normalize_pem a src = Some text \<Longrightarrow> normalize_pem True src = Some text"
  by (auto simp: normalize_pem_def Let_def split: option.splits if_splits)

lemma decrypted_key_Some:
  "decrypted_key X obj pw = Some k \<Longrightarrow> \<exists>der plain. obj = Some der
     \<and> brssl_pbes2_decrypt (x_hmac X) (x_cbc X) (\<lambda>n. x_alloc X (Plain_der n)) (Some der) (Some pw) = Inr plain \<and> x_key_der X plain = k"
  by (auto simp: decrypted_key_def split: option.splits sum.splits if_splits)

lemma finish_ctx_Some:
  assumes "finish_ctx X key password certs = Some (Some ctx)"
  shows "certs \<noteq> [] \<and> x_chain ctx = certs
    \<and> (\<exists>rsa ec. server_key X key password = Some (Some (rsa, ec)) \<and> (rsa \<or> ec) \<and> x_suites ctx = server_suites rsa ec)"
proof (cases "server_key X key password")
  case (Some pk)
  then show ?thesis using assms by (cases pk) (auto simp: finish_ctx_def split: if_splits)
qed (use assms in \<open>simp add: finish_ctx_def split: if_splits\<close>)

lemma new_server_ctx_Some:
  assumes "tcp_ssl_new_server_ctx X cert_pem key_pem password = Some (Some ctx)"
  shows "\<exists>cert key certs. normalize_pem True key_pem = Some key
    \<and> parse_certificates (x_pem X) (\<lambda>b. x_alloc X (Grow_buffer b)) (Some cert) = Some certs
    \<and> finish_ctx X key password certs = Some (Some ctx)"
proof -
  obtain cert key where n: "normalize_pem (x_alloc X Norm_cert) cert_pem = Some cert"
      "normalize_pem (x_alloc X Norm_key) key_pem = Some key"
    using assms by (auto simp: tcp_ssl_new_server_ctx_def split: option.splits if_splits)
  have "parse_certificates (x_pem X) (\<lambda>b. x_alloc X (Grow_buffer b)) (Some cert) \<bind> finish_ctx X key password = Some (Some ctx)"
    using assms by (auto simp: tcp_ssl_new_server_ctx_def n split: if_splits)
  then show ?thesis using normalize_pem_ok [OF n(2)] by (auto simp: bind_eq_Some_conv)
qed

text \<open>
  C22: a server context is only made of a chain with at least one certificate, none of them empty, and of a key that is RSA or
  EC. When the key text is marked as encrypted, the key is the one parsed from what the given, nonempty password decrypts, and
  nothing else; without a password, with an object that is missing or with a decryption that fails there is no context.
\<close>

theorem server_ctx_sound:
  assumes "tcp_ssl_new_server_ctx X cert_pem key_pem password = Some (Some ctx)"
  shows "x_chain ctx \<noteq> [] \<and> [] \<notin> set (x_chain ctx)
    \<and> (case normalize_pem True key_pem of None \<Rightarrow> False
       | Some key \<Rightarrow> \<exists>rsa ec. (rsa \<or> ec) \<and> x_suites ctx = server_suites rsa ec
         \<and> (if x_pkcs8 X \<and> strstr key (cstr ''ENCRYPTED PRIVATE KEY'')
            then \<exists>pw der plain. password = Some pw \<and> pw \<noteq> []
              \<and> brssl_pem_extract_object (x_pem X) (\<lambda>b. x_alloc X (Grow_buffer b)) key ''ENCRYPTED PRIVATE KEY'' = Some (Some der)
              \<and> brssl_pbes2_decrypt (x_hmac X) (x_cbc X) (\<lambda>n. x_alloc X (Plain_der n)) (Some der) (Some pw) = Inr plain
              \<and> x_key_der X plain = (rsa, ec)
            else x_key_pem X key = (rsa, ec)))"
proof -
  obtain cert key certs where key: "normalize_pem True key_pem = Some key"
    and parse: "parse_certificates (x_pem X) (\<lambda>b. x_alloc X (Grow_buffer b)) (Some cert) = Some certs"
    and fin: "finish_ctx X key password certs = Some (Some ctx)"
    using new_server_ctx_Some [OF assms] by blast
  then obtain rsa ec where k: "server_key X key password = Some (Some (rsa, ec))" "rsa \<or> ec" "x_suites ctx = server_suites rsa ec"
      and ne: "certs \<noteq> []" "x_chain ctx = certs"
    using finish_ctx_Some [OF fin] by blast
  have "[] \<notin> set certs" by (rule parse_certificates_ne [OF parse])
  moreover have "if x_pkcs8 X \<and> strstr key (cstr ''ENCRYPTED PRIVATE KEY'')
            then \<exists>pw der plain. password = Some pw \<and> pw \<noteq> []
              \<and> brssl_pem_extract_object (x_pem X) (\<lambda>b. x_alloc X (Grow_buffer b)) key ''ENCRYPTED PRIVATE KEY'' = Some (Some der)
              \<and> brssl_pbes2_decrypt (x_hmac X) (x_cbc X) (\<lambda>n. x_alloc X (Plain_der n)) (Some der) (Some pw) = Inr plain
              \<and> x_key_der X plain = (rsa, ec)
            else x_key_pem X key = (rsa, ec)"
    using k(1) by (auto simp: server_key_def split: if_splits option.splits dest: decrypted_key_Some)
  ultimately show ?thesis
    unfolding key option.case using ne k(2,3) by (intro conjI exI [of _ rsa] exI [of _ ec]) simp_all
qed

text \<open>A decoder that finds one certificate, and a key parser that finds an EC key.\<close>

definition one_cert :: "nat pem_decoder" where
  "one_cert =
     \<lparr>pd_init = 0, pd_push = (\<lambda>d input. if d = 0 then (1, [], 1) else (length input, [[7, 8]], 3)),
      pd_event = (\<lambda>d. if d = 1 then (Pem_begin, 2) else if d = 3 then (Pem_end, 4) else (Pem_other, d)),
      pd_name = (\<lambda>_. ''CERTIFICATE'')\<rparr>"

definition plain_keys :: "nat bear_keys" where
  "plain_keys =
     \<lparr>x_pkcs8 = False, x_pem = one_cert, x_hmac = toy_hmac, x_cbc = (\<lambda>_ _ x. x), x_key_pem = (\<lambda>_. (False, True)),
      x_key_der = (\<lambda>_. (False, False)), x_alloc = (\<lambda>_. True)\<rparr>"

lemma one_cert_parse: "parse_certificates one_cert (\<lambda>_. True) (Some [45, 45, 10]) = Some [[7, 8]]"
  by (simp add: parse_certificates_def one_cert_def pem_start_def pem_push_def cert_feed.simps cert_drain.simps pem_begin_def
      brssl_pem_append_def pem_object_def pem_close_def of_list_def)

theorem server_ctx_sound_witness:
  "case tcp_ssl_new_server_ctx plain_keys (Some [45, 45, 10]) (Some [48]) None of
     Some (Some ctx) \<Rightarrow> x_chain ctx \<noteq> [] \<and> x_suites ctx = Ecdsa_suites | _ \<Rightarrow> False"
proof -
  have r: "tcp_ssl_new_server_ctx plain_keys (Some [45, 45, 10]) (Some [48]) None
      = Some (Some \<lparr>x_chain = [[7, 8]], x_suites = Ecdsa_suites\<rparr>)"
    using one_cert_parse
    by (simp add: tcp_ssl_new_server_ctx_def finish_ctx_def plain_keys_def normalize_pem_def server_key_def server_suites_def)
  from server_ctx_sound [OF this] r show ?thesis by simp
qed

end
