(* ===== verification/X509_Insecure.thy ===== *)
theory X509_Insecure
  imports Prelude
begin

text \<open>
  The certificate validator of the ESP8266 client (\<open>insecure_*\<close> and \<open>br_x509_insecure_init\<close>, \<open>src/AsyncSecureSession.cpp\<close>): the callbacks
  the BearSSL engine calls while the peer's certificates come in, and what they let pass.
\<close>

section \<open>BearSSL and the validator's state\<close>

text \<open>
  What is BearSSL's: the X.509 decoder, whose \<open>push\<close> gives, beside its next state, the bytes of the subject and of the issuer name it handed to
  their callbacks; the two hash functions; and the code of the error. A hash context is the bytes it was updated with.
\<close>

record ('d, 'k) x509_lib =
  xd_zero :: 'd
  xd_init :: 'd
  xd_push :: "u8 list \<Rightarrow> 'd \<Rightarrow> 'd \<times> u8 list \<times> u8 list"
  xd_pkey :: "'d \<Rightarrow> 'k"
  sha1 :: "u8 list \<Rightarrow> u8 list"
  sha256 :: "u8 list \<Rightarrow> u8 list"
  not_trusted :: nat

record 'd x509_insecure =
  x_done :: bool
  x_sha1 :: "u8 list"
  x_subject :: "u8 list"
  x_issuer :: "u8 list"
  x_dec :: 'd
  x_fingerprint :: "u8 list option"
  x_self_signed :: bool

section \<open>The callbacks\<close>

definition br_x509_insecure_init :: "('d, 'k) x509_lib \<Rightarrow> bool \<Rightarrow> u8 list option \<Rightarrow> bool \<Rightarrow> 'd x509_insecure" where
  "br_x509_insecure_init L use_fingerprint fingerprint allow_self_signed =
     \<lparr>x_done = False, x_sha1 = [], x_subject = [], x_issuer = [], x_dec = xd_zero L,
      x_fingerprint = (if use_fingerprint then fingerprint else None), x_self_signed = allow_self_signed\<rparr>"

definition insecure_subject_dn_append :: "u8 list \<Rightarrow> 'd x509_insecure \<Rightarrow> 'd x509_insecure" where
  "insecure_subject_dn_append buf xc = xc\<lparr>x_subject := x_subject xc @ buf\<rparr>"

definition insecure_issuer_dn_append :: "u8 list \<Rightarrow> 'd x509_insecure \<Rightarrow> 'd x509_insecure" where
  "insecure_issuer_dn_append buf xc = xc\<lparr>x_issuer := x_issuer xc @ buf\<rparr>"

definition insecure_start_chain :: "('d, 'k) x509_lib \<Rightarrow> string \<Rightarrow> 'd x509_insecure \<Rightarrow> 'd x509_insecure" where
  "insecure_start_chain L server_name xc = xc\<lparr>x_dec := xd_init L, x_done := False, x_sha1 := [], x_subject := [], x_issuer := []\<rparr>"

definition insecure_start_cert :: "u32 \<Rightarrow> 'd x509_insecure \<Rightarrow> 'd x509_insecure" where
  "insecure_start_cert len xc = xc"

definition insecure_append :: "('d, 'k) x509_lib \<Rightarrow> u8 list \<Rightarrow> 'd x509_insecure \<Rightarrow> 'd x509_insecure" where
  "insecure_append L buf xc =
     (if \<not> x_done xc
      then case xd_push L buf (x_dec xc) of (d, subject, issuer) \<Rightarrow>
        insecure_issuer_dn_append issuer (insecure_subject_dn_append subject (xc\<lparr>x_sha1 := x_sha1 xc @ buf, x_dec := d\<rparr>))
      else xc)"

definition insecure_end_cert :: "'d x509_insecure \<Rightarrow> 'd x509_insecure" where
  "insecure_end_cert xc = xc\<lparr>x_done := True\<rparr>"

definition insecure_end_chain :: "('d, 'k) x509_lib \<Rightarrow> 'd x509_insecure \<Rightarrow> nat" where
  "insecure_end_chain L xc =
     (if \<not> x_done xc then 1
      else if (case x_fingerprint xc of None \<Rightarrow> False | Some f \<Rightarrow> take 20 (sha1 L (x_sha1 xc)) \<noteq> take 20 f) then not_trusted L
      else if x_self_signed xc \<and> take 32 (sha256 L (x_subject xc)) \<noteq> take 32 (sha256 L (x_issuer xc)) then not_trusted L
      else 0)"

text \<open>\<open>BR_KEYTYPE_KEYX | BR_KEYTYPE_SIGN\<close>\<close>

definition BR_KEYTYPE_ANY :: nat where "BR_KEYTYPE_ANY = 0x30"

definition insecure_get_pkey :: "('d, 'k) x509_lib \<Rightarrow> 'd x509_insecure \<Rightarrow> 'k \<times> nat" where
  "insecure_get_pkey L xc = (xd_pkey L (x_dec xc), BR_KEYTYPE_ANY)"

section \<open>A chain of certificates\<close>

text \<open>
  The order in which the engine calls: the start of the chain, each certificate with its length and its pieces, the end of the chain.
  A certificate is the list of its pieces.
\<close>

definition validate_cert :: "('d, 'k) x509_lib \<Rightarrow> u8 list list \<Rightarrow> 'd x509_insecure \<Rightarrow> 'd x509_insecure" where
  "validate_cert L pieces xc =
     insecure_end_cert (fold (insecure_append L) pieces (insecure_start_cert (of_nat (length (concat pieces))) xc))"

definition validate_chain :: "('d, 'k) x509_lib \<Rightarrow> string \<Rightarrow> u8 list list list \<Rightarrow> 'd x509_insecure \<Rightarrow> 'd x509_insecure" where
  "validate_chain L server_name chain xc = fold (validate_cert L) chain (insecure_start_chain L server_name xc)"

text \<open>The validator \<open>tcp_ssl_new_client\<close> installs.\<close>

definition client_validator :: "('d, 'k) x509_lib \<Rightarrow> 'd x509_insecure" where
  "client_validator L = br_x509_insecure_init L False None False"

section \<open>What it looks at\<close>

text \<open>A decoder may be given its input in any pieces.\<close>

definition streaming :: "('d, 'k) x509_lib \<Rightarrow> bool" where
  "streaming L \<longleftrightarrow>
     (\<forall>d. xd_push L [] d = (d, [], []))
     \<and> (\<forall>a b d. xd_push L (a @ b) d =
          (case xd_push L a d of (d1, s1, i1) \<Rightarrow> case xd_push L b d1 of (d2, s2, i2) \<Rightarrow> (d2, s1 @ s2, i1 @ i2)))"

lemma append_done: "x_done xc \<Longrightarrow> fold (insecure_append L) pieces xc = xc"
  by (induction pieces) (simp_all add: insecure_append_def)

lemma append_pieces:
  assumes "streaming L" and "\<not> x_done xc"
  shows "fold (insecure_append L) pieces xc = insecure_append L (concat pieces) xc"
  using assms(2)
proof (induction pieces arbitrary: xc)
  case Nil
  then show ?case using assms(1)
    by (simp add: insecure_append_def streaming_def insecure_issuer_dn_append_def insecure_subject_dn_append_def)
next
  case (Cons a r)
  obtain d1 s1 i1 where a: "xd_push L a (x_dec xc) = (d1, s1, i1)" by (metis prod_cases3)
  obtain d2 s2 i2 where b: "xd_push L (concat r) d1 = (d2, s2, i2)" by (metis prod_cases3)
  have ab: "xd_push L (a @ concat r) (x_dec xc) = (d2, s1 @ s2, i1 @ i2)" using assms(1) a b by (simp add: streaming_def)
  have "\<not> x_done (insecure_append L a xc)"
    using Cons.prems a by (simp add: insecure_append_def insecure_issuer_dn_append_def insecure_subject_dn_append_def)
  from Cons.IH [OF this] show ?case
    using Cons.prems a b ab by (simp add: insecure_append_def insecure_issuer_dn_append_def insecure_subject_dn_append_def)
qed

lemma later_certs: "x_done xc \<Longrightarrow> fold (validate_cert L) chain xc = xc"
proof (induction chain)
  case (Cons pieces r)
  have "validate_cert L pieces xc = xc"
    by (simp add: validate_cert_def insecure_start_cert_def insecure_end_cert_def append_done [OF Cons.prems]) (simp add: Cons.prems)
  then show ?case using Cons by simp
qed simp

section \<open>Properties\<close>

lemma verdict_first:
  assumes "streaming L" and p: "xd_push L (concat cert) (xd_init L) = (d, s, i)"
  shows "validate_chain L server_name (cert # rest) xc
    = xc\<lparr>x_done := True, x_sha1 := concat cert, x_subject := s, x_issuer := i, x_dec := d\<rparr>"
proof -
  let ?x = "insecure_start_chain L server_name xc"
  have "validate_cert L cert ?x = insecure_end_cert (insecure_append L (concat cert) ?x)"
    using append_pieces [OF assms(1), of ?x] by (simp add: validate_cert_def insecure_start_cert_def insecure_start_chain_def)
  then have "validate_cert L cert ?x = xc\<lparr>x_done := True, x_sha1 := concat cert, x_subject := s, x_issuer := i, x_dec := d\<rparr>"
    using p by (simp add: insecure_end_cert_def insecure_append_def insecure_start_chain_def insecure_issuer_dn_append_def
        insecure_subject_dn_append_def)
  then show ?thesis using later_certs [where L = L and chain = rest] by (simp add: validate_chain_def)
qed

lemma no_demands:
  "x_fingerprint (fold (validate_cert L) chain xc) = x_fingerprint xc \<and> x_self_signed (fold (validate_cert L) chain xc) = x_self_signed xc
   \<and> (chain \<noteq> [] \<longrightarrow> x_done (fold (validate_cert L) chain xc))"
proof -
  have a: "x_fingerprint (fold (insecure_append L) ps y) = x_fingerprint y \<and> x_self_signed (fold (insecure_append L) ps y) = x_self_signed y" for ps y
    by (induction ps arbitrary: y)
      (simp_all add: insecure_append_def insecure_issuer_dn_append_def insecure_subject_dn_append_def split: prod.split)
  have c: "x_fingerprint (validate_cert L ps y) = x_fingerprint y \<and> x_self_signed (validate_cert L ps y) = x_self_signed y
      \<and> x_done (validate_cert L ps y)" for ps y
    using a by (simp add: validate_cert_def insecure_end_cert_def insecure_start_cert_def)
  show ?thesis
  proof (induction chain rule: rev_induct)
    case (snoc ps r)
    then show ?case using c by simp
  qed simp
qed

text \<open>
  C23: the validator decides on the bytes of the first certificate alone, however they come in pieces and whatever follows them, and on nothing the
  chain says of the server's name. It refuses a chain without a certificate, one whose first certificate has another fingerprint than the one asked
  for, and, where self-signed certificates are asked for, one that is not; the key it hands to the engine is the one in that certificate. As
  \<open>tcp_ssl_new_client\<close> installs it, it accepts every chain of certificates.
\<close>

theorem validator_sees_first_certificate:
  assumes "streaming L"
  shows "(case xd_push L (concat cert) (xd_init L) of (d, subject, issuer) \<Rightarrow>
       insecure_end_chain L (validate_chain L server_name (cert # rest) xc) =
         (if (\<exists>f. x_fingerprint xc = Some f \<and> take 20 (sha1 L (concat cert)) \<noteq> take 20 f) then not_trusted L
          else if x_self_signed xc \<and> take 32 (sha256 L subject) \<noteq> take 32 (sha256 L issuer) then not_trusted L
          else 0)
       \<and> insecure_get_pkey L (validate_chain L server_name (cert # rest) xc) = (xd_pkey L d, BR_KEYTYPE_ANY))
   \<and> insecure_end_chain L (validate_chain L server_name [] xc) = 1
   \<and> insecure_end_chain L (validate_chain L server_name chain (client_validator L)) = (if chain = [] then 1 else 0)"
proof (intro conjI)
  obtain d s i where p: "xd_push L (concat cert) (xd_init L) = (d, s, i)" by (metis prod_cases3)
  show "case xd_push L (concat cert) (xd_init L) of (d, subject, issuer) \<Rightarrow>
       insecure_end_chain L (validate_chain L server_name (cert # rest) xc) =
         (if (\<exists>f. x_fingerprint xc = Some f \<and> take 20 (sha1 L (concat cert)) \<noteq> take 20 f) then not_trusted L
          else if x_self_signed xc \<and> take 32 (sha256 L subject) \<noteq> take 32 (sha256 L issuer) then not_trusted L
          else 0)
       \<and> insecure_get_pkey L (validate_chain L server_name (cert # rest) xc) = (xd_pkey L d, BR_KEYTYPE_ANY)"
    unfolding verdict_first [OF assms p] by (simp add: p insecure_end_chain_def insecure_get_pkey_def split: option.split)
  show "insecure_end_chain L (validate_chain L server_name [] xc) = 1"
    by (simp add: validate_chain_def insecure_start_chain_def insecure_end_chain_def)
  show "insecure_end_chain L (validate_chain L server_name chain (client_validator L)) = (if chain = [] then 1 else 0)"
    using no_demands [of L chain "insecure_start_chain L server_name (client_validator L)"]
    by (auto simp: validate_chain_def insecure_end_chain_def insecure_start_chain_def client_validator_def br_x509_insecure_init_def)
qed

text \<open>A decoder that takes every byte for the subject and keeps none, and hash functions that do nothing.\<close>

definition toy_x509 :: "(nat, nat) x509_lib" where
  "toy_x509 = \<lparr>xd_zero = 0, xd_init = 1, xd_push = (\<lambda>b d. (d + length b, b, [])), xd_pkey = (\<lambda>d. d), sha1 = (\<lambda>b. b), sha256 = (\<lambda>b. b),
     not_trusted = 62\<rparr>"

theorem validator_sees_first_certificate_witness:
  "insecure_end_chain toy_x509 (validate_chain toy_x509 ''host'' [[[1], [2, 3]], [[9]]] (br_x509_insecure_init toy_x509 True (Some [1, 2, 3]) False)) = 0
   \<and> insecure_end_chain toy_x509 (validate_chain toy_x509 ''host'' [[[1, 2], [4]]] (br_x509_insecure_init toy_x509 True (Some [1, 2, 3]) False)) = 62"
proof -
  have s: "streaming toy_x509" by (simp add: streaming_def toy_x509_def)
  note v = validator_sees_first_certificate [OF s, where server_name = "''host''" and xc = "br_x509_insecure_init toy_x509 True (Some [1, 2, 3]) False"]
  show ?thesis
    using v [where cert = "[[1], [2, 3]]" and rest = "[[[9]]]"] v [where cert = "[[1, 2], [4]]" and rest = "[]"]
    by (simp add: toy_x509_def br_x509_insecure_init_def)
qed

end
