(* ===== verification/Keeping.thy ===== *)
theory Keeping
  imports Dispatch
begin

text \<open>
  Invariants of what the transport does not own. The transport never writes the pool of parked connections, the number of TLS
  sessions, nor the state that a build adds to \<open>sys\<close>: all it does to them it does through the hooks and the callbacks. So an invariant of these
  that the hooks and the callbacks keep is kept by every step of the system.
\<close>

section \<open>Steps beside\<close>

definition aside :: "('h, 'm) sys_scheme \<Rightarrow> ('h, 'm) sys_scheme \<Rightarrow> bool" where
  "aside s s' \<longleftrightarrow>
     park s' = park s \<and> tls_active s' = tls_active s \<and> sys.more s' = sys.more s \<and> (\<exists>t. trace s' = trace s @ t)"

lemma aside_refl [simp]: "aside s s"
  by (simp add: aside_def)

lemma aside_trans: "aside a b \<Longrightarrow> aside b c \<Longrightarrow> aside a c"
  by (auto simp: aside_def)

lemma aside_basic:
  "aside s (log x s)" "aside s (logs xs s)" "aside s (upd c f s)" "aside s (upd_server v g s)" "aside s (set_pcb c p s)"
  by (simp_all add: aside_def log_def logs_def upd_def upd_server_def set_pcb_def)

lemma aside_record [simp]:
  "aside a (s\<lparr>queue := q\<rparr>) = aside a s" "aside a (s\<lparr>rng := n\<rparr>) = aside a s" "aside a (s\<lparr>scheduled := k\<rparr>) = aside a s"
  "aside a (s\<lparr>next_cid := c\<rparr>) = aside a s" "aside a (s\<lparr>next_token := k\<rparr>) = aside a s"
  by (simp_all add: aside_def)

lemma aside_then [simp]:
  "aside a s \<Longrightarrow> aside a (log x s)" "aside a s \<Longrightarrow> aside a (logs xs s)" "aside a s \<Longrightarrow> aside a (upd c f s)"
  "aside a s \<Longrightarrow> aside a (upd_server v g s)" "aside a s \<Longrightarrow> aside a (set_pcb c p s)"
  by (auto intro: aside_trans aside_basic)

section \<open>The operations of the transport that call nothing\<close>

lemma aside_ctx [simp]:
  "aside a s \<Longrightarrow> aside a (push_ctx c s)" "aside a s \<Longrightarrow> aside a (pop_ctx c s)" "aside a s \<Longrightarrow> aside a (set_top f c s)"
  "aside a s \<Longrightarrow> aside a (clear_token c s)" "aside a s \<Longrightarrow> aside a (mark_dead c s)"
  "aside a s \<Longrightarrow> aside a (clear_hooks c s)" "aside a s \<Longrightarrow> aside a (invalidate c s)" "aside a s \<Longrightarrow> aside a (pin c s)"
  "aside a s \<Longrightarrow> aside a (unpin c s)" "aside a s \<Longrightarrow> aside a (note_freed c b s)"
  by (simp_all add: push_ctx_def pop_ctx_def set_top_def clear_token_def mark_dead_def clear_hooks_def invalidate_def pin_def
      unpin_def note_freed_def)

lemma aside_purge [simp]:
  "aside a s \<Longrightarrow> aside a (snd (remove_events c s))" "aside a s \<Longrightarrow> aside a (reset_tcp_callbacks p (Some c) s)"
  "aside a s \<Longrightarrow> aside a (bind_tcp_callbacks p c s)" "aside a s \<Longrightarrow> aside a (close_or_abort E p s)"
  by (simp_all add: remove_events_eq reset_tcp_callbacks_def bind_tcp_callbacks_def close_or_abort_def Let_def)

lemma aside_write: "aside a s \<Longrightarrow> aside a (snd (tcp_write E c d f s))"
  by (cases "c_pcb (cl s c)") (simp_all add: tcp_write_def tcp_write_nosys_def tcp_write_sys_def tcp_write_api_def)

lemma aside_output: "aside a s \<Longrightarrow> aside a (snd (tcp_output E c s))"
  by (cases "c_pcb (cl s c)") (simp_all add: tcp_output_def tcp_output_nosys_def tcp_output_sys_def tcp_output_api_def)

lemma aside_recved: "aside a s \<Longrightarrow> aside a (snd (tcp_recved E c n s))"
  by (cases "c_pcb (cl s c)") (simp_all add: tcp_recved_def tcp_recved_nosys_def tcp_recved_sys_def tcp_recved_api_def)

lemma aside_close: "aside a s \<Longrightarrow> aside a (snd (tcp_close E c s))"
  by (cases "c_pcb (cl s c)")
    (simp_all add: tcp_close_def tcp_close_nosys_def tcp_close_sys_def tcp_close_api_def split_beta Let_def)

lemma aside_abort: "aside a s \<Longrightarrow> aside a (snd (tcp_abort E c s))"
  by (cases "c_pcb (cl s c)")
    (simp_all add: tcp_abort_def tcp_abort_nosys_def tcp_abort_sys_def tcp_abort_api_def split_beta Let_def)

lemma aside_task: "aside a s \<Longrightarrow> aside a (snd (start_async_task E s))"
  by (simp add: start_async_task_def)

lemma aside_tcp_connect: "aside a s \<Longrightarrow> aside a (snd (tcp_connect E p addr port s))"
  by (cases p) (simp_all add: tcp_connect_def tcp_connect_nosys_def tcp_connect_sys_def)

lemma aside_bind: "aside a s \<Longrightarrow> aside a (snd (snd (tcp_bind E p addr port s)))"
  by (cases p) (simp_all add: tcp_bind_def tcp_bind_nosys_def tcp_bind_sys_def tcp_bind_api_def Let_def)

lemma aside_listen: "aside a s \<Longrightarrow> aside a (snd (tcp_listen E p n s))"
  by (cases p) (simp_all add: tcp_listen_def tcp_listen_nosys_def tcp_listen_sys_def Let_def)

lemmas aside_api [simp] = aside_write aside_output aside_recved aside_close aside_abort aside_task aside_tcp_connect aside_bind aside_listen

lemma aside_connect: "aside a s \<Longrightarrow> aside a (snd (connect E c addr port s))"
  by (simp add: connect_def Let_def split_beta split: option.split)

lemma aside_connect_host: "aside a s \<Longrightarrow> aside a (snd (connect_host E c host port s))"
  by (simp add: connect_host_def Let_def split_beta aside_connect)

lemma aside_send: "aside a s \<Longrightarrow> aside a (snd (send E c s))"
  by (simp add: send_def Let_def split_beta)

lemma aside_ack: "aside a s \<Longrightarrow> aside a (snd (ack E c n s))" "aside a s \<Longrightarrow> aside a (ackPacket E c pb s)" "aside a s \<Longrightarrow> aside a (ackLater c s)"
  by (simp_all add: ack_def ackPacket_def ackLater_def Let_def split: option.split)

lemma aside_recv: "aside a s \<Longrightarrow> aside a (recv_prep E c s)" "aside a s \<Longrightarrow> aside a (recv_done E c s)"
  "aside a s \<Longrightarrow> aside a (connected_prep E c p s)"
  by (simp_all add: recv_prep_def recv_done_def connected_prep_def Let_def)

lemma aside_nodelay: "aside a s \<Longrightarrow> aside a (setNoDelay b c s)"
  by (simp add: setNoDelay_def split: option.split)

lemma aside_new_client: "aside a s \<Longrightarrow> aside a (new_client E g c p s)"
  by (simp add: new_client_def Let_def split: option.split)

lemma aside_wake: "aside a s \<Longrightarrow> aside a (schedule_process E s)" "aside a s \<Longrightarrow> aside a (wake E s)"
  by (simp_all add: schedule_process_def wake_def)

lemma aside_queue: "aside a s \<Longrightarrow> aside a (snd (queue_packet E e s))" "aside a s \<Longrightarrow> aside a (prepend_event E e s)"
  "aside a s \<Longrightarrow> aside a (snd (new_object E s))" "aside a s \<Longrightarrow> aside a (touch_rx E c s)"
  by (simp_all add: queue_packet_def new_object_def send_event_def prepend_event_def touch_rx_def aside_wake)

lemma aside_accept: "aside a s \<Longrightarrow> aside a (snd (queueAcceptEvent E v c s))"
  by (simp add: queueAcceptEvent_def new_object_def aside_queue)

lemma aside_accept_plain: "aside a s \<Longrightarrow> aside a (snd (accept_plain E g v p s))"
  by (simp add: accept_plain_def new_object_def Let_def split_beta aside_accept aside_nodelay aside_new_client)

lemma aside_begin: "aside a s \<Longrightarrow> aside a (begin_server E v s)"
  by (simp add: begin_server_def Let_def split_beta split: option.split)

lemma aside_end: "aside a s \<Longrightarrow> aside a (end_server E v s)"
  by (simp add: end_server_def Let_def split: option.split)

lemmas aside_ops [simp] = aside_connect aside_connect_host aside_send aside_ack aside_recv aside_nodelay aside_new_client aside_wake
  aside_queue aside_accept aside_accept_plain aside_begin aside_end

section \<open>Runs that keep an invariant\<close>

text \<open>\<open>keeps I f m\<close>: when the run \<open>m\<close> comes back, the state in its result satisfies \<open>I\<close>. The rules follow the shape of a definition.\<close>

definition keeps :: "('s \<Rightarrow> bool) \<Rightarrow> ('a \<Rightarrow> 's) \<Rightarrow> 'a option \<Rightarrow> bool" where
  "keeps I f m \<longleftrightarrow> (\<forall>x. m = Some x \<longrightarrow> I (f x))"

definition runner_keeps :: "(('h, 'm) sys_scheme \<Rightarrow> bool) \<Rightarrow> ('h, 'm) runner \<Rightarrow> bool" where
  "runner_keeps I cb \<longleftrightarrow> (\<forall>c e s. I s \<longrightarrow> keeps I (\<lambda>x. x) (cb c e s))"

lemma keepsD: "keeps I f m \<Longrightarrow> m = Some x \<Longrightarrow> I (f x)"
  by (simp add: keeps_def)

lemma keeps_Some [simp]: "keeps I f (Some x) = I (f x)"
  by (simp add: keeps_def)

lemma keeps_None [simp]: "keeps I f None"
  by (simp add: keeps_def)

lemma keeps_bind: "keeps I f m \<Longrightarrow> (\<And>x. I (f x) \<Longrightarrow> keeps I g (h x)) \<Longrightarrow> keeps I g (m \<bind> h)"
  by (cases m) simp_all

lemma keeps_map: "keeps I (\<lambda>x. f (g x)) m \<Longrightarrow> keeps I f (map_option g m)"
  by (cases m) simp_all

lemma keeps_case: "keeps I f m \<Longrightarrow> (\<And>x. I (f x) \<Longrightarrow> keeps I g (h x)) \<Longrightarrow> keeps I g (case m of None \<Rightarrow> None | Some x \<Rightarrow> h x)"
  by (cases m) simp_all

lemma keeps_run: "runner_keeps I cb \<Longrightarrow> I s \<Longrightarrow> keeps I (\<lambda>x. x) (cb c e s)"
  by (simp add: runner_keeps_def)

lemma keeps_call_app: "runner_keeps I cb \<Longrightarrow> I s \<Longrightarrow> keeps I (\<lambda>x. x) (call_app cb c h mk s)"
  by (simp add: call_app_def keeps_run split: option.split)

section \<open>The hooks inside operations of the application\<close>

locale beside =
  fixes I :: "('h, 'm) sys_scheme \<Rightarrow> bool"
  assumes beside: "I s \<Longrightarrow> aside s s' \<Longrightarrow> I s'"
begin

lemma error_keeps:
  assumes cb: "runner_keeps I cb" and s: "I s"
  shows "keeps I (\<lambda>x. x) (error_impl cb c e s)"
proof -
  have pop: "I s2 \<Longrightarrow> I (pop_ctx c s2)" for s2 by (erule beside) simp
  have noted: "I s2 \<Longrightarrow> I (note_freed c b s2)" for b s2 by (erule beside) simp
  have "I (push_ctx c s)" using s by (rule beside) simp
  then show ?thesis
    unfolding error_impl_def Let_def
    by (intro keeps_bind [where f = "\<lambda>x. x"] keeps_call_app [OF cb])
      (auto intro!: keeps_bind [where f = "\<lambda>x. x"] keeps_call_app [OF cb] pop noted)
qed

end

locale leaf_keeps = beside I for I :: "('h, 'm) sys_scheme \<Rightarrow> bool" +
  fixes H :: "('h, 'm) hooks"
  assumes closing: "I s \<Longrightarrow> keeps I (\<lambda>x. x) (onClosing H c s)"
    and error: "I s \<Longrightarrow> keeps I (\<lambda>x. x) (onError H c e s)"
    and deleting: "I s \<Longrightarrow> keeps I (\<lambda>x. x) (onDelete H c s)"
    and writing: "runner_keeps I cb \<Longrightarrow> I s \<Longrightarrow> keeps I snd (onWrite H cb c d s)"
begin

lemma close_impl_keeps:
  assumes cb: "runner_keeps I cb" and s: "I s"
  shows "keeps I snd (close_impl E H cb c s)"
proof -
  have "I s1 \<Longrightarrow> I (snd (tcp_close E c s1))" for s1 by (erule beside) simp
  moreover have "I s1 \<Longrightarrow> I (note_freed c b s1)" for b s1 by (erule beside) simp
  ultimately show ?thesis
    unfolding close_impl_def split_beta Let_def
    by (intro keeps_bind [where f = "\<lambda>x. x"])
      (auto simp: s closing keeps_call_app [OF cb] intro!: keeps_bind [where f = "\<lambda>x. x"])
qed

lemma close_keeps:
  assumes cb: "runner_keeps I cb" and s: "I s"
  shows "keeps I (\<lambda>x. x) (close E H cb c s)"
  unfolding close_def Let_def
  by (intro keeps_map close_impl_keeps [OF cb]) (rule beside [OF s], simp)

lemma abort_keeps:
  assumes cb: "runner_keeps I cb" and s: "I s"
  shows "keeps I snd (abort E H cb c s)"
proof -
  have 1: "I (clear_token c s)" using s by (rule beside) simp
  have "I s1 \<Longrightarrow> I (snd (tcp_abort E c s1))" for s1 by (erule beside) simp
  then show ?thesis
    unfolding abort_def split_beta Let_def
    by (intro keeps_bind [where f = "\<lambda>x. x"]) (simp_all add: 1 closing error_keeps [OF cb])
qed

lemma add_keeps:
  assumes cb: "runner_keeps I cb" and s: "I s"
  shows "keeps I snd (add E H cb c d f s)"
proof -
  have "I s1 \<Longrightarrow> I (snd (tcp_write E c x f s1))" for s1 x by (erule beside) simp
  moreover have "I s1 \<Longrightarrow> I (note_freed c b s1)" for b s1 by (erule beside) simp
  ultimately show ?thesis
    using s writing [OF cb s]
    by (auto simp: add_def Let_def split_beta split: option.split intro!: keeps_bind [where f = snd])
qed

lemma write_keeps:
  assumes cb: "runner_keeps I cb" and s: "I s"
  shows "keeps I snd (write_impl E H cb c d f s)"
proof -
  have "I s1 \<Longrightarrow> I (snd (send E c (note_freed c s s1)))" for s1 by (erule beside) simp
  then show ?thesis
    unfolding write_impl_def by (intro keeps_bind [OF add_keeps [OF cb s]]) (simp add: split_beta)
qed

lemma close_facade_keeps: "runner_keeps I cb \<Longrightarrow> I s \<Longrightarrow> keeps I (\<lambda>x. x) (close_facade E H cb c s)"
  unfolding close_facade_def by (rule close_keeps) (auto elim: beside)

lemma destroy_keeps:
  assumes cb: "runner_keeps I cb" and s: "I s"
  shows "keeps I (\<lambda>x. x) (destroy_impl E H cb c s)"
proof -
  have dead: "I s1 \<Longrightarrow> I (mark_dead c s1)" for s1 by (erule beside) simp
  have aft: "I s1 \<Longrightarrow> I (clear_hooks c s1)" "I s1 \<Longrightarrow> I (invalidate c s1)" for s1 by (erule beside, simp)+
  have del: "keeps I (\<lambda>x. x) (map_option (clear_hooks c) (onDelete H c (mark_dead c s)))"
    by (rule keeps_map) (use deleting [OF dead [OF s], of c] aft(1) in \<open>auto simp: keeps_def\<close>)
  show ?thesis
    unfolding destroy_impl_def Let_def
    by (intro keeps_bind [where f = "\<lambda>x. x"]) (simp_all add: s del dead aft keeps_map close_impl_keeps [OF cb])
qed

lemma release_keeps: "runner_keeps I cb \<Longrightarrow> I s \<Longrightarrow> keeps I (\<lambda>x. x) (release E H cb c s)"
  by (simp add: release_def destroy_keeps)

lemma drop_facade_keeps:
  assumes cb: "runner_keeps I cb" and s: "I s"
  shows "keeps I (\<lambda>x. x) (drop_facade E H cb c s)"
proof -
  have p: "I (pin c s)" by (rule beside [OF s]) simp
  have u: "I s1 \<Longrightarrow> I (unpin c s1)" for s1 by (erule beside) simp
  show ?thesis
    unfolding drop_facade_def by (rule keeps_bind [OF close_facade_keeps [OF cb p]]) (simp add: release_keeps [OF cb] u)
qed

lemma drop_client_keeps: "runner_keeps I cb \<Longrightarrow> I s \<Longrightarrow> keeps I (\<lambda>x. x) (drop_client E H cb c s)"
  unfolding drop_client_def by (rule keeps_bind [OF close_facade_keeps destroy_keeps])

lemma exec_keeps:
  assumes cb: "runner_keeps I cb" and s: "I s"
  shows "keeps I (\<lambda>x. x) (exec E H cb x s)"
proof -
  have own: "I s'" if "aside s s'" for s' by (rule beside [OF s that])
  show ?thesis
    by (cases x) (simp_all add: own close_keeps drop_facade_keeps keeps_map abort_keeps add_keeps write_keeps cb s)
qed

lemma exec_all_keeps: "runner_keeps I cb \<Longrightarrow> I s \<Longrightarrow> keeps I (\<lambda>x. x) (exec_all E H cb xs s)"
  by (induction xs arbitrary: s) (auto intro: keeps_case exec_keeps)

lemma log_exec_keeps: "runner_keeps I cb \<Longrightarrow> I s \<Longrightarrow> keeps I (\<lambda>x. x) (let s1 = log x s in exec_all E H cb (app (trace s1)) s1)"
  unfolding Let_def by (rule exec_all_keeps) (auto elim: beside)

lemma fire_keeps: "runner_keeps I (fire E H app n)"
  by (induction n) (simp_all add: runner_keeps_def log_exec_keeps del: log_simps)

lemma fire_client_keeps: "I s \<Longrightarrow> keeps I (\<lambda>x. x) (fire_client E H app n v h c s)"
  unfolding fire_client_def by (rule log_exec_keeps [OF fire_keeps])

end

section \<open>The hooks of the dispatcher\<close>

locale hooks_keep = leaf_keeps I H for I :: "('h, 'm) sys_scheme \<Rightarrow> bool" and H :: "('h, 'm) hooks" +
  assumes connected: "I s \<Longrightarrow> keeps I snd (onConnected H c s)"
    and received: "I s \<Longrightarrow> keeps I snd (onRecv H c pb s)"
    and sent: "I s \<Longrightarrow> keeps I snd (onSent H c n s)"
    and poll: "I s \<Longrightarrow> keeps I snd (onPoll H c s)"
begin

lemma connected_keeps:
  assumes cb: "runner_keeps I cb" and s: "I s"
  shows "keeps I (\<lambda>x. x) (connected_impl E H cb c p s)"
proof -
  have "I (connected_prep E c p s)" by (rule beside [OF s]) simp
  then show ?thesis
    unfolding connected_impl_def Let_def
    by (intro keeps_bind [where f = snd]) (simp_all add: connected keeps_call_app [OF cb] split_beta)
qed

lemma recv_app_keeps:
  assumes cb: "runner_keeps I cb" and s: "I s"
  shows "keeps I (\<lambda>x. x) (recv_app cb c b s)"
proof -
  have "I (set_top f c s)" for f by (rule beside [OF s]) simp
  then show ?thesis by (simp add: recv_app_def Let_def keeps_call_app [OF cb])
qed

lemma recv_loop_keeps: "runner_keeps I cb \<Longrightarrow> I s \<Longrightarrow> keeps I snd (recv_loop E cb c pb s)"
proof (induction pb arbitrary: s)
  case (Cons b pb)
  have 1: "I (recv_prep E c s)" by (rule beside [OF Cons.prems(2)]) simp
  have free: "I s1 \<Longrightarrow> I (log (Pbuf_free [b]) s1)" for s1 by (erule beside) simp
  have next_buf: "I s1 \<Longrightarrow> I (recv_done E c (log (Pbuf_free [b]) s1))" for s1 by (erule beside) simp
  show ?case
  proof (cases "c_pb_cb (cl (recv_prep E c s) c)")
    case None
    show ?thesis
      unfolding recv_loop.simps None option.case
      by (rule keeps_case [OF recv_app_keeps [OF Cons.prems(1) 1]])
        (simp add: free next_buf Cons.IH [OF Cons.prems(1)] del: log_simps)
  next
    case (Some h)
    show ?thesis
      unfolding recv_loop.simps Some option.case
      by (rule keeps_case [OF keeps_run [OF Cons.prems(1) 1]]) (simp add: Cons.IH [OF Cons.prems(1)])
  qed
qed simp

lemma recv_keeps:
  assumes cb: "runner_keeps I cb" and s: "I s"
  shows "keeps I (\<lambda>x. x) (recv_impl E H cb c pb s)"
proof -
  have push: "I s1 \<Longrightarrow> I (push_ctx c s1)" for s1 by (erule beside) simp
  have pop: "I s1 \<Longrightarrow> I (pop_ctx c s1)" for s1 by (erule beside) simp
  have free: "I s1 \<Longrightarrow> I (log (Pbuf_free l) s1)" for s1 l by (erule beside) simp
  have tail: "keeps I (\<lambda>x. x) (recv_loop E cb c pb (push_ctx c s1) \<bind> (\<lambda>(left, s2).
      Some (pop_ctx c (if left \<noteq> [] then log (Pbuf_free left) s2 else s2))))" if "I s1" for s1
    by (rule keeps_bind [OF recv_loop_keeps [OF cb push [OF that]]]) (simp add: split_beta Let_def pop free)
  show ?thesis
    unfolding recv_impl_def
    by (intro keeps_bind [where f = snd]) (auto simp: received s tail split_beta)
qed

lemma sent_keeps:
  assumes cb: "runner_keeps I cb" and s: "I s"
  shows "keeps I (\<lambda>x. x) (sent_impl E H cb c n s)"
proof -
  have upd: "I s1 \<Longrightarrow> I (upd c f s1)" for f s1 by (erule beside) simp
  have "keeps I (\<lambda>x. x) ((if hooked s c then onSent H c n s else Some (False, s)) \<bind>
      (\<lambda>(handled, s1). if handled then Some s1
        else let now = millis E (trace s1); s2 = upd c (\<lambda>k. k\<lparr>c_rx_last_packet := now, c_rx_last_ack := now\<rparr>) s1
             in call_app cb c (c_sent_cb (cl s2 c))
                 (\<lambda>h. Cb_sent h n (c_rx_last_packet (cl s2 c) - c_tx_last_packet (cl s2 c))) s2))"
    by (intro keeps_bind [where f = snd]) (auto simp: sent s split_beta Let_def intro!: keeps_call_app [OF cb] upd)
  then show ?thesis by (simp add: sent_impl_def s Let_def)
qed

lemma poll_keeps:
  assumes cb: "runner_keeps I cb" and s: "I s"
  shows "keeps I (\<lambda>x. x) (poll_impl E H cb c p s)"
proof -
  have "keeps I (\<lambda>x. x) ((if hooked s c then onPoll H c s else Some (False, s)) \<bind>
      (\<lambda>(handled, s1). if handled then Some s1 else call_app cb c (c_poll_cb (cl s1 c)) Cb_poll s1))"
    by (intro keeps_bind [where f = snd]) (auto simp: poll s split_beta intro!: keeps_call_app [OF cb])
  then show ?thesis
    by (simp add: poll_impl_def s Let_def keeps_call_app [OF cb] keeps_map close_impl_keeps [OF cb])
qed

lemma dns_keeps:
  assumes cb: "runner_keeps I cb" and s: "I s"
  shows "keeps I (\<lambda>x. x) (dns_found E cb c a s)"
proof -
  have "I (clear_token c s)" by (rule beside [OF s]) simp
  moreover have "I (snd (connect E c a p (clear_token c s)))" for p by (rule beside [OF s]) simp
  ultimately show ?thesis by (simp add: dns_found_def Let_def error_keeps [OF cb])
qed

lemma fin_keeps: "runner_keeps I cb \<Longrightarrow> I s \<Longrightarrow> keeps I (\<lambda>x. x) (fin_impl E H cb c s)"
  by (simp add: fin_impl_def close_keeps)

end

section \<open>The system\<close>

locale world_keeps = hooks_keep I H for I :: "('h, 'm) sys_scheme \<Rightarrow> bool" and H :: "('h, 'm) hooks" +
  fixes E :: lwip and V :: "('h, 'm) srv_hooks" and cb :: "('h, 'm) runner" and ccb :: "('h, 'm) client_runner"
  assumes runner: "runner_keeps I cb"
    and client_runner: "I s \<Longrightarrow> keeps I (\<lambda>x. x) (ccb v h c s)"
    and accepted: "I s \<Longrightarrow> keeps I snd (onAccepted V v c s)"
    and accept: "I s \<Longrightarrow> keeps I snd (onAccept V v p e s)"
begin

lemma accepted_keeps:
  assumes "I s"
  shows "keeps I (\<lambda>x. x) (accepted_impl V ccb v c s)"
  unfolding accepted_impl_def
  by (intro keeps_bind [where f = snd]) (auto simp: accepted assms split_beta client_runner split: option.split)

lemma stale_keeps: "I s \<Longrightarrow> keeps I (\<lambda>x. x) (abort E H cb c s \<bind> (\<lambda>(_, s1). drop_client E H cb c s1))"
  by (rule keeps_bind [OF abort_keeps [OF runner]]) (simp_all add: split_beta drop_client_keeps [OF runner])

lemma dispatch_keeps:
  assumes s: "I s"
  shows "keeps I (\<lambda>x. x) (dispatch_client E H cb c e s)"
proof -
  note handlers = recv_keeps [OF runner s] fin_keeps [OF runner s] sent_keeps [OF runner s] poll_keeps [OF runner s]
    error_keeps [OF runner s] connected_keeps [OF runner s] dns_keeps [OF runner s]
  have "keeps I (\<lambda>x. x) (case k of
               LWIP_TCP_RECV p pb err \<Rightarrow> recv_impl E H cb c pb s
             | LWIP_TCP_FIN p err \<Rightarrow> fin_impl E H cb c s
             | LWIP_TCP_SENT p len \<Rightarrow> sent_impl E H cb c len s
             | LWIP_TCP_POLL p \<Rightarrow> poll_impl E H cb c p s
             | LWIP_TCP_ERROR err \<Rightarrow> error_impl cb c err s
             | LWIP_TCP_CONNECTED p err \<Rightarrow> connected_impl E H cb c (Some p) s
             | LWIP_TCP_DNS addr \<Rightarrow>
                 if c_dns_token (cl s c) = ev_dns_token e then dns_found E cb c addr s else Some s
             | LWIP_TCP_ACCEPT \<Rightarrow> Some s)" for k
    by (cases k) (simp_all add: handlers s)
  then show ?thesis by (simp add: dispatch_client_def s)
qed

lemma handle_keeps:
  assumes s: "I s"
  shows "keeps I (\<lambda>x. x) (handle_async_event E H V cb ccb e s)"
proof -
  have logs: "I (logs xs s)" for xs by (rule beside [OF s]) simp
  have p: "I (pin c s)" for c by (rule beside [OF s]) simp
  have u: "I s1 \<Longrightarrow> I (unpin c s1)" for c s1 by (erule beside) simp
  have "keeps I (\<lambda>x. x) (dispatch_client E H cb c e (pin c s) \<bind> (\<lambda>s1. release E H cb c (unpin c s1)))" for c
    by (rule keeps_bind [OF dispatch_keeps [OF p]]) (simp add: release_keeps [OF runner] u)
  then show ?thesis
    unfolding handle_async_event_def
    by (simp add: logs s accepted_keeps stale_keeps split: option.split)
qed

lemma serve_keeps:
  assumes s: "I s"
  shows "keeps I (\<lambda>x. x) (serve_one E H V cb ccb s)"
proof -
  have "I (s\<lparr>queue := q, rng := g\<rparr>)" for q g by (rule beside [OF s]) simp
  then show ?thesis by (simp add: serve_one_def Let_def handle_keeps split: prod.split option.split)
qed

lemma process_keeps:
  assumes s: "I s"
  shows "keeps I (\<lambda>x. x) (process_async_event E H V cb ccb s)"
proof -
  have 1: "I (s\<lparr>scheduled := n\<rparr>)" for n by (rule beside [OF s]) simp
  have "I s1 \<Longrightarrow> I (schedule_process E s1)" for s1 by (erule beside) simp
  then show ?thesis
    unfolding process_async_event_def by (intro keeps_bind [OF serve_keeps [OF 1]]) simp
qed

lemma accept_keeps:
  assumes s: "I s"
  shows "keeps I snd (tcp_accept E V g v po e s)"
proof -
  have "I s1 \<Longrightarrow> I (snd (accept_plain E g v p s1))" for s1 p by (erule beside) simp
  then show ?thesis
    unfolding tcp_accept_def
    by (auto simp: s accept split_beta split: option.split intro!: keeps_bind [where f = snd])
qed

lemma tcp_error_keeps:
  assumes s: "I s"
  shows "keeps I (\<lambda>x. x) (tcp_error E H c e s)"
proof -
  have 1: "I s1 \<Longrightarrow> I (set_pcb c None (snd (remove_events c s1)))" for s1 by (erule beside) simp
  have 2: "I s1 \<Longrightarrow> I (snd (queue_packet E x s1))" for s1 x by (erule beside) simp
  show ?thesis
    unfolding tcp_error_def
    by (auto simp: s error 1 2 intro!: keeps_bind [where f = "\<lambda>x. x"])
qed

lemma step_keeps:
  assumes "sys_step E H V cb ccb s s'" and s: "I s"
  shows "I s'"
  using assms(1)
proof (cases rule: sys_step.cases)
  case (Connected c p e r)
  then have "aside s s'" by (simp add: tcp_connected_def) (metis aside_queue(1,4) aside_refl snd_conv)
  then show ?thesis by (rule beside [OF s])
next
  case (Poll c p r)
  then have "s' = snd (tcp_poll E c p s)" by simp
  moreover have "aside s (snd (tcp_poll E c p s))" by (simp add: tcp_poll_def Let_def)
  ultimately show ?thesis using beside [OF s] by simp
next
  case (Recv c p pb e r)
  then have "s' = snd (tcp_recv E c p pb e s)" by simp
  moreover have "aside s (snd (tcp_recv E c p pb e s))" by (simp add: tcp_recv_def Let_def)
  ultimately show ?thesis using beside [OF s] by simp
next
  case (Sent c p n r)
  then have "s' = snd (tcp_sent E c p n s)" by simp
  moreover have "aside s (snd (tcp_sent E c p n s))" by (simp add: tcp_sent_def)
  ultimately show ?thesis using beside [OF s] by simp
next
  case (Error c e)
  with tcp_error_keeps [OF s] show ?thesis by (auto dest: keepsD)
next
  case (Dns c tok addr)
  have "aside s (tcp_dns_found E c tok addr s)" by (simp add: tcp_dns_found_def Let_def)
  with Dns show ?thesis using beside [OF s] by simp
next
  case (Accept g v p e r)
  with keepsD [OF accept_keeps [OF s] Accept] show ?thesis by simp
next
  case (Call x)
  with exec_keeps [OF runner s] show ?thesis by (auto dest: keepsD)
next
  case (Destroy c)
  with release_keeps [OF runner s] show ?thesis by (auto dest: keepsD)
next
  case Serve
  with serve_keeps [OF s] show ?thesis by (auto dest: keepsD)
next
  case Process
  with process_keeps [OF s] show ?thesis by (auto dest: keepsD)
qed

end

end
