(* ===== verification/Park_System.thy ===== *)
theory Park_System
  imports Keeping System_Laws
begin

text \<open>
  The ESP32 build as a whole, with TLS clients and TLS servers: the steps of the system together with the callbacks that lwIP
  makes for a parked connection. Every server of the program draws from one pool of parked connections; whatever the steps and
  the callbacks of the application, and in whatever order, the pool stays sound.
\<close>

section \<open>A sound pool\<close>

text \<open>Every server's list is well-formed and the staged bytes of each connection are within the cap.\<close>

definition park_sound :: "park \<Rightarrow> bool" where
  "park_sound P \<longleftrightarrow> (\<exists>L. wf_park P L \<and> (\<forall>v. \<forall>i \<in> set (L v). buf_ok (pool P i)))"

lemma park_soundE:
  assumes "park_sound P"
  obtains L where "wf_park P L" "\<And>v i. i \<in> set (L v) \<Longrightarrow> buf_ok (pool P i)"
  using assms unfolding park_sound_def by blast

lemma park_soundI: "wf_park P L \<Longrightarrow> (\<And>v i. i \<in> set (L v) \<Longrightarrow> buf_ok (pool P i)) \<Longrightarrow> park_sound P"
  unfolding park_sound_def by blast

lemma new_park_sound: "park_sound new_park"
  by (rule park_soundI [OF wf_park_new]) simp

text \<open>Each operation on the pool.\<close>

lemma search_sound:
  assumes wf: "wf_park P L"
  obtains (absent) "find_pending P q (sc_pending (ctxs P v)) = Some None"
  | (found) i xs ys where "find_pending P q (sc_pending (ctxs P v)) = Some (Some i)" "L v = xs @ i # ys" "pp_pcb (pool P i) = Some q"
proof -
  have f: "find_pending P q (sc_pending (ctxs P v)) = Some (find (\<lambda>i. pp_pcb (pool P i) = Some q) (L v))"
    by (rule find_pending_chain [OF wf_parkD(1) [OF wf]])
  show thesis
  proof (cases "find (\<lambda>i. pp_pcb (pool P i) = Some q) (L v)")
    case None
    then show thesis using f absent by simp
  next
    case (Some i)
    then show thesis using f found find_SomeD [OF Some] by (metis split_list)
  qed
qed

lemma park_conn_sound:
  assumes sound: "park_sound P" and run: "park_conn v q ms P = Some P'"
  shows "park_sound P'"
proof -
  obtain L where wf: "wf_park P L" and buf: "\<And>v i. i \<in> set (L v) \<Longrightarrow> buf_ok (pool P i)" using park_soundE [OF sound] by blast
  have free: "\<exists>i < SSL_PARKED_SLOTS. pp_pcb (pool P i) = None"
    by (rule park_alloc_cases [OF wf_parkD(6) [OF wf]]) (use run in \<open>auto simp: park_conn_def\<close>)
  from park_conn_wf [OF wf free, of v q ms] run obtain i where P': "wf_park P' (L(v := L v @ [i]))" "pp_pcb (pool P i) = None"
      "pp_pb (pool P' i) = []" "pp_len (pool P' i) = 0"
      "\<forall>j. j \<noteq> i \<longrightarrow> (pool P' j)\<lparr>pp_next := None\<rparr> = (pool P j)\<lparr>pp_next := None\<rparr>" by auto
  have old: "buf_ok (pool P' j)" if "j \<in> set (L w)" for w j
  proof -
    have "j \<noteq> i" using wf_parkD(5) [OF wf that] P'(2) by auto
    then show ?thesis using same_slot(2) [of P' j P] P'(5) buf [OF that] by simp
  qed
  show ?thesis
    by (rule park_soundI [OF P'(1)]) (use old P'(3,4) in \<open>auto intro: buf_ok_empty split: if_splits\<close>)
qed

lemma park_conn_None:
  assumes sound: "park_sound P" and run: "park_conn v q ms P = None" and i: "i < SSL_PARKED_SLOTS"
  shows "pp_pcb (pool P i) \<noteq> None"
proof -
  obtain L where wf: "wf_park P L" and "\<And>v i. i \<in> set (L v) \<Longrightarrow> buf_ok (pool P i)" using park_soundE [OF sound] by blast
  show ?thesis
  proof
    assume "pp_pcb (pool P i) = None"
    with i have free: "\<exists>i < SSL_PARKED_SLOTS. pp_pcb (pool P i) = None" by blast
    show False using park_conn_wf [OF wf free, of v q ms] run by simp
  qed
qed

lemma drop_sound:
  assumes sound: "park_sound P" and at: "find_pending P q (sc_pending (ctxs P v)) = Some (Some i)"
  shows "\<exists>P'. drop_parked v i P = Some P' \<and> park_sound P'"
proof -
  obtain L where wf: "wf_park P L" and buf: "\<And>v i. i \<in> set (L v) \<Longrightarrow> buf_ok (pool P i)" using park_soundE [OF sound] by blast
  obtain xs ys where L: "L v = xs @ i # ys" using at by (cases rule: search_sound [OF wf, of q v]) auto
  obtain P' where P': "drop_parked v i P = Some P'" "wf_park P' (L(v := xs @ ys))"
    "\<forall>j. j \<noteq> i \<longrightarrow> (pool P' j)\<lparr>pp_next := None\<rparr> = (pool P j)\<lparr>pp_next := None\<rparr>"
    using drop_parked_wf [OF wf L] by blast
  have old: "buf_ok (pool P' j)" if j: "j \<in> set ((L(v := xs @ ys)) w)" for w j
  proof -
    have jL: "j \<in> set (L w)" using j L by (auto split: if_splits)
    have "j \<noteq> i" using j L wf_parkD(2) [OF wf, of v] wf_parkD(7) [OF wf jL, of v] by (auto split: if_splits)
    then show ?thesis using same_slot(2) [of P' j P] P'(3) buf [OF jL] by simp
  qed
  have "park_sound P'" by (rule park_soundI [OF P'(2)]) (rule old)
  then show ?thesis using P'(1) by blast
qed

lemma pop_sound:
  assumes sound: "park_sound P" and head: "sc_pending (ctxs P v) = Some i"
  shows "park_sound (pop_parked v i P)" and "pp_pcb (pool P i) \<noteq> None"
proof -
  obtain L where wf: "wf_park P L" and buf: "\<And>v i. i \<in> set (L v) \<Longrightarrow> buf_ok (pool P i)" using park_soundE [OF sound] by blast
  obtain ys where L: "L v = i # ys" using head sc_pending_wf [OF wf, of v] by (cases "L v") auto
  have old: "buf_ok (pool (pop_parked v i P) j)" if j: "j \<in> set ((L(v := ys)) w)" for w j
  proof -
    have jL: "j \<in> set (L w)" using j L by (auto split: if_splits)
    have "j \<noteq> i" using j L wf_parkD(2) [OF wf, of v] wf_parkD(7) [OF wf jL, of v] by (auto split: if_splits)
    then show ?thesis using pop_parked_wf(2) [OF wf L] buf [OF jL] by simp
  qed
  show "park_sound (pop_parked v i P)" by (rule park_soundI [OF pop_parked_wf(1) [OF wf L]]) (rule old)
  show "pp_pcb (pool P i) \<noteq> None" using wf_parkD(5) [OF wf, of i v] L by simp
qed

lemma rx_sound:
  assumes sound: "park_sound P" and at: "find_pending P q (sc_pending (ctxs P v)) = Some (Some i)" and small: "pb_total pb < 2 ^ 16"
  shows "park_sound (snd (rx_parked i pb P))"
proof -
  obtain L where wf: "wf_park P L" and buf: "\<And>v i. i \<in> set (L v) \<Longrightarrow> buf_ok (pool P i)" using park_soundE [OF sound] by blast
  obtain xs ys where L: "L v = xs @ i # ys" using at by (cases rule: search_sound [OF wf, of q v]) auto
  define P' where "P' = snd (rx_parked i pb P)"
  have bi: "pp_len (pool P i) = tot_len (pp_pb (pool P i))" "pb_total (pp_pb (pool P i)) \<le> 2000"
    using buf [of i v] L by (simp_all add: buf_ok_def)
  have P': "P' = (if pb_total (pp_pb (pool P i)) + pb_total pb \<le> 2000
      then upd_slot i (\<lambda>x. x\<lparr>pp_pb := pp_pb x @ pb, pp_len := pp_len x + tot_len pb\<rparr>) P else P)"
    using cap_test [OF bi(2) small] by (simp add: P'_def rx_parked_def Let_def bi(1))
  have nx: "nexts P' = nexts P" by (auto simp: P' nexts_def fun_eq_iff)
  have wf': "wf_park P' L" by (rule wf_park_cong [OF wf nx]) (simp_all add: P')
  have "buf_ok (pool P' j)" if "j \<in> set (L w)" for w j
    using buf [OF that] bi by (cases "j = i") (auto simp: P' buf_ok_def tot_len_append pb_total_append)
  then show ?thesis unfolding P'_def [symmetric] by (rule park_soundI [OF wf'])
qed

lemma free_sound:
  assumes sound: "park_sound P"
  shows "\<exists>t' P'. free_queued_items v t P = Some (t', P') \<and> park_sound P'"
proof -
  obtain L where wf: "wf_park P L" and buf: "\<And>v i. i \<in> set (L v) \<Longrightarrow> buf_ok (pool P i)" using park_soundE [OF sound] by blast
  define P' where "P' = P\<lparr>pool := (\<lambda>i. if i \<in> set (L v) then (pool P i)\<lparr>pp_pcb := None\<rparr> else pool P i),
      ctxs := (ctxs P)(v := (ctxs P v)\<lparr>sc_pending := None, sc_parked := sc_parked (ctxs P v) - int (length (L v))\<rparr>)\<rparr>"
  have run: "free_queued_items v t P = Some (t @ concat (map (\<lambda>i. free_pb (pp_pb (pool P i))) (L v)), P')"
    unfolding P'_def by (rule free_queued_eq [OF wf_parkD(1,2) [OF wf]])
  have nx: "nexts P' = nexts P" by (auto simp: P'_def nexts_def fun_eq_iff)
  have other: "j \<notin> set (L v)" if "j \<in> set (L w)" "w \<noteq> v" for j w using wf_parkD(7) [OF wf that(1), of v] that(2) by auto
  have "wf_park P' (L(v := []))"
    unfolding wf_park_def nx
  proof (intro conjI allI impI)
    fix w show "chain (nexts P) (sc_pending (ctxs P' w)) ((L(v := [])) w) None"
      using wf_parkD(1) [OF wf, of w] by (simp add: P'_def)
    show "distinct ((L(v := [])) w)" using wf_parkD(2) [OF wf, of w] by simp
    show "sc_parked (ctxs P' w) = int (length ((L(v := [])) w))"
      using wf_parkD(3) [OF wf, of w] by (auto simp: P'_def)
  next
    fix w j assume j: "j \<in> set ((L(v := [])) w)"
    then have "j \<in> set (L w)" "w \<noteq> v" by (auto split: if_splits)
    then show "j < SSL_PARKED_SLOTS" "pp_pcb (pool P' j) \<noteq> None"
      using wf_parkD(4,5) [OF wf] other by (auto simp: P'_def)
  next
    fix w x j assume "j \<in> set ((L(v := [])) w)" "j \<in> set ((L(v := [])) x)"
    then show "w = x" using wf_parkD(7) [OF wf] by (auto split: if_splits)
  next
    fix j assume j: "j < SSL_PARKED_SLOTS" "pp_pcb (pool P' j) \<noteq> None"
    then have "j \<notin> set (L v)" "pp_pcb (pool P j) \<noteq> None" by (auto simp: P'_def split: if_splits)
    then obtain w where "j \<in> set (L w)" using wf_parkD(8) [OF wf j(1)] by blast
    with \<open>j \<notin> set (L v)\<close> have "j \<in> set ((L(v := [])) w)" by auto
    then show "\<exists>w. j \<in> set ((L(v := [])) w)" ..
  next
    show "pool_idx P' < SSL_PARKED_SLOTS" using wf_parkD(6) [OF wf] by (simp add: P'_def)
  qed
  moreover have "buf_ok (pool P' j)" if "j \<in> set ((L(v := [])) w)" for w j
    using that buf [of j w] other [of j w] by (auto simp: P'_def split: if_splits)
  ultimately show ?thesis using run park_soundI by blast
qed

text \<open>The configuration of a server is beside its queue.\<close>

lemma config_sound:
  assumes sound: "park_sound P" and same: "sc_pending (f (ctxs P v)) = sc_pending (ctxs P v)" "sc_parked (f (ctxs P v)) = sc_parked (ctxs P v)"
  shows "park_sound (upd_ctx v f P)"
proof -
  obtain L where wf: "wf_park P L" and buf: "\<And>v i. i \<in> set (L v) \<Longrightarrow> buf_ok (pool P i)" using park_soundE [OF sound] by blast
  have "wf_park (upd_ctx v f P) L" using wf unfolding wf_park_def by (simp add: same)
  then show ?thesis by (rule park_soundI) (simp add: buf)
qed

section \<open>The hooks of a TLS client keep what is beside them\<close>

text \<open>An invariant that no session touches, such as that of the pool.\<close>

locale tls_keeps = beside I for I :: "tsys \<Rightarrow> bool" +
  assumes leaf: "I s \<Longrightarrow> leaf_step s s' \<Longrightarrow> I s'"
begin

lemma leaf_run: "I s \<Longrightarrow> \<exists>s'. m = Some s' \<and> leaf_step s s' \<Longrightarrow> keeps I (\<lambda>x. x) m"
  by (auto intro: leaf)

lemma write_run:
  assumes "I s"
  shows "keeps I snd (tls_onWrite E M cb c d s)"
  using tls_leaf_steps(3) [of E M cb c d s] leaf [OF assms] by auto

lemma notify_keeps: "runner_keeps I cb \<Longrightarrow> I s \<Longrightarrow> keeps I (\<lambda>x. x) (notify cb c h mk s)"
  by (simp add: notify_def keeps_call_app)

lemma handshake_keeps:
  assumes cb: "runner_keeps I cb" and s: "I s"
  shows "keeps I snd (runSSLHandshake E M cb c s)"
proof (cases "ss_pcb (sess s c) = None")
  case False
  define s1 where "s1 = (if ss_start_time (sess s c) = 0 then upd_session c (\<lambda>x. x\<lparr>ss_start_time := millis E (trace s)\<rparr>) s else s)"
  obtain ret s2 where m: "run_bio E c (m_handshake M (trace s1)) (log (Ssl_handshake c) s1) = (ret, s2)" by fastforce
  define s3 where "s3 = upd_session c (\<lambda>x. x\<lparr>ss_handshake_done := True\<rparr>) s2"
  have "I s1" using s leaf [OF s leaf_upd_session] by (simp add: s1_def)
  then have 2: "I s2" by (rule leaf [OF _ leaf_logged_bio [OF m]])
  then have 3: "I s3" unfolding s3_def by (rule leaf [OF _ leaf_upd_session])
  have "keeps I snd (notify cb c (c_connect_cb (cl s3 c)) Cb_connect s3 \<bind> (\<lambda>s4. Some (0::int, s4)))"
    by (rule keeps_bind [OF notify_keeps [OF cb 3]]) simp
  then show ?thesis
    using False m 2 s by (simp add: runSSLHandshake_def Let_def s1_def [symmetric] s3_def [symmetric])
qed (simp add: runSSLHandshake_def s)

end

sublocale tls_keeps \<subseteq> tls_leaf: leaf_keeps I "leaf_tls E M" for E M
proof unfold_locales
  fix c e s assume s: "I s"
  show "keeps I (\<lambda>x. x) (onClosing (leaf_tls E M) c s)" "keeps I (\<lambda>x. x) (onError (leaf_tls E M) c e s)"
    "keeps I (\<lambda>x. x) (onDelete (leaf_tls E M) c s)"
    by (simp_all add: leaf_tls_def leaf_run [OF s] tls_leaf_steps)
next
  fix cb c d s assume "I s"
  then show "keeps I snd (onWrite (leaf_tls E M) cb c d s)" by (simp add: leaf_tls_def write_run)
qed

context tls_keeps begin

lemma fail_keeps:
  assumes cb: "runner_keeps I cb" and s: "I s"
  shows "keeps I snd (fail_tls E M cb c e s)"
  unfolding fail_tls_def
  by (rule keeps_bind [OF notify_keeps [OF cb s]], rule keeps_bind [OF tls_leaf.close_keeps [OF cb]]) simp_all

lemma onConnected_keeps:
  assumes cb: "runner_keeps I cb" and s: "I s"
  shows "keeps I snd (tls_onConnected E M cb c s)"
proof -
  obtain ret x where r: "startClient M (trace s) (c_pcb (cl s c)) (sess s c) = (ret, x)" by fastforce
  let ?s1 = "log (Ssl_start c) (upd_session c (\<lambda>_. x) s)"
  have 1: "I ?s1" by (rule leaf [OF s leaf_step_trans [OF leaf_upd_session leaf_step_log]])
  have "tls_onConnected E M cb c s = (if ret \<noteq> 0 then fail_tls E M cb c (- 60) ?s1 else Some (True, ?s1))"
    by (simp add: tls_onConnected_def r fail_tls_def Let_def)
  then show ?thesis using 1 fail_keeps [OF cb 1] by simp
qed

lemma read_loop_keeps:
  assumes cb: "runner_keeps I cb" and s: "I s"
  shows "keeps I loop_state (read_loop E M cb c s)"
proof -
  have "I (loop_state r)" if run: "read_loop E M cb c s = Some r" for r
  proof -
    have "cb = cb \<longrightarrow> I s \<longrightarrow> I (loop_state r)"
    proof (rule read_loop.raw_induct [where P = "\<lambda>E M cb' c s r. cb' = cb \<longrightarrow> I s \<longrightarrow> I (loop_state r)", OF _ run])
      fix loop E M cb' c s r
      assume IH: "\<And>E M cb' c s r. loop E M cb' c s = Some r \<Longrightarrow> cb' = cb \<longrightarrow> I s \<longrightarrow> I (loop_state r)"
        and body: "(case sslRead E M c 1024 s of (n, plain, s1) \<Rightarrow>
          if n > 0
          then notify cb' c (c_recv_cb (cl s1 c)) (\<lambda>h. Cb_recv h plain) s1 \<bind>
               (\<lambda>s2. if c_pcb (cl s2 c) = None then Some (True, n, s2) else loop E M cb' c s2)
          else Some (False, n, s1)) = Some r"
      obtain n plain s1 where rd: "sslRead E M c 1024 s = (n, plain, s1)" by (metis prod_cases3)
      show "cb' = cb \<longrightarrow> I s \<longrightarrow> I (loop_state r)"
      proof (intro impI)
        assume cb': "cb' = cb" and s: "I s"
        have 1: "I s1" using leaf [OF s leaf_sslRead [of s E M c 1024]] rd by simp
        show "I (loop_state r)"
        proof (cases "n > 0")
          case False
          with body rd 1 show ?thesis by (auto simp: loop_state_def)
        next
          case True
          with body rd cb' obtain s2 where s2: "notify cb c (c_recv_cb (cl s1 c)) (\<lambda>h. Cb_recv h plain) s1 = Some s2"
            and r: "(if c_pcb (cl s2 c) = None then Some (True, n, s2) else loop E M cb c s2) = Some r"
            by (auto simp: bind_eq_Some_conv)
          have "I s2" by (rule keepsD [OF notify_keeps [OF cb 1] s2])
          then show ?thesis using r IH [of E M cb c s2 r] by (auto simp: loop_state_def split: if_splits)
        qed
      qed
    qed
    then show ?thesis using s by simp
  qed
  then show ?thesis by (simp add: keeps_def)
qed

lemma recved_keeps: "I s \<Longrightarrow> I (hook_recved E c n s)"
  by (erule beside) (simp add: hook_recved_def)

lemma second_pass_keeps:
  assumes cb: "runner_keeps I cb" and s: "I s"
  shows "keeps I snd (second_pass E M cb c s)"
proof -
  obtain fed s5 where f: "feed M c [] s = (fed, s5)" by fastforce
  have 5: "I s5" using leaf [OF s leaf_feed [of s M c "[]"]] f by simp
  have "keeps I snd (read_loop E M cb c (hook_recved E c fed s5) \<bind> (\<lambda>(closed, n, s6). Some (True, s6)))"
    by (rule keeps_bind [OF read_loop_keeps [OF cb recved_keeps [OF 5]]]) (simp add: loop_state_def split_beta)
  then show ?thesis using 5 by (simp add: second_pass_def f)
qed

lemma onRecv_keeps:
  assumes cb: "runner_keeps I cb" and s: "I s"
  shows "keeps I snd (tls_onRecv E M cb c pb s)"
proof -
  define s1 where "s1 = touch_rx E c s"
  obtain fed s2 where f: "feed M c pb s1 = (fed, s2)" by fastforce
  define s3 where "s3 = hook_recved E c fed s2"
  have 1: "I s1" unfolding s1_def by (rule beside [OF s]) simp
  have 2: "I s2" using leaf [OF 1 leaf_feed [of s1 M c pb]] f by simp
  have 3: "I s3" unfolding s3_def by (rule recved_keeps [OF 2])
  have hs: "keeps I snd (runSSLHandshake E M cb c s3 \<bind>
     (\<lambda>(ret, s4). if ret \<noteq> 0 \<and> \<not> can_retry ret then fail_tls E M cb c (- 60) s4 else Some (True, s4)))"
    by (rule keeps_bind [OF handshake_keeps [OF cb 3]]) (simp add: split_beta fail_keeps [OF cb])
  have rd: "keeps I snd (read_loop E M cb c s3 \<bind>
     (\<lambda>(closed, n, s4). if closed then Some (True, s4)
          else if n < 0 \<and> c_pcb (cl s4 c) \<noteq> None then fail_tls E M cb c (- 60) s4
          else second_pass E M cb c s4))"
    by (rule keeps_bind [OF read_loop_keeps [OF cb 3]])
      (simp add: loop_state_def split_beta fail_keeps [OF cb] second_pass_keeps [OF cb])
  show ?thesis
    using hs rd 1 by (simp add: tls_onRecv_def Let_def s1_def [symmetric] f s3_def [symmetric])
qed

lemma onPoll_keeps: "runner_keeps I cb \<Longrightarrow> I s \<Longrightarrow> keeps I snd (tls_onPoll E M cb c s)"
  by (simp add: tls_onPoll_def fail_keeps)

lemma hooks_keep:
  assumes cb: "runner_keeps I cb"
  shows "hooks_keep I (secure_hooks E M cb)"
proof unfold_locales
  fix c e s assume s: "I s"
  show "keeps I (\<lambda>x. x) (onClosing (secure_hooks E M cb) c s)" "keeps I (\<lambda>x. x) (onError (secure_hooks E M cb) c e s)"
    "keeps I (\<lambda>x. x) (onDelete (secure_hooks E M cb) c s)"
    by (simp_all add: secure_hooks_def leaf_run [OF s] tls_leaf_steps)
qed (simp_all add: secure_hooks_def write_run onConnected_keeps [OF cb] onRecv_keeps [OF cb] onPoll_keeps [OF cb] tls_onSent_def)

end

section \<open>The system of a program with TLS servers\<close>

text \<open>The runner of the callbacks, the one of \<open>onClient\<close>, and the hooks of the clients and the servers, all of one program.\<close>

abbreviation esp32_fire :: "lwip \<Rightarrow> mbed \<Rightarrow> (call list \<Rightarrow> cmd list) \<Rightarrow> nat \<Rightarrow> u32 \<Rightarrow> (session, unit) runner" where
  "esp32_fire E M app n g \<equiv> sec_fire E (leaf_tls E M) g app n"

definition esp32_fire_client :: "lwip \<Rightarrow> mbed \<Rightarrow> (call list \<Rightarrow> cmd list) \<Rightarrow> nat \<Rightarrow> u32 \<Rightarrow> (session, unit) client_runner" where
  "esp32_fire_client E M app n g v h c s =
     (let s1 = log (App_client v h c) s in exec_all E (leaf_tls E M) (esp32_fire E M app n g) (app (trace s1)) s1)"

abbreviation esp32_hooks :: "lwip \<Rightarrow> mbed \<Rightarrow> (call list \<Rightarrow> cmd list) \<Rightarrow> nat \<Rightarrow> u32 \<Rightarrow> (session, unit) hooks" where
  "esp32_hooks E M app n g \<equiv> secure_hooks E M (esp32_fire E M app n g)"

abbreviation esp32_srv_hooks :: "lwip \<Rightarrow> mbed \<Rightarrow> (call list \<Rightarrow> cmd list) \<Rightarrow> nat \<Rightarrow> u32 \<Rightarrow> (session, unit) srv_hooks" where
  "esp32_srv_hooks E M app n g \<equiv>
     secure_srv_hooks E M (esp32_hooks E M app n g) (esp32_fire E M app n g) (esp32_fire_client E M app n g) g"

text \<open>
  The steps: those of the transport, both \<open>beginSecure\<close>, and lwIP's callbacks of a parked connection. A chain lwIP delivers has
  less than 64 KiB, its \<open>tot_len\<close> being 16 bits wide. \<open>g\<close> is what uninitialised memory holds.
\<close>

inductive esp32_system :: "lwip \<Rightarrow> mbed \<Rightarrow> (call list \<Rightarrow> cmd list) \<Rightarrow> nat \<Rightarrow> u32 \<Rightarrow> tsys \<Rightarrow> bool"
  for E :: lwip and M :: mbed and app :: "call list \<Rightarrow> cmd list" and n :: nat and g :: u32 where
  start: "esp32_system E M app n g boot"
| step: "esp32_system E M app n g s \<Longrightarrow>
    sys_step E (esp32_hooks E M app n g) (esp32_srv_hooks E M app n g) (esp32_fire E M app n g) (esp32_fire_client E M app n g) s s' \<Longrightarrow>
    esp32_system E M app n g s'"
| secure: "esp32_system E M app n g s \<Longrightarrow> beginSecure E M c k host port s = (r, s') \<Longrightarrow> esp32_system E M app n g s'"
| listen: "esp32_system E M app n g s \<Longrightarrow> server_beginSecure E M v cert key password s = (r, s') \<Longrightarrow> esp32_system E M app n g s'"
| parked_poll: "esp32_system E M app n g s \<Longrightarrow> s_poll E g v p s = Some (r, s') \<Longrightarrow> esp32_system E M app n g s'"
| parked_recv: "esp32_system E M app n g s \<Longrightarrow> pb_total pb < 2 ^ 16 \<Longrightarrow> s_recv v p pb s = Some (r, s') \<Longrightarrow> esp32_system E M app n g s'"
| parked_error: "esp32_system E M app n g s \<Longrightarrow> s_error v s = Some s' \<Longrightarrow> esp32_system E M app n g s'"

abbreviation pool_ok :: "tsys \<Rightarrow> bool" where
  "pool_ok s \<equiv> park_sound (park s)"

interpretation pool: tls_keeps pool_ok
  by unfold_locales (simp_all add: aside_def leaf_step_def)

lemma promote_ok: "pool_ok s \<Longrightarrow> pool_ok (snd (promoteSlot E g v s))"
  by (auto simp: promoteSlot_def split_beta Let_def intro: pop_sound(1) split: option.split)

lemma esp32_fire_keeps: "runner_keeps pool_ok (esp32_fire E M app n g)"
proof (induction n)
  case (Suc n)
  have app: "keeps pool_ok (\<lambda>x. x) (let s1 = log x s in exec_all E (leaf_tls E M) (esp32_fire E M app n g) (app (trace s1)) s1)"
    if "pool_ok s" for x s
    by (rule pool.tls_leaf.log_exec_keeps [where app = app, OF Suc that])
  have "keeps pool_ok (\<lambda>x. x) (esp32_fire E M app (Suc n) g c e s)" if s: "pool_ok s" for c e s
    using app [OF s] promote_ok [OF s] by (cases e) (simp_all add: conn_done_def)
  then show ?case by (simp add: runner_keeps_def)
qed (simp add: runner_keeps_def)

lemma esp32_fire_client_keeps: "pool_ok s \<Longrightarrow> keeps pool_ok (\<lambda>x. x) (esp32_fire_client E M app n g v h c s)"
  unfolding esp32_fire_client_def by (rule pool.tls_leaf.log_exec_keeps [where app = app, OF esp32_fire_keeps])

lemma acceptTls_keeps:
  assumes s: "pool_ok s"
  shows "keeps pool_ok snd (acceptTls E g v p s)"
  by (auto simp: acceptTls_def s intro: park_conn_sound [OF s] split: option.split)

lemma hooks_keep_pool: "hooks_keep pool_ok (esp32_hooks E M app n g)"
  by (rule pool.hooks_keep [OF esp32_fire_keeps])

lemma refuse_keeps: "pool_ok s \<Longrightarrow> keeps pool_ok (\<lambda>x. x) (refuse E (esp32_hooks E M app n g) (esp32_fire E M app n g) c s)"
  unfolding refuse_def
  by (rule keeps_bind [OF leaf_keeps.abort_keeps [OF hooks_keep.axioms(1) [OF hooks_keep_pool] esp32_fire_keeps]])
    (simp_all add: split_beta leaf_keeps.drop_client_keeps [OF hooks_keep.axioms(1) [OF hooks_keep_pool] esp32_fire_keeps])

lemma build_keeps:
  assumes s: "pool_ok s"
  shows "keeps pool_ok snd (build_session E M (esp32_hooks E M app n g) (esp32_fire E M app n g) v c s)"
proof -
  have feed: "keeps pool_ok (\<lambda>x. x) (feedPbuf E (esp32_hooks E M app n g) (esp32_fire E M app n g) c b t)" if "pool_ok t" for b t
    by (simp add: feedPbuf_def that hooks_keep.recv_keeps [OF hooks_keep_pool esp32_fire_keeps])
  show ?thesis
    using s by (auto simp: build_session_def new_object_def Let_def split_beta delete_session_def takeStaged_def
        intro!: keeps_map refuse_keeps feed)
qed

lemma accepted_keeps_pool:
  assumes s: "pool_ok s"
  shows "keeps pool_ok snd (acceptedTls E M (esp32_hooks E M app n g) (esp32_fire E M app n g) (esp32_fire_client E M app n g) v c s)"
proof -
  have notify: "keeps pool_ok (\<lambda>x. x) (notifyClient (esp32_fire_client E M app n g) v c t)" if "pool_ok t" for t
    by (simp add: notifyClient_def that esp32_fire_client_keeps split: option.split)
  show ?thesis
    unfolding acceptedTls_def
    by (auto simp: s split_beta intro!: keeps_bind [where f = snd] build_keeps keeps_map notify)
qed

interpretation pool_world: world_keeps pool_ok "esp32_hooks E M app n g" E "esp32_srv_hooks E M app n g"
    "esp32_fire E M app n g" "esp32_fire_client E M app n g" for E M app n g
proof (rule world_keeps.intro [OF hooks_keep_pool], unfold_locales)
  fix s v p c h and e :: err assume s: "pool_ok s"
  show "keeps pool_ok snd (onAccept (esp32_srv_hooks E M app n g) v p e s)"
    using acceptTls_keeps [OF s] by (auto simp: secure_srv_hooks_def keeps_def)
  show "keeps pool_ok snd (onAccepted (esp32_srv_hooks E M app n g) v c s)"
    by (simp add: secure_srv_hooks_def accepted_keeps_pool s)
  show "keeps pool_ok (\<lambda>x. x) (esp32_fire_client E M app n g v h c s)" by (rule esp32_fire_client_keeps [OF s])
qed (rule esp32_fire_keeps)

lemma s_poll_sound:
  assumes s: "pool_ok s"
  shows "\<exists>r s'. s_poll E g v p s = Some (r, s') \<and> pool_ok s'"
proof -
  obtain L where wf: "wf_park (park s) L" and "\<And>v i. i \<in> set (L v) \<Longrightarrow> buf_ok (pool (park s) i)" using park_soundE [OF s] by blast
  from wf show ?thesis
  proof (cases rule: search_sound [where q = p and v = v])
    case absent
    then show ?thesis using s by (simp add: s_poll_def)
  next
    case (found i xs ys)
    then show ?thesis
      using s drop_sound [OF s found(1)] promote_ok [OF s, of E g v] by (auto simp: s_poll_def) (metis prod.collapse)
  qed
qed

lemma s_recv_sound:
  assumes s: "pool_ok s"
  shows "\<exists>r s'. s_recv v p pb s = Some (r, s') \<and> (pb_total pb < 2 ^ 16 \<longrightarrow> pool_ok s')"
proof -
  obtain L where wf: "wf_park (park s) L" and "\<And>v i. i \<in> set (L v) \<Longrightarrow> buf_ok (pool (park s) i)" using park_soundE [OF s] by blast
  from wf show ?thesis
  proof (cases rule: search_sound [where q = p and v = v])
    case absent
    then show ?thesis using s by (simp add: s_recv_def)
  next
    case (found i xs ys)
    then show ?thesis
      using s drop_sound [OF s found(1)] rx_sound [OF s found(1), of pb] by (auto simp: s_recv_def split_beta)
  qed
qed

lemma s_error_sound:
  assumes s: "pool_ok s"
  shows "\<exists>s'. s_error v s = Some s' \<and> pool_ok s'"
  using s free_sound [OF s, of v "[]"] by (auto simp: s_error_def)

lemma begin_more [simp]: "park (begin_server E v s) = park s" "tls_active (begin_server E v s) = tls_active s"
  using aside_begin [OF aside_refl, of s E v] by (simp_all add: aside_def)

lemma connect_host_more [simp]:
  "park (snd (connect_host E c host port s)) = park s" "tls_active (snd (connect_host E c host port s)) = tls_active s"
  using aside_connect_host [OF aside_refl, of s E c host port] by (simp_all add: aside_def)

lemma beginSecure_more:
  "park (snd (beginSecure E M c k host port s)) = park s"
  "(\<And>t. alloc_ok E t) \<Longrightarrow> c_pcb (cl s c) = None \<Longrightarrow> tls_active (snd (beginSecure E M c k host port s)) = tls_active s + 1"
  by (simp_all add: beginSecure_def new_object_def Let_def split_beta)

lemma server_beginSecure_ok:
  assumes s: "pool_ok s"
  shows "pool_ok (snd (server_beginSecure E M v cert key password s))"
proof -
  have parsed: "ensureParsed M t c k pw x = (ret, y) \<Longrightarrow> sc_pending y = sc_pending x \<and> sc_parked y = sc_parked x"
    for t c k pw x ret y by (auto simp: ensureParsed_def split: option.splits if_splits)
  have cfg: "park_sound P \<Longrightarrow> park_sound (upd_ctx v (\<lambda>x. x\<lparr>sc_cert := a\<rparr>) P)"
    "park_sound P \<Longrightarrow> park_sound (upd_ctx v (\<lambda>x. x\<lparr>sc_key := a\<rparr>) P)"
    "park_sound P \<Longrightarrow> park_sound (upd_ctx v (\<lambda>x. x\<lparr>sc_key_password := b\<rparr>) P)"
    "park_sound P \<Longrightarrow> park_sound (upd_ctx v (\<lambda>x. x\<lparr>sc_use_ssl := u\<rparr>) P)" for P a b u
    by (rule config_sound; simp)+
  have ctx: "pool_ok (snd (beginSecure_ctx E M v c k t))" if t: "pool_ok t" for c k t
  proof -
    let ?t = "setDefaultKey v k (setDefaultCertificate v c t)"
    obtain ret x where e: "ensureParsed M (trace ?t) c k (sc_key_password (sctx ?t v)) (sctx ?t v) = (ret, x)" by fastforce
    have 1: "pool_ok ?t" using t by (simp add: setDefaultKey_def setDefaultCertificate_def cfg)
    have "park_sound (upd_ctx v (\<lambda>_. x) (park ?t))" by (rule config_sound [OF 1]) (use parsed [OF e] in simp_all)
    then show ?thesis using t by (simp add: beginSecure_ctx_def e Let_def cfg)
  qed
  show ?thesis using s by (simp add: server_beginSecure_def Let_def ctx cfg)
qed

lemma esp32_pool: "esp32_system E M app n g s \<Longrightarrow> pool_ok s"
proof (induction rule: esp32_system.induct)
  case start
  show ?case by (simp add: boot_def new_park_sound)
next
  case (step s s')
  show ?case by (rule pool_world.step_keeps [OF step(2,3)])
next
  case (secure s c k host port r s')
  then show ?case using beginSecure_more(1) by (metis snd_conv)
next
  case (listen s v cert key password r s')
  then show ?case using server_beginSecure_ok by (metis snd_conv)
next
  case (parked_poll s v p r s')
  then show ?case using s_poll_sound [of s E g v p] by auto
next
  case (parked_recv s pb v p r s')
  then show ?case using s_recv_sound [of s v p pb] by auto
next
  case (parked_error s v s')
  then show ?case using s_error_sound [of s v] by auto
qed

section \<open>States for the witness\<close>

text \<open>A program whose TLS server listens and whose two TLS clients are dialing, and a connection that is offered to it.\<close>

definition calm_listen :: tsys where
  "calm_listen = snd (server_beginSecure calm calm_mbed 0 (Some [1]) (Some [2]) None boot)"

definition busy_server :: tsys where
  "busy_server = snd (beginSecure calm calm_mbed 2 no_creds ''b'' 443 (snd (beginSecure calm calm_mbed 1 no_creds ''a'' 443 calm_listen)))"

lemma beginSecure_pcb: "c_pcb (cl s d) = None \<Longrightarrow> c_pcb (cl (snd (beginSecure E M c k host port s)) d) = None"
proof -
  assume none: "c_pcb (cl s d) = None"
  have "c_pcb (cl (snd (connect_host E c host port t)) d) = None" if "c_pcb (cl t d) = None" for t :: tsys
    by (rule evolves_pcb [OF evolves_connect_host that])
  then show ?thesis using none by (auto simp: beginSecure_def new_object_def Let_def split_beta)
qed

lemma calm_listen_simps:
  "park calm_listen = upd_ctx 0 (\<lambda>x. x\<lparr>sc_use_ssl := True, sc_cert := Some [1, 0], sc_key := Some [2, 0], sc_parsed := True\<rparr>) new_park"
  "tls_active calm_listen = 0" "c_pcb (cl calm_listen c) = None" "sv_tls_hooks (servers calm_listen 0)"
proof -
  show 1: "park calm_listen = upd_ctx 0 (\<lambda>x. x\<lparr>sc_use_ssl := True, sc_cert := Some [1, 0], sc_key := Some [2, 0], sc_parsed := True\<rparr>) new_park"
    "tls_active calm_listen = 0"
    by (simp_all add: calm_listen_def server_beginSecure_def beginSecure_ctx_def ensureParsed_def calm_mbed_def Let_def boot_def
        new_park_def new_sec_ctx_def setDefaultKey_def setDefaultCertificate_def upd_ctx_def)
  have "\<exists>t. calm_listen = begin_server calm 0 t \<and> clients t = clients boot \<and> servers t = (servers boot)(0 := (servers boot 0)\<lparr>sv_tls_hooks := True\<rparr>)"
    by (simp add: calm_listen_def server_beginSecure_def beginSecure_ctx_def ensureParsed_def calm_mbed_def Let_def
        boot_def new_park_def new_sec_ctx_def setDefaultKey_def setDefaultCertificate_def upd_ctx_def) 
     (intro exI conjI, rule refl, simp_all)
  then obtain t where t: "calm_listen = begin_server calm 0 t" "clients t = clients boot" "servers t = (servers boot)(0 := (servers boot 0)\<lparr>sv_tls_hooks := True\<rparr>)" by blast
  show "c_pcb (cl calm_listen c) = None"
    unfolding t(1) by (rule evolves_pcb [OF evolves_begin_server]) (simp add: t(2) boot_def init_client_def)
  show "sv_tls_hooks (servers calm_listen 0)" unfolding t(1)
    by (simp add: begin_server_def split_beta tcp_bind_eq tcp_bind_sys_def tcp_bind_api_def Let_def
        tcp_listen_eq tcp_listen_sys_def boot_def new_server_def calm_def start_async_task_def t(3))
qed


lemma connect_host_servers: "servers (snd (connect_host E c host port s)) = servers s"
  by (simp add: connect_host_def connect_def Let_def split_beta start_async_task_def bind_tcp_callbacks_def tcp_connect_eq
      tcp_connect_sys_def clear_token_def split: option.split)

lemma beginSecure_servers: "servers (snd (beginSecure E M c k host port s)) = servers s"
  by (simp add: beginSecure_def new_object_def Let_def split_beta connect_host_servers)

lemma busy_server_simps:
  "park busy_server = park calm_listen" "tls_active busy_server = 2" "sv_tls_hooks (servers busy_server 0)"
  "esp32_system calm calm_mbed app n g busy_server"
proof -
  let ?s = "snd (beginSecure calm calm_mbed 1 no_creds ''a'' 443 calm_listen)"
  have alloc: "alloc_ok calm t" for t by (simp add: calm_def)
  show "park busy_server = park calm_listen" by (simp add: busy_server_def beginSecure_more(1))
  have 1: "tls_active ?s = 1"
    using beginSecure_more(2) [where E = calm and s = calm_listen and c = 1] alloc calm_listen_simps(2,3) by simp
  have 2: "c_pcb (cl ?s 2) = None" by (rule beginSecure_pcb [OF calm_listen_simps(3)])
  have "tls_active busy_server = tls_active ?s + 1" unfolding busy_server_def by (rule beginSecure_more(2) [OF alloc 2])
  then show "tls_active busy_server = 2" using 1 by simp
  show "sv_tls_hooks (servers busy_server 0)" by (simp add: busy_server_def beginSecure_servers calm_listen_simps(4))
  have "esp32_system calm calm_mbed app n g calm_listen"
    unfolding calm_listen_def by (rule esp32_system.listen [OF esp32_system.start prod.collapse [symmetric]])
  then show "esp32_system calm calm_mbed app n g busy_server"
    unfolding busy_server_def by (intro esp32_system.secure [OF _ prod.collapse [symmetric]])
qed

lemma busy_server_parks:
  "\<exists>s. esp32_system calm calm_mbed app n g s \<and> sc_parked (sctx s 0) = 1"
proof -
  have wf: "wf_park (park busy_server) ((\<lambda>_. [])(0 := []))"
    by (simp add: busy_server_simps calm_listen_simps wf_park_def upd_ctx_def new_park_def new_sec_ctx_def SSL_PARKED_SLOTS_def nexts_def)
  have free: "\<exists>i < SSL_PARKED_SLOTS. pp_pcb (pool (park busy_server) i) = None"
    by (rule exI [of _ 0]) (simp add: busy_server_simps calm_listen_simps new_park_def SSL_PARKED_SLOTS_def)
  let ?ms = "millis calm (trace busy_server)"
  obtain P i where P: "park_conn 0 7 ?ms (park busy_server) = Some P" "wf_park P ((\<lambda>_. [])(0 := [i]))"
    using park_conn_wf [OF wf free, of 0 7 ?ms] by auto
  have parked: "sc_parked (ctxs P 0) = 1" using wf_parkD(3) [OF P(2), of 0] by simp
  have cfg: "tls_configured busy_server 0" "liveServeCount busy_server \<ge> SSL_MAX_CONNECTIONS" "sc_parked (sctx busy_server 0) < int SSL_PARKED_SLOTS"
    by (simp_all add: tls_configured_def liveServeCount_def SSL_MAX_CONNECTIONS_def SSL_PARKED_SLOTS_def busy_server_simps calm_listen_simps
        new_park_def new_sec_ctx_def)
  have "\<exists>s. tcp_accept calm (esp32_srv_hooks calm calm_mbed app n g) 0 0 (Some 7) ERR_OK busy_server = Some (ERR_OK, s) \<and> sc_parked (sctx s 0) = 1"
    using cfg parked by (simp add: tcp_accept_def busy_server_simps(3) secure_srv_hooks_def acceptTls_def P(1))
  then show ?thesis using esp32_system.step [OF busy_server_simps(4) sys_step.Accept] by blast
qed

section \<open>Properties\<close>

text \<open>
  C10: whatever a program with TLS clients and TLS servers does, and in whatever order lwIP calls it, the pool of parked connections
  stays sound: every server's list spells out its own connections, no slot is in two lists or lost, the counts are right and the staged
  bytes of a connection are within the cap. So lwIP's callbacks of a parked connection never follow a null or stale link
  and their loops end; and accepting a connection dereferences null in one case only, that all slots are taken and
  another server holds some of them.
\<close>

theorem parked_pool_sound:
  assumes "esp32_system E M app n g s"
  shows "park_sound (park s)
    \<and> s_poll E g v p s \<noteq> None \<and> s_recv v p pb s \<noteq> None \<and> s_error v s \<noteq> None
    \<and> (acceptTls E g v p s = None \<longrightarrow>
         (\<forall>i < SSL_PARKED_SLOTS. pp_pcb (pool (park s) i) \<noteq> None) \<and> (\<exists>w. w \<noteq> v \<and> sc_parked (sctx s w) > 0))"
proof -
  have s: "pool_ok s" by (rule esp32_pool [OF assms])
  obtain L where wf: "wf_park (park s) L" and "\<And>v i. i \<in> set (L v) \<Longrightarrow> buf_ok (pool (park s) i)" using park_soundE [OF s] by blast
  have accept: "(\<forall>i < SSL_PARKED_SLOTS. pp_pcb (pool (park s) i) \<noteq> None) \<and> (\<exists>w. w \<noteq> v \<and> sc_parked (sctx s w) > 0)"
    if run: "acceptTls E g v p s = None"
  proof -
    have none: "park_conn v p (millis E (trace s)) (park s) = None" and room: "sc_parked (sctx s v) < int SSL_PARKED_SLOTS"
      using run by (auto simp: acceptTls_def split: if_splits option.splits)
    have full: "\<forall>i < SSL_PARKED_SLOTS. pp_pcb (pool (park s) i) \<noteq> None" using park_conn_None [OF s none] by blast
    have "length (L v) < SSL_PARKED_SLOTS" using room wf_parkD(3) [OF wf, of v] by simp
    then have "card (set (L v)) < card {..<SSL_PARKED_SLOTS}" using card_length [of "L v"] by simp
    then have "\<not> {..<SSL_PARKED_SLOTS} \<subseteq> set (L v)" by (meson List.finite_set card_mono leD)
    then obtain i where i: "i < SSL_PARKED_SLOTS" "i \<notin> set (L v)" by auto
    then obtain w where w: "i \<in> set (L w)" using wf_parkD(8) [OF wf i(1)] full by blast
    have "L w \<noteq> []" using w by auto
    then have "sc_parked (sctx s w) > 0" using wf_parkD(3) [OF wf, of w] by simp
    moreover have "w \<noteq> v" using w i(2) by auto
    ultimately show ?thesis using full by (intro conjI exI [of _ w]) simp_all
  qed
  show ?thesis
    using s s_poll_sound [OF s, of E g v p] s_recv_sound [OF s, of v p pb] s_error_sound [OF s, of v] accept by auto
qed

text \<open>A reachable state with a parked connection.\<close>

theorem parked_pool_sound_witness:
  "\<exists>s. sc_parked (sctx s 0) = 1 \<and> park_sound (park s)
     \<and> s_poll calm 0 0 7 s \<noteq> None \<and> s_recv 0 7 [] s \<noteq> None \<and> s_error 0 s \<noteq> None"
proof -
  obtain s where s: "esp32_system calm calm_mbed (\<lambda>_. []) 1 0 s" "sc_parked (sctx s 0) = 1" using busy_server_parks by blast
  from parked_pool_sound [OF s(1), of 0 7 "[]"] s(2) show ?thesis by blast
qed

end
