(* ===== verification/Bear_Engine.thy ===== *)
theory Bear_Engine
  imports Lwip
begin

text \<open>
  The engine layer of the ESP8266 build (\<open>src/AsyncSecureSession.cpp\<close>): the list of TLS connections, the queue of received
  packet buffers, the ring of outbound records, the pump that runs the BearSSL engine, and its scheduling. The BearSSL engine is
  not part of the repository: it is a value of a type variable, with the functions of its interface as the record \<open>bear\<close>. It works on
  an output buffer the library owns; that memory is explicit here, because the ring of outbound records is in the same block.
  Callbacks and \<open>yield()\<close> run other code in the middle of the pump: they are an arbitrary state transformer.
\<close>

section \<open>Configuration and interface\<close>

definition SSL_MAX_FEED_LOOPS :: nat where "SSL_MAX_FEED_LOOPS = 10"
definition SSL_RX_PEND_MAX :: nat where "SSL_RX_PEND_MAX = 16"
definition SSL_IN_BUFFER_SIZE :: nat where "SSL_IN_BUFFER_SIZE = 2048"
definition SSL_SERVER_IN_BUFFER_SIZE :: nat where "SSL_SERVER_IN_BUFFER_SIZE = 2048"

text \<open>The flags of \<open>br_ssl_engine_current_state\<close> the code tests.\<close>

record ssl_flags =
  st_closed :: bool
  st_sendrec :: bool
  st_sendapp :: bool
  st_recvapp :: bool

text \<open>
  The engine: every function that may produce output takes and returns its output buffer. A buffer the engine offers in it is an offset
  and a length. \<open>e_client\<close> and \<open>e_server\<close> set an engine up on an output buffer and reset it. \<open>e_boundary\<close> is the test \<open>ixa == 0 && ixb == 0\<close>; \<open>ring_slots\<close> and \<open>out_size\<close> are the macros
  \<open>SSL_RECORD_RING_SLOTS\<close> and \<open>SSL_OUT_BUFFER_SIZE\<close>; \<open>alert_close_notify\<close> is \<open>BR_ALERT_CLOSE_NOTIFY\<close>; \<open>new_block\<close> is where the
  heap puts the next connection, and what its memory holds.
\<close>

record 'e bear =
  ring_slots :: nat
  out_size :: nat
  e_state :: "'e \<Rightarrow> ssl_flags"
  e_last_error :: "'e \<Rightarrow> int"
  e_boundary :: "'e \<Rightarrow> bool"
  e_recvrec_room :: "'e \<Rightarrow> nat"
  e_recvrec :: "u8 list \<Rightarrow> 'e \<times> u8 list \<Rightarrow> 'e \<times> u8 list"
  e_sendrec_buf :: "'e \<Rightarrow> nat \<times> nat"
  e_sendrec_ack :: "nat \<Rightarrow> 'e \<times> u8 list \<Rightarrow> 'e \<times> u8 list"
  e_recvapp_buf :: "'e \<Rightarrow> u8 list"
  e_recvapp_ack :: "nat \<Rightarrow> 'e \<times> u8 list \<Rightarrow> 'e \<times> u8 list"
  e_sendapp_buf :: "'e \<Rightarrow> nat \<times> nat"
  e_sendapp_ack :: "nat \<Rightarrow> 'e \<times> u8 list \<Rightarrow> 'e \<times> u8 list"
  e_flush :: "bool \<Rightarrow> 'e \<times> u8 list \<Rightarrow> 'e \<times> u8 list"
  e_close :: "'e \<times> u8 list \<Rightarrow> 'e \<times> u8 list"
  alert_close_notify :: int
  new_block :: "call list \<Rightarrow> addr \<times> u8 list"
  e_client :: "string \<Rightarrow> u8 list \<Rightarrow> ('e \<times> u8 list) option"
  e_server :: "u8 list \<Rightarrow> ('e \<times> u8 list) option"

section \<open>State\<close>

datatype pump_state = ENGINE_PUMP_IDLE | ENGINE_PUMP_DROPPED | ENGINE_PUMP_QUEUED

text \<open>
  \<open>tcp_ssl_pcb\<close>. \<open>sp_engine\<close> is the engine of the role's context with the output region of the slab; a server borrows the one engine of
  its context, of which there is one connection at a time. A received chain is a list of packet buffers.
\<close>

record 'e ssl_pcb =
  sp_tcp :: pcb
  sp_server :: bool
  sp_engine :: "'e \<times> u8 list"
  sp_cap :: nat
  sp_rx :: "pbuf list list"
  sp_head_off :: nat
  sp_max_rec :: nat
  sp_handshake_done :: bool
  sp_deferred :: bool
  sp_ring_len :: "nat list"
  sp_next :: nat
  sp_pinned :: nat
  sp_acked :: u32
  sp_hard :: u32
  sp_body :: bool
  sp_pump :: pump_state
  sp_arg :: "nat option"
  sp_on_data :: bool
  sp_on_handshake :: bool
  sp_on_error :: bool

text \<open>\<open>tcp_ssl_pcbs\<close>, head first, by address; the scheduled functions, oldest first; references to the thunk stack.\<close>

record 'e bsys =
  b_pcbs :: "(addr \<times> 'e ssl_pcb) list"
  b_sched :: "addr list"
  b_thunk :: nat
  b_trace :: "call list"

definition blog :: "call \<Rightarrow> ('e, 'm) bsys_scheme \<Rightarrow> ('e, 'm) bsys_scheme" where
  "blog x s = s\<lparr>b_trace := b_trace s @ [x]\<rparr>"

definition pcb_at :: "('e, 'm) bsys_scheme \<Rightarrow> addr \<Rightarrow> 'e ssl_pcb option" where
  "pcb_at s a = map_of (b_pcbs s) a"

text \<open>\<open>tcp_ssl_pcb_is_alive\<close>\<close>

definition is_alive :: "('e, 'm) bsys_scheme \<Rightarrow> addr \<Rightarrow> bool" where
  "is_alive s a \<longleftrightarrow> pcb_at s a \<noteq> None"

definition upd_pcb :: "addr \<Rightarrow> ('e ssl_pcb \<Rightarrow> 'e ssl_pcb) \<Rightarrow> ('e, 'm) bsys_scheme \<Rightarrow> ('e, 'm) bsys_scheme" where
  "upd_pcb a f s = s\<lparr>b_pcbs := map (\<lambda>(b, x). (b, if b = a then f x else x)) (b_pcbs s)\<rparr>"

text \<open>\<open>find_ssl_pcb\<close>: the first one of that lwIP pcb.\<close>

fun find_in :: "pcb \<Rightarrow> (addr \<times> 'e ssl_pcb) list \<Rightarrow> (addr \<times> 'e ssl_pcb) option" where
  "find_in p [] = None"
| "find_in p ((a, x) # r) = (if sp_tcp x = p then Some (a, x) else find_in p r)"

fun remove_in :: "pcb \<Rightarrow> (addr \<times> 'e ssl_pcb) list \<Rightarrow> (addr \<times> 'e ssl_pcb) list" where
  "remove_in p [] = []"
| "remove_in p ((a, x) # r) = (if sp_tcp x = p then r else (a, x) # remove_in p r)"

definition find_ssl_pcb :: "pcb \<Rightarrow> ('e, 'm) bsys_scheme \<Rightarrow> (addr \<times> 'e ssl_pcb) option" where
  "find_ssl_pcb p s = find_in p (b_pcbs s)"

section \<open>Allocation, registration, release\<close>

text \<open>
  \<open>tcp_ssl_alloc_pcb\<close>: the object and its slab, two allocations. The engine with its output region is put in by the caller, the role's
  function, as \<open>eng\<close>.
\<close>

definition new_alloc :: "lwip \<Rightarrow> ('e, 'm) bsys_scheme \<Rightarrow> bool \<times> ('e, 'm) bsys_scheme" where
  "new_alloc E s = (alloc_ok E (b_trace s), blog New_object s)"

definition init_ssl_pcb :: "'e bear \<Rightarrow> 'e \<times> u8 list \<Rightarrow> pcb \<Rightarrow> bool \<Rightarrow> 'e ssl_pcb" where
  "init_ssl_pcb B eng p is_server =
     ( \<lparr>sp_tcp = p, sp_server = is_server, sp_engine = eng,
                 sp_cap = (if is_server then SSL_SERVER_IN_BUFFER_SIZE else SSL_IN_BUFFER_SIZE),
                 sp_rx = [], sp_head_off = 0, sp_max_rec = 0, sp_handshake_done = False, sp_deferred = False,
                 sp_ring_len = replicate (ring_slots B) 0, sp_next = 0, sp_pinned = 0, sp_acked = 0, sp_hard = 0, sp_body = False,
                 sp_pump = ENGINE_PUMP_IDLE, sp_arg = None, sp_on_data = False, sp_on_handshake = False, sp_on_error = False\<rparr>)"

definition tcp_ssl_alloc_pcb :: "lwip \<Rightarrow> ('e, 'm) bsys_scheme \<Rightarrow> bool \<times> ('e, 'm) bsys_scheme" where
  "tcp_ssl_alloc_pcb E s =
     (case new_alloc E s of (ok, s1) \<Rightarrow> if \<not> ok then (False, s1) else new_alloc E s1)"

definition tcp_ssl_register_pcb :: "addr \<Rightarrow> 'e ssl_pcb \<Rightarrow> ('e, 'm) bsys_scheme \<Rightarrow> ('e, 'm) bsys_scheme" where
  "tcp_ssl_register_pcb a x s = s\<lparr>b_pcbs := (a, x) # b_pcbs s, b_thunk := b_thunk s + 1\<rparr>"

text \<open>\<open>tcp_ssl_free_rx_pend\<close>, run by the destructor.\<close>

definition free_rx_pend :: "'e ssl_pcb \<Rightarrow> ('e, 'm) bsys_scheme \<Rightarrow> ('e, 'm) bsys_scheme" where
  "free_rx_pend x s = s\<lparr>b_trace := b_trace s @ map Pbuf_free (sp_rx x)\<rparr>"

text \<open>\<open>tcp_ssl_free\<close>: 0 when there was one, -1 otherwise.\<close>

definition tcp_ssl_free :: "pcb \<Rightarrow> ('e, 'm) bsys_scheme \<Rightarrow> int \<times> ('e, 'm) bsys_scheme" where
  "tcp_ssl_free p s =
     (case find_ssl_pcb p s of
        None \<Rightarrow> (-1, s)
      | Some (a, x) \<Rightarrow>
          (0, free_rx_pend x (s\<lparr>b_pcbs := remove_in p (b_pcbs s), b_thunk := b_thunk s - 1\<rparr>)))"

section \<open>Received records\<close>

definition chain_bytes :: "pbuf list \<Rightarrow> u8 list" where
  "chain_bytes ch = concat (map pb_data ch)"

text \<open>The length in the header of a record, when its five bytes are there and a record starts.\<close>

definition peek_len :: "'e bear \<Rightarrow> u8 list \<Rightarrow> 'e ssl_pcb \<Rightarrow> nat" where
  "peek_len B bytes x =
     (if sp_head_off x = 0 \<and> e_boundary B (fst (sp_engine x)) \<and> length bytes \<ge> 5
      then max (sp_max_rec x) (unat (bytes ! 3) * 256 + unat (bytes ! 4)) else sp_max_rec x)"

definition note_record :: "'e bear \<Rightarrow> u8 list \<Rightarrow> 'e ssl_pcb \<Rightarrow> 'e ssl_pcb" where
  "note_record B bytes x = x\<lparr>sp_max_rec := peek_len B bytes x\<rparr>"

text \<open>As many of the chain's bytes as the engine has room for.\<close>

definition feed_count :: "'e bear \<Rightarrow> u8 list \<Rightarrow> 'e ssl_pcb \<Rightarrow> nat" where
  "feed_count B bytes x =
     (let room = e_recvrec_room B (fst (sp_engine x)); left = length bytes - sp_head_off x in if left > room then room else left)"

definition feed_chunk :: "'e bear \<Rightarrow> u8 list \<Rightarrow> 'e ssl_pcb \<Rightarrow> 'e ssl_pcb" where
  "feed_chunk B bytes x =
     x\<lparr>sp_engine := e_recvrec B (take (feed_count B bytes x) (drop (sp_head_off x) bytes)) (sp_engine x),
       sp_head_off := sp_head_off x + feed_count B bytes x\<rparr>"

lemma note_record_simps [simp]:
  "sp_engine (note_record B bytes x) = sp_engine x" "sp_rx (note_record B bytes x) = sp_rx x"
  "sp_head_off (note_record B bytes x) = sp_head_off x" "sp_tcp (note_record B bytes x) = sp_tcp x"
  by (simp_all add: note_record_def)

lemma feed_chunk_simps [simp]:
  "sp_rx (feed_chunk B bytes x) = sp_rx x" "sp_tcp (feed_chunk B bytes x) = sp_tcp x"
  "sp_head_off (feed_chunk B bytes x) = sp_head_off x + feed_count B bytes x"
  "sp_engine (feed_chunk B bytes x) = e_recvrec B (take (feed_count B bytes x) (drop (sp_head_off x) bytes)) (sp_engine x)"
  by (simp_all add: feed_chunk_def)

text \<open>
  The first loop of \<open>process_ssl_engine\<close>: queued bytes go into the engine as far as it takes them. A chain that is used up is
  acknowledged to lwIP, with its whole length, and freed.
\<close>

function feed_engine :: "'e bear \<Rightarrow> 'e ssl_pcb \<Rightarrow> 'e ssl_pcb \<times> call list" where
  "feed_engine B x =
     (case sp_rx x of
        [] \<Rightarrow> (x, [])
      | ch # rest \<Rightarrow>
          let bytes = chain_bytes ch; x1 = note_record B bytes x
          in if e_recvrec_room B (fst (sp_engine x)) = 0 then (x1, [])
             else
               let x2 = feed_chunk B bytes x1
               in if sp_head_off x2 \<ge> length bytes
                  then case feed_engine B (x2\<lparr>sp_rx := rest, sp_head_off := 0\<rparr>) of (y, calls) \<Rightarrow>
                    (y, [Tcp_recved (sp_tcp x) (of_nat (length bytes)), Pbuf_free ch] @ calls)
                  else feed_engine B x2)"
  by pat_completeness auto

termination
  by (relation "measures [\<lambda>(B, x). length (sp_rx x), \<lambda>(B, x). length (chain_bytes (hd (sp_rx x))) - sp_head_off x]")
    (auto simp: feed_count_def Let_def)

text \<open>What is queued and not yet fed.\<close>

definition rx_left :: "'e ssl_pcb \<Rightarrow> u8 list" where
  "rx_left x = drop (sp_head_off x) (concat (map chain_bytes (sp_rx x)))"

declare feed_engine.simps [simp del]

section \<open>Scheduling\<close>

text \<open>
  \<open>schedule_ssl_engine\<close>: nothing when one is queued already; DROPPED when the scheduler refuses.
\<close>

definition schedule_ssl_engine :: "lwip \<Rightarrow> addr \<Rightarrow> ('e, 'm) bsys_scheme \<Rightarrow> bool \<times> ('e, 'm) bsys_scheme" where
  "schedule_ssl_engine E a s =
     (case pcb_at s a of
        None \<Rightarrow> (False, s)
      | Some x \<Rightarrow>
          if sp_pump x = ENGINE_PUMP_QUEUED then (False, s)
          else
            let armed = schedule_ok E (b_trace s);
                s1 = blog Schedule (upd_pcb a (\<lambda>x. x\<lparr>sp_pump := ENGINE_PUMP_DROPPED\<rparr>) s)
            in if armed
               then (True, upd_pcb a (\<lambda>x. x\<lparr>sp_pump := ENGINE_PUMP_QUEUED\<rparr>) (s1\<lparr>b_sched := b_sched s1 @ [a]\<rparr>))
               else (False, s1))"

section \<open>The pump\<close>

text \<open>What other code does while a callback or \<open>yield()\<close> runs; the call is in the trace.\<close>

type_synonym ('e, 'm) others = "call \<Rightarrow> ('e, 'm) bsys_scheme \<Rightarrow> ('e, 'm) bsys_scheme"

definition run_others :: "('e, 'm) others \<Rightarrow> call \<Rightarrow> ('e, 'm) bsys_scheme \<Rightarrow> ('e, 'm) bsys_scheme" where
  "run_others cb x s = cb x (blog x s)"

definition engine_state :: "'e bear \<Rightarrow> 'e ssl_pcb \<Rightarrow> ssl_flags" where
  "engine_state B x = e_state B (fst (sp_engine x))"

definition hs_reached :: "'e ssl_pcb \<Rightarrow> ssl_flags \<Rightarrow> bool" where
  "hs_reached x f \<longleftrightarrow> (sp_server x \<and> st_recvapp f) \<or> (\<not> sp_server x \<and> st_sendapp f)"

text \<open>The handshake is declared complete, and the callback told.\<close>

definition declare_handshake :: "('e, 'm) others \<Rightarrow> addr \<Rightarrow> ssl_flags \<Rightarrow> ('e, 'm) bsys_scheme \<Rightarrow> ('e, 'm) bsys_scheme" where
  "declare_handshake cb a f s =
     (case pcb_at s a of
        None \<Rightarrow> s
      | Some x \<Rightarrow>
          if \<not> sp_handshake_done x \<and> hs_reached x f
          then let s1 = upd_pcb a (\<lambda>x. x\<lparr>sp_handshake_done := True\<rparr>) s
               in if sp_on_handshake x then run_others cb (Engine_handshake a) s1 else s1
          else s)"

text \<open>
  One outbound record. The record is copied from where the engine has it into the slot, and the slot is given to lwIP without a
  copy; the slots are in the engine's output region (\<open>out_ring[i] = outbuf + i * SSL_OUT_BUFFER_SIZE\<close>). The engine is told
  the record is gone only if lwIP took it. The result says whether the loop goes on.
\<close>

definition pin_slot :: "'e bear \<Rightarrow> nat \<Rightarrow> 'e ssl_pcb \<Rightarrow> 'e ssl_pcb" where
  "pin_slot B len x = x\<lparr>sp_ring_len := (sp_ring_len x)[sp_next x := len], sp_next := (sp_next x + 1) mod ring_slots B,
     sp_pinned := sp_pinned x + 1\<rparr>"

definition emit_record :: "'e bear \<Rightarrow> lwip \<Rightarrow> 'e ssl_pcb \<Rightarrow> call list \<Rightarrow> bool \<times> 'e ssl_pcb \<times> call list" where
  "emit_record B E x t =
     (case e_sendrec_buf B (fst (sp_engine x)) of (off, len) \<Rightarrow>
        if len = 0 \<or> len > out_size B then (False, x, t)
        else if \<not> (unat (sndbuf E t (sp_tcp x)) \<ge> len \<and> sndqueuelen E t (sp_tcp x) < snd_queue_max E) then (False, x, t)
        else
          let slot = sp_next x;
              record = take len (drop off (snd (sp_engine x)));
              mem = blit (slot * out_size B) record (snd (sp_engine x));
              x1 = x\<lparr>sp_engine := (fst (sp_engine x), mem)\<rparr>;
              t1 = t @ [Tcp_write (sp_tcp x) record 0]
          in if write_ret E t (sp_tcp x) = ERR_OK
             then (True, (pin_slot B len x1)\<lparr>sp_engine := e_sendrec_ack B len (sp_engine x1), sp_deferred := False, sp_hard := 0\<rparr>,
                   t1 @ [Tcp_output (sp_tcp x)])
             else
               let hard = (if unat (sndbuf E t1 (sp_tcp x)) \<ge> len \<and> sndqueuelen E t1 (sp_tcp x) = 0
                           then (if sp_hard x1 = 0 then millis E t1 else sp_hard x1) else 0)
               in (False, x1\<lparr>sp_deferred := True, sp_hard := hard\<rparr>, t1 @ [Tcp_output (sp_tcp x)]))"

text \<open>What one turn of the loop does after the checks: deliver data, or emit a record. True: the loop goes on.\<close>

definition pump_io :: "'e bear \<Rightarrow> lwip \<Rightarrow> ('e, 'm) others \<Rightarrow> addr \<Rightarrow> ssl_flags \<Rightarrow> ('e, 'm) bsys_scheme \<Rightarrow> bool \<times> ('e, 'm) bsys_scheme" where
  "pump_io B E cb a f s =
     (case pcb_at s a of
        None \<Rightarrow> (False, s)
      | Some x \<Rightarrow>
          let data = e_recvapp_buf B (fst (sp_engine x))
          in if st_recvapp f \<and> data \<noteq> [] \<and> length data < sp_cap x
             then let s1 = upd_pcb a (\<lambda>x. x\<lparr>sp_engine := e_recvapp_ack B (length data) (sp_engine x)\<rparr>) s
                  in (True, if sp_on_data x then run_others cb (Engine_data a data) s1 else s1)
             else if sp_pinned x \<ge> ring_slots B then (False, s)
             else case emit_record B E x (b_trace s) of (go, y, t) \<Rightarrow> (go, (upd_pcb a (\<lambda>_. y) s)\<lparr>b_trace := t\<rparr>))"

text \<open>
  The bounded loop. False: the function returns from inside the loop (the connection is gone, or the engine is closed). The error is
  handed on in eight bits.
\<close>

fun pump_loop :: "'e bear \<Rightarrow> lwip \<Rightarrow> ('e, 'm) others \<Rightarrow> addr \<Rightarrow> nat \<Rightarrow> ('e, 'm) bsys_scheme \<Rightarrow> bool \<times> ('e, 'm) bsys_scheme" where
  "pump_loop B E cb a 0 s = (True, s)"
| "pump_loop B E cb a (Suc n) s =
     (let s1 = run_others cb Yield s in
      case pcb_at s1 a of
        None \<Rightarrow> (False, s1)
      | Some x \<Rightarrow>
          let f = engine_state B x;
              s2 = (if st_sendapp f then upd_pcb a (\<lambda>x. x\<lparr>sp_engine := e_flush B False (sp_engine x)\<rparr>) s1 else s1)
          in if st_closed f
             then (False, if sp_on_error x
                then run_others cb (Engine_error a (signed_take_bit 7 (e_last_error B (fst (sp_engine (the (pcb_at s2 a))))))) s2 else s2)
             else
               let s3 = declare_handshake cb a f s2
               in if \<not> is_alive s3 a then (False, s3)
                  else case pump_io B E cb a f s3 of (go, s4) \<Rightarrow>
                    if go then pump_loop B E cb a n s4 else (True, s4))"

text \<open>\<open>process_ssl_engine\<close>\<close>

definition pump_end :: "'e bear \<Rightarrow> lwip \<Rightarrow> ('e, 'm) others \<Rightarrow> addr \<Rightarrow> ('e, 'm) bsys_scheme \<Rightarrow> ('e, 'm) bsys_scheme" where
  "pump_end B E cb a s =
     (case pcb_at s a of
        None \<Rightarrow> s
      | Some x \<Rightarrow>
          if \<not> sp_deferred x \<and> sp_pinned x < ring_slots B \<and> st_sendrec (engine_state B x)
          then snd (schedule_ssl_engine E a s)
          else declare_handshake cb a (engine_state B x) s)"

definition process_ssl_engine :: "'e bear \<Rightarrow> lwip \<Rightarrow> ('e, 'm) others \<Rightarrow> addr \<Rightarrow> ('e, 'm) bsys_scheme \<Rightarrow> ('e, 'm) bsys_scheme" where
  "process_ssl_engine B E cb a s =
     (case pcb_at s a of
        None \<Rightarrow> s
      | Some x \<Rightarrow>
          case feed_engine B x of (y, calls) \<Rightarrow>
          case pump_loop B E cb a SSL_MAX_FEED_LOOPS ((upd_pcb a (\<lambda>_. y) s)\<lparr>b_trace := b_trace s @ calls\<rparr>) of (go, s1) \<Rightarrow>
            if go then pump_end B E cb a s1 else s1)"

text \<open>The scheduler runs the oldest function: the pump, if the connection is still there.\<close>

definition run_scheduled :: "'e bear \<Rightarrow> lwip \<Rightarrow> ('e, 'm) others \<Rightarrow> ('e, 'm) bsys_scheme \<Rightarrow> ('e, 'm) bsys_scheme" where
  "run_scheduled B E cb s =
     (case b_sched s of
        [] \<Rightarrow> s
      | a # r \<Rightarrow>
          let s1 = s\<lparr>b_sched := r\<rparr>
          in if is_alive s1 a then process_ssl_engine B E cb a (upd_pcb a (\<lambda>x. x\<lparr>sp_pump := ENGINE_PUMP_IDLE\<rparr>) s1) else s1)"

section \<open>Acknowledgements, reading, writing, closing\<close>

text \<open>\<open>tcp_ssl_sent\<close>: the loop that releases slots, oldest first, as far as the acknowledged bytes cover them.\<close>

definition oldest_slot :: "'e bear \<Rightarrow> 'e ssl_pcb \<Rightarrow> nat" where
  "oldest_slot B x = (sp_next x + ring_slots B - sp_pinned x) mod ring_slots B"

function release_slots :: "'e bear \<Rightarrow> 'e ssl_pcb \<Rightarrow> 'e ssl_pcb" where
  "release_slots B x =
     (if sp_pinned x = 0 then x
      else
        let i = oldest_slot B x; len = sp_ring_len x ! i
        in if unat (sp_acked x) \<ge> len
           then release_slots B (x\<lparr>sp_acked := sp_acked x - of_nat len, sp_ring_len := (sp_ring_len x)[i := 0],
                                   sp_pinned := sp_pinned x - 1\<rparr>)
           else x)"
  by pat_completeness auto

termination
  by (relation "measure (\<lambda>(B, x). sp_pinned x)") auto

declare release_slots.simps [simp del]

definition ack_ring :: "'e bear \<Rightarrow> nat \<Rightarrow> 'e ssl_pcb \<Rightarrow> 'e ssl_pcb" where
  "ack_ring B acked x =
     (let y = release_slots B (x\<lparr>sp_acked := sp_acked x + of_nat acked\<rparr>);
          z = (if sp_pinned y = 0 then y\<lparr>sp_acked := 0\<rparr> else y)
      in if sp_handshake_done z then z\<lparr>sp_body := True\<rparr> else z)"

definition tcp_ssl_sent :: "'e bear \<Rightarrow> lwip \<Rightarrow> pcb \<Rightarrow> nat \<Rightarrow> ('e, 'm) bsys_scheme \<Rightarrow> ('e, 'm) bsys_scheme" where
  "tcp_ssl_sent B E p acked s =
     (case find_ssl_pcb p s of
        None \<Rightarrow> s
      | Some (a, x) \<Rightarrow>
          let s1 = upd_pcb a (ack_ring B acked) s
          in if st_sendrec (engine_state B x) then snd (schedule_ssl_engine E a s1) else s1)"

definition tcp_ssl_is_stalled :: "lwip \<Rightarrow> pcb \<Rightarrow> u32 \<Rightarrow> ('e, 'm) bsys_scheme \<Rightarrow> bool" where
  "tcp_ssl_is_stalled E p stall_ms s =
     (case find_ssl_pcb p s of
        None \<Rightarrow> False
      | Some (a, x) \<Rightarrow> sp_hard x \<noteq> 0 \<and> millis E (b_trace s) - sp_hard x \<ge> stall_ms)"

text \<open>\<open>tcp_ssl_write\<close>: as many bytes as the engine's buffer takes, copied into it.\<close>

definition tcp_ssl_write :: "'e bear \<Rightarrow> lwip \<Rightarrow> pcb \<Rightarrow> u8 list \<Rightarrow> ('e, 'm) bsys_scheme \<Rightarrow> int \<times> ('e, 'm) bsys_scheme" where
  "tcp_ssl_write B E p data s =
     (case find_ssl_pcb p s of
        None \<Rightarrow> (-1, s)
      | Some (a, x) \<Rightarrow>
          if \<not> st_sendapp (engine_state B x) then (0, snd (schedule_ssl_engine E a s))
          else case e_sendapp_buf B (fst (sp_engine x)) of (off, wlen) \<Rightarrow>
            if wlen = 0 then (0, snd (schedule_ssl_engine E a s))
            else
              let clen = (if length data > wlen then wlen else length data);
                  eng = (fst (sp_engine x), blit off (take clen data) (snd (sp_engine x)));
                  eng2 = e_flush B False (e_sendapp_ack B clen eng)
              in (int clen, snd (schedule_ssl_engine E a (upd_pcb a (\<lambda>x. x\<lparr>sp_engine := eng2\<rparr>) s))))"

text \<open>\<open>tcp_ssl_read\<close>: the chain is queued, not copied and not acknowledged.\<close>

definition tcp_ssl_read :: "lwip \<Rightarrow> pcb \<Rightarrow> pbuf list \<Rightarrow> ('e, 'm) bsys_scheme \<Rightarrow> int \<times> ('e, 'm) bsys_scheme" where
  "tcp_ssl_read E p ch s =
     (case find_ssl_pcb p s of
        None \<Rightarrow> (-1, blog (Pbuf_free ch) s)
      | Some (a, x) \<Rightarrow>
          if length (sp_rx x) \<ge> SSL_RX_PEND_MAX then (-1, blog (Pbuf_free ch) s)
          else (0, snd (schedule_ssl_engine E a (upd_pcb a (\<lambda>x. x\<lparr>sp_rx := sp_rx x @ [ch]\<rparr>) s))))"

definition tcp_ssl_tx_busy :: "'e bear \<Rightarrow> pcb \<Rightarrow> ('e, 'm) bsys_scheme \<Rightarrow> bool" where
  "tcp_ssl_tx_busy B p s =
     (case find_ssl_pcb p s of
        None \<Rightarrow> False
      | Some (a, x) \<Rightarrow> sp_deferred x \<or> sp_pinned x > 0 \<or> st_sendrec (engine_state B x))"

definition on_pcb :: "pcb \<Rightarrow> ('e ssl_pcb \<Rightarrow> 'e ssl_pcb) \<Rightarrow> ('e, 'm) bsys_scheme \<Rightarrow> ('e, 'm) bsys_scheme" where
  "on_pcb p f s = (case find_ssl_pcb p s of None \<Rightarrow> s | Some (a, x) \<Rightarrow> upd_pcb a f s)"

definition tcp_ssl_arg :: "pcb \<Rightarrow> nat option \<Rightarrow> ('e, 'm) bsys_scheme \<Rightarrow> ('e, 'm) bsys_scheme" where
  "tcp_ssl_arg p arg = on_pcb p (\<lambda>x. x\<lparr>sp_arg := arg\<rparr>)"

definition tcp_ssl_data :: "pcb \<Rightarrow> bool \<Rightarrow> ('e, 'm) bsys_scheme \<Rightarrow> ('e, 'm) bsys_scheme" where
  "tcp_ssl_data p f = on_pcb p (\<lambda>x. x\<lparr>sp_on_data := f\<rparr>)"

definition tcp_ssl_handshake :: "pcb \<Rightarrow> bool \<Rightarrow> ('e, 'm) bsys_scheme \<Rightarrow> ('e, 'm) bsys_scheme" where
  "tcp_ssl_handshake p f = on_pcb p (\<lambda>x. x\<lparr>sp_on_handshake := f\<rparr>)"

definition tcp_ssl_err :: "pcb \<Rightarrow> bool \<Rightarrow> ('e, 'm) bsys_scheme \<Rightarrow> ('e, 'm) bsys_scheme" where
  "tcp_ssl_err p f = on_pcb p (\<lambda>x. x\<lparr>sp_on_error := f\<rparr>)"

definition tcp_ssl_error_string :: "int \<Rightarrow> string" where
  "tcp_ssl_error_string err =
     (if err \<ge> - 0x100 \<and> err < 0 then ''TLS alert'' else if err = 0 then ''closed'' else ''TLS error'')"

definition tcp_ssl_client_count :: "('e, 'm) bsys_scheme \<Rightarrow> nat" where
  "tcp_ssl_client_count s = length (filter (\<lambda>(a, x). sp_server x) (b_pcbs s))"

text \<open>
  \<open>tcp_ssl_close\<close>: what is buffered, the record that is pending, and the closing alert are written with a copy, each only if the one before
  was taken. One such write: whether lwIP refused it, and how many bytes went out.
\<close>

definition push_copy :: "'e bear \<Rightarrow> lwip \<Rightarrow> 'e ssl_pcb \<Rightarrow> call list \<Rightarrow> bool \<times> nat \<times> 'e ssl_pcb \<times> call list" where
  "push_copy B E x t =
     (case e_sendrec_buf B (fst (sp_engine x)) of (off, len) \<Rightarrow>
        if len = 0 \<or> len > out_size B then (False, 0, x, t)
        else
          let t1 = t @ [Tcp_write (sp_tcp x) (take len (drop off (snd (sp_engine x)))) 1]
          in if write_ret E t (sp_tcp x) \<noteq> ERR_OK then (True, 0, x, t1)
             else (False, len, x\<lparr>sp_engine := e_sendrec_ack B len (sp_engine x)\<rparr>, t1))"

definition close_steps :: "'e bear \<Rightarrow> lwip \<Rightarrow> 'e ssl_pcb \<Rightarrow> call list \<Rightarrow> nat \<times> 'e ssl_pcb \<times> call list" where
  "close_steps B E x t =
     (if st_closed (engine_state B x) then (0, x, t)
      else case (if st_sendapp (engine_state B x) then push_copy B E (x\<lparr>sp_engine := e_flush B False (sp_engine x)\<rparr>) t
                 else (False, 0, x, t)) of (stop1, n1, x1, t1) \<Rightarrow>
        if stop1 then (0, x1, t1)
        else case (if st_sendrec (engine_state B x1) then push_copy B E x1 t1 else (False, 0, x1, t1)) of (stop2, n2, x2, t2) \<Rightarrow>
          if stop2 then (n1, x2, t2)
          else
            let x3 = (if n2 > 0 then x2\<lparr>sp_deferred := False, sp_hard := 0\<rparr> else x2)
            in case push_copy B E (x3\<lparr>sp_engine := e_close B (sp_engine x3)\<rparr>) t2 of (stop3, n3, x4, t3) \<Rightarrow>
              (n1 + n2 + n3, x4, if n3 > 0 then t3 @ [Tcp_output (sp_tcp x4)] else t3))"

definition tcp_ssl_close :: "'e bear \<Rightarrow> lwip \<Rightarrow> pcb \<Rightarrow> ('e, 'm) bsys_scheme \<Rightarrow> nat \<times> ('e, 'm) bsys_scheme" where
  "tcp_ssl_close B E p s =
     (case find_ssl_pcb p s of
        None \<Rightarrow> (0, s)
      | Some (a, x) \<Rightarrow> (case close_steps B E x (b_trace s) of (n, y, t) \<Rightarrow> (n, (upd_pcb a (\<lambda>_. y) s)\<lparr>b_trace := t\<rparr>)))"

text \<open>
  \<open>tcp_ssl_new_client\<close>, with no certificate validator given, and \<open>tcp_ssl_new_server\<close>. \<open>a\<close> is the address of the new object,
  \<open>mem\<close> what its output region holds.
\<close>

definition tcp_ssl_new_client ::
  "'e bear \<Rightarrow> lwip \<Rightarrow> ('e, 'm) others \<Rightarrow> addr \<Rightarrow> u8 list \<Rightarrow> pcb option \<Rightarrow> string \<Rightarrow> ('e, 'm) bsys_scheme \<Rightarrow> int \<times> ('e, 'm) bsys_scheme" where
  "tcp_ssl_new_client B E cb a mem p host s =
     (case p of
        None \<Rightarrow> (-1, s)
      | Some q \<Rightarrow>
          (case tcp_ssl_alloc_pcb E s of (ok, s1) \<Rightarrow>
             if \<not> ok then (-1, s1)
             else case new_alloc E s1 of (ok2, s2) \<Rightarrow>
               if \<not> ok2 then (-1, s2)
               else case new_alloc E s2 of (ok3, s3) \<Rightarrow>
                 if \<not> ok3 then (-1, s3)
                 else case e_client B host mem of
                   None \<Rightarrow> (-1, s3)
                 | Some eng \<Rightarrow> (0, process_ssl_engine B E cb a (tcp_ssl_register_pcb a (init_ssl_pcb B eng q False) s3))))"

definition tcp_ssl_new_server :: "'e bear \<Rightarrow> lwip \<Rightarrow> addr \<Rightarrow> u8 list \<Rightarrow> pcb option \<Rightarrow> bool \<Rightarrow> ('e, 'm) bsys_scheme \<Rightarrow> int \<times> ('e, 'm) bsys_scheme" where
  "tcp_ssl_new_server B E a mem p has_ctx s =
     (case p of
        None \<Rightarrow> (-1, s)
      | Some q \<Rightarrow>
          if \<not> has_ctx then (-1, s)
          else case tcp_ssl_alloc_pcb E s of (ok, s1) \<Rightarrow>
            if \<not> ok then (-1, s1)
            else case e_server B mem of
              None \<Rightarrow> (-1, s1)
            | Some eng \<Rightarrow> (0, tcp_ssl_register_pcb a (init_ssl_pcb B eng q True) s1))"

end
