(* ===== verification/Bear_Laws.thy ===== *)
theory Bear_Laws
  imports Bear_Engine
begin

text \<open>
  What holds of the engine layer of theory \<open>Bear_Engine\<close>: received bytes reach the engine in order, the ring holds the records in flight,
  and the invariant of all connections, for any code that runs in the middle of the pump and keeps it (the locale \<open>reentrant\<close>), which the
  operations of the layer do.
\<close>

section \<open>Received bytes\<close>

text \<open>The offset is inside the first chain.\<close>

definition rx_ok :: "'e ssl_pcb \<Rightarrow> bool" where
  "rx_ok x \<longleftrightarrow> sp_head_off x \<le> (case sp_rx x of [] \<Rightarrow> 0 | ch # _ \<Rightarrow> length (chain_bytes ch))"

lemma rx_left_Cons: "sp_rx x = ch # r \<Longrightarrow> sp_head_off x \<le> length (chain_bytes ch) \<Longrightarrow>
    rx_left x = drop (sp_head_off x) (chain_bytes ch) @ concat (map chain_bytes r)"
  by (simp add: rx_left_def)

lemma feed_engine_spec:
  assumes "rx_ok x" and "feed_engine B x = (y, calls)"
  shows "\<exists>chunks used. sp_engine y = fold (e_recvrec B) chunks (sp_engine x) \<and> concat chunks @ rx_left y = rx_left x
    \<and> sp_rx x = used @ sp_rx y \<and> rx_ok y
    \<and> calls = concat (map (\<lambda>ch. [Tcp_recved (sp_tcp x) (of_nat (length (chain_bytes ch))), Pbuf_free ch]) used)
    \<and> (sp_rx y = [] \<or> e_recvrec_room B (fst (sp_engine y)) = 0)"
  using assms
proof (induction B x arbitrary: y calls rule: feed_engine.induct)
  case (1 B x)
  show ?case
  proof (cases "sp_rx x")
    case Nil
    then show ?thesis using "1.prems" by (subst (asm) feed_engine.simps) (auto intro!: exI [of _ "[]"])
  next
    case (Cons ch rest)
    define bytes where "bytes = chain_bytes ch"
    define x1 where "x1 = note_record B bytes x"
    define x2 where "x2 = feed_chunk B bytes x1"
    define chunk where "chunk = take (feed_count B bytes x1) (drop (sp_head_off x) bytes)"
    have off: "sp_head_off x \<le> length bytes" using "1.prems"(1) Cons by (simp add: rx_ok_def bytes_def)
    have eq: "feed_engine B x = (if e_recvrec_room B (fst (sp_engine x)) = 0 then (x1, [])
        else if sp_head_off x2 \<ge> length bytes
        then case feed_engine B (x2\<lparr>sp_rx := rest, sp_head_off := 0\<rparr>) of (y, calls) \<Rightarrow>
          (y, [Tcp_recved (sp_tcp x) (of_nat (length bytes)), Pbuf_free ch] @ calls)
        else feed_engine B x2)"
      by (subst feed_engine.simps) (simp add: Cons bytes_def x1_def x2_def Let_def)
    have left: "rx_left x = drop (sp_head_off x) bytes @ concat (map chain_bytes rest)"
      using rx_left_Cons [OF Cons] off by (simp add: bytes_def)
    have split: "drop (sp_head_off x) bytes = chunk @ drop (sp_head_off x2) bytes"
      using append_take_drop_id [of "feed_count B bytes x1" "drop (sp_head_off x) bytes"]
      by (simp add: chunk_def x2_def x1_def add.commute del: append_take_drop_id)
    have eng: "sp_engine x2 = e_recvrec B chunk (sp_engine x)" by (simp add: x2_def x1_def chunk_def)
    show ?thesis
    proof (cases "e_recvrec_room B (fst (sp_engine x)) = 0")
      case True
      then have "y = x1" "calls = []" using "1.prems"(2) eq by auto
      moreover have "rx_ok x1" "rx_left x1 = rx_left x" using "1.prems"(1) by (simp_all add: x1_def rx_ok_def rx_left_def Cons)
      ultimately show ?thesis
        using True by (intro exI [of _ "[]"]) (simp add: x1_def)
    next
      case room: False
      show ?thesis
      proof (cases "sp_head_off x2 \<ge> length bytes")
        case True
        define x3 where "x3 = x2\<lparr>sp_rx := rest, sp_head_off := 0\<rparr>"
        obtain z calls' where z: "feed_engine B x3 = (z, calls')" by fastforce
        have run: "y = z" "calls = [Tcp_recved (sp_tcp x) (of_nat (length bytes)), Pbuf_free ch] @ calls'"
          using "1.prems"(2) eq room True z by (auto simp: x3_def)
        have "rx_ok x3" by (auto simp: rx_ok_def x3_def split: list.split)
        from "1.IH"(1) [OF Cons bytes_def x1_def room x2_def True] this z
        obtain chunks used where ih: "sp_engine z = fold (e_recvrec B) chunks (sp_engine x3)" "concat chunks @ rx_left z = rx_left x3"
            "sp_rx x3 = used @ sp_rx z" "rx_ok z"
            "calls' = concat (map (\<lambda>ch. [Tcp_recved (sp_tcp x3) (of_nat (length (chain_bytes ch))), Pbuf_free ch]) used)"
            "sp_rx z = [] \<or> e_recvrec_room B (fst (sp_engine z)) = 0"
          unfolding x3_def by blast
        have "rx_left x = chunk @ rx_left x3"
          using left split True by (simp add: x3_def rx_left_def)
        moreover have "sp_rx x = (ch # used) @ sp_rx z" using ih(3) Cons by (simp add: x3_def)
        moreover have "sp_tcp x3 = sp_tcp x" "sp_engine x3 = e_recvrec B chunk (sp_engine x)"
          using eng by (simp_all add: x3_def x2_def x1_def)
        ultimately show ?thesis
          using ih run by (intro exI [of _ "chunk # chunks"] exI [of _ "ch # used"]) (simp add: bytes_def)
      next
        case more: False
        obtain z calls' where z: "feed_engine B x2 = (z, calls')" by fastforce
        have run: "y = z" "calls = calls'" using "1.prems"(2) eq room more z by auto
        have x2: "sp_rx x2 = ch # rest" "sp_tcp x2 = sp_tcp x" by (simp_all add: x2_def x1_def Cons)
        have "rx_ok x2" using more by (simp add: rx_ok_def x2 bytes_def)
        from "1.IH"(2) [OF Cons bytes_def x1_def room x2_def more] this z
        obtain chunks used where ih: "sp_engine z = fold (e_recvrec B) chunks (sp_engine x2)" "concat chunks @ rx_left z = rx_left x2"
            "sp_rx x2 = used @ sp_rx z" "rx_ok z"
            "calls' = concat (map (\<lambda>ch. [Tcp_recved (sp_tcp x2) (of_nat (length (chain_bytes ch))), Pbuf_free ch]) used)"
            "sp_rx z = [] \<or> e_recvrec_room B (fst (sp_engine z)) = 0"
          by blast
        have "rx_left x2 = drop (sp_head_off x2) bytes @ concat (map chain_bytes rest)"
          using rx_left_Cons [OF x2(1)] more by (simp add: bytes_def)
        then have "rx_left x = chunk @ rx_left x2" using left split by simp
        then show ?thesis
          using ih run x2 Cons eng by (intro exI [of _ "chunk # chunks"] exI [of _ used]) simp
      qed
    qed
  qed
qed

section \<open>The ring of outbound records\<close>

definition ring_inv :: "'e bear \<Rightarrow> 'e ssl_pcb \<Rightarrow> bool" where
  "ring_inv B x \<longleftrightarrow> sp_pinned x \<le> ring_slots B \<and> sp_next x < ring_slots B \<and> length (sp_ring_len x) = ring_slots B"

text \<open>The lengths of the pinned records, oldest first.\<close>

definition ring_lens :: "'e bear \<Rightarrow> 'e ssl_pcb \<Rightarrow> nat list" where
  "ring_lens B x = map (\<lambda>i. sp_ring_len x ! ((oldest_slot B x + i) mod ring_slots B)) [0..<sp_pinned x]"

text \<open>The reference: drop the records the acknowledged bytes cover; the rest, and the bytes left over.\<close>

fun covered :: "nat \<Rightarrow> nat list \<Rightarrow> nat list \<times> nat" where
  "covered t [] = ([], t)"
| "covered t (l # ls) = (if t \<ge> l then covered (t - l) ls else (l # ls, t))"

lemma add_mod_inj:
  fixes a i j k :: nat
  assumes "i < k" and "j < k" and "(a + i) mod k = (a + j) mod k"
  shows "i = j"
proof (rule ccontr)
  assume "i \<noteq> j"
  have False if "x < y" "y < k" "(a + x) mod k = (a + y) mod k" for x y :: nat
  proof -
    have "k dvd (a + y) - (a + x)" using that(3) by (metis mod_eq_dvd_iff_nat add_le_cancel_left less_imp_le that(1))
    then show False using that(1,2) by (simp add: nat_dvd_not_less)
  qed
  with assms \<open>i \<noteq> j\<close> show False by (metis linorder_neqE_nat)
qed

lemma oldest_pinned: "ring_inv B x \<Longrightarrow> (oldest_slot B x + sp_pinned x) mod ring_slots B = sp_next x"
proof -
  assume i: "ring_inv B x"
  have "(oldest_slot B x + sp_pinned x) mod ring_slots B = (sp_next x + ring_slots B - sp_pinned x + sp_pinned x) mod ring_slots B"
    by (simp add: oldest_slot_def mod_add_left_eq)
  also have "sp_next x + ring_slots B - sp_pinned x + sp_pinned x = sp_next x + ring_slots B" using i by (simp add: ring_inv_def)
  finally show ?thesis using i by (simp add: ring_inv_def)
qed

lemma pin_slot_ring:
  assumes "ring_inv B x" and "sp_pinned x < ring_slots B"
  shows "ring_inv B (pin_slot B len x)" and "ring_lens B (pin_slot B len x) = ring_lens B x @ [len]"
proof -
  let ?K = "ring_slots B" and ?y = "pin_slot B len x"
  show inv: "ring_inv B ?y" using assms by (auto simp: ring_inv_def pin_slot_def)
  have o: "oldest_slot B ?y = oldest_slot B x"
  proof -
    have "(sp_next x + 1) mod ?K + ?K - (sp_pinned x + 1) = (sp_next x + 1) mod ?K + (?K - (sp_pinned x + 1))"
      using assms(2) by simp
    then have "oldest_slot B ?y = (sp_next x + 1 + (?K - (sp_pinned x + 1))) mod ?K"
      by (simp add: oldest_slot_def pin_slot_def mod_add_left_eq)
    also have "sp_next x + 1 + (?K - (sp_pinned x + 1)) = sp_next x + ?K - sp_pinned x" using assms(2) by simp
    finally show ?thesis by (simp add: oldest_slot_def)
  qed
  have nxt: "(oldest_slot B x + sp_pinned x) mod ?K = sp_next x" by (rule oldest_pinned [OF assms(1)])
  have keep: "sp_next x \<noteq> (oldest_slot B x + i) mod ?K" if "i < sp_pinned x" for i
    using add_mod_inj [of i ?K "sp_pinned x" "oldest_slot B x"] nxt that assms(2) by auto
  show "ring_lens B ?y = ring_lens B x @ [len]"
    unfolding ring_lens_def o using keep nxt assms by (auto simp: pin_slot_def ring_inv_def)
qed

definition release_one :: "'e bear \<Rightarrow> 'e ssl_pcb \<Rightarrow> 'e ssl_pcb" where
  "release_one B x = x\<lparr>sp_acked := sp_acked x - of_nat (sp_ring_len x ! oldest_slot B x),
     sp_ring_len := (sp_ring_len x)[oldest_slot B x := 0], sp_pinned := sp_pinned x - 1\<rparr>"

lemma release_one_ring:
  assumes "ring_inv B x" and "sp_pinned x > 0"
  shows "ring_inv B (release_one B x)" and "ring_lens B x = (sp_ring_len x ! oldest_slot B x) # ring_lens B (release_one B x)"
proof -
  let ?K = "ring_slots B" and ?y = "release_one B x"
  have K: "?K > 0" using assms by (simp add: ring_inv_def)
  show "ring_inv B ?y" using assms by (auto simp: ring_inv_def release_one_def)
  have o: "oldest_slot B ?y = (oldest_slot B x + 1) mod ?K"
  proof -
    have "sp_next x + ?K - (sp_pinned x - 1) = (sp_next x + ?K - sp_pinned x) + 1"
      using assms unfolding ring_inv_def by linarith
    then show ?thesis by (simp add: oldest_slot_def release_one_def mod_Suc_eq)
  qed
  have lt: "oldest_slot B x < ?K" using K by (simp add: oldest_slot_def)
  have keep: "oldest_slot B x \<noteq> Suc (oldest_slot B x + i) mod ?K" if "i < sp_pinned x - 1" for i
  proof -
    have "Suc i < ?K" using that assms(1) unfolding ring_inv_def by linarith
    then show ?thesis using add_mod_inj [of "Suc i" ?K 0 "oldest_slot B x"] K lt by auto
  qed
  have tail: "ring_lens B ?y = map (\<lambda>i. sp_ring_len x ! ((oldest_slot B x + Suc i) mod ?K)) [0..<sp_pinned x - 1]"
    unfolding ring_lens_def o using keep by (auto simp: release_one_def mod_Suc_eq mod_add_left_eq)
  have "[0..<sp_pinned x] = 0 # map Suc [0..<sp_pinned x - 1]"
    using assms(2) by (metis Suc_pred' map_Suc_upt upt_rec)
  then show "ring_lens B x = (sp_ring_len x ! oldest_slot B x) # ring_lens B ?y"
    using lt by (simp add: tail) (simp add: ring_lens_def)
qed

lemma release_slots_ring:
  assumes "ring_inv B x"
  shows "ring_inv B (release_slots B x)
    \<and> (ring_lens B (release_slots B x), unat (sp_acked (release_slots B x))) = covered (unat (sp_acked x)) (ring_lens B x)"
  using assms
proof (induction B x rule: release_slots.induct)
  case (1 B x)
  show ?case
  proof (cases "sp_pinned x = 0")
    case True
    then show ?thesis using "1.prems" by (subst release_slots.simps, subst release_slots.simps) (simp add: ring_lens_def release_slots.simps)
  next
    case False
    let ?len = "sp_ring_len x ! oldest_slot B x"
    note r = release_one_ring [OF "1.prems"] 
    show ?thesis
    proof (cases "unat (sp_acked x) \<ge> ?len")
      case True
      have e: "release_slots B x = release_slots B (release_one B x)"
        by (subst release_slots.simps) (use False True in \<open>simp add: Let_def release_one_def\<close>)
      have "unat (sp_acked x) < 2 ^ LENGTH(32)" by (rule unsigned_less)
      then have "unat (of_nat ?len :: u32) = ?len" using True by (simp add: unat_of_nat)
      then have a: "unat (sp_acked (release_one B x)) = unat (sp_acked x) - ?len"
        using True by (simp add: release_one_def unat_sub word_le_nat_alt)
      show ?thesis
        using "1.IH" [OF False refl refl True] r False a True unfolding e by (simp add: release_one_def)
    next
      case stop: False
      then have "release_slots B x = x" by (subst release_slots.simps) (simp add: False Let_def)
      then show ?thesis using "1.prems" r(2) False stop by simp
    qed
  qed
qed

text \<open>Emissions and acknowledgements, in any order; a record is only emitted when a slot is free. The ghost state is all lengths emitted
  and the number of bytes acknowledged.\<close>

datatype ring_op = Emit nat | Acked nat

fun ring_run :: "'e bear \<Rightarrow> ring_op list \<Rightarrow> 'e ssl_pcb \<times> nat list \<times> nat \<Rightarrow> 'e ssl_pcb \<times> nat list \<times> nat" where
  "ring_run B [] s = s"
| "ring_run B (Emit l # ops) (x, es, n) =
     ring_run B ops (if sp_pinned x < ring_slots B then (pin_slot B l x, es @ [l], n) else (x, es, n))"
| "ring_run B (Acked k # ops) (x, es, n) = ring_run B ops (ack_ring B k x, es, n + k)"

text \<open>Records are not empty and fit 16 bits; the peer acknowledges no more than was sent.\<close>

fun ring_valid :: "'e bear \<Rightarrow> ring_op list \<Rightarrow> 'e ssl_pcb \<times> nat list \<times> nat \<Rightarrow> bool" where
  "ring_valid B [] s = True"
| "ring_valid B (Emit l # ops) (x, es, n) \<longleftrightarrow> 0 < l \<and> l < 65536 \<and>
     ring_valid B ops (if sp_pinned x < ring_slots B then (pin_slot B l x, es @ [l], n) else (x, es, n))"
| "ring_valid B (Acked k # ops) (x, es, n) \<longleftrightarrow> n + k \<le> sum_list es \<and> ring_valid B ops (ack_ring B k x, es, n + k)"

lemma covered_append: "covered t es = (ls, u) \<Longrightarrow> ls \<noteq> [] \<Longrightarrow> covered t (es @ [l]) = (ls @ [l], u)"
  by (induction t es rule: covered.induct) (auto split: if_splits)

lemma covered_append_empty: "covered t es = ([], u) \<Longrightarrow> covered t (es @ [l]) = covered u [l]"
  by (induction t es rule: covered.induct) (auto split: if_splits)

lemma covered_more: "covered t es = (ls, u) \<Longrightarrow> covered (t + k) es = covered (u + k) ls"
  by (induction t es rule: covered.induct) (auto split: if_splits)

lemma covered_sum: "covered t es = (ls, u) \<Longrightarrow> u + sum_list es = t + sum_list ls \<and> set ls \<subseteq> set es"
  by (induction t es rule: covered.induct) (auto split: if_splits)

lemma covered_full: "covered t es = ([], u) \<Longrightarrow> t \<le> sum_list es \<Longrightarrow> u = 0"
  using covered_sum by fastforce

lemma sum_list_le: "\<forall>l \<in> set xs. l \<le> c \<Longrightarrow> sum_list xs \<le> length xs * (c :: nat)"
  by (induction xs) auto

lemma ring_lens_length: "length (ring_lens B x) = sp_pinned x"
  by (simp add: ring_lens_def)

lemma ack_ring_spec:
  assumes "ring_inv B x" and "unat (sp_acked x) + k < 2 ^ 32" and "unat (sp_acked x) + k \<le> sum_list (ring_lens B x)"
  shows "ring_inv B (ack_ring B k x) \<and> (ring_lens B (ack_ring B k x), unat (sp_acked (ack_ring B k x))) = covered (unat (sp_acked x) + k) (ring_lens B x)"
proof -
  define x1 where "x1 = x\<lparr>sp_acked := sp_acked x + of_nat k\<rparr>"
  define y where "y = release_slots B x1"
  have same: "ring_inv B (z\<lparr>sp_acked := a\<rparr>) = ring_inv B z" "ring_lens B (z\<lparr>sp_acked := a\<rparr>) = ring_lens B z"
      "ring_inv B (z\<lparr>sp_body := b\<rparr>) = ring_inv B z" "ring_lens B (z\<lparr>sp_body := b\<rparr>) = ring_lens B z" for z a b
    by (simp_all add: ring_inv_def ring_lens_def oldest_slot_def)
  have a: "unat (sp_acked x1) = unat (sp_acked x) + k"
    using assms(2) by (simp add: x1_def unat_word_ariths unat_of_nat)
  have i: "ring_inv B x1" using assms(1) by (simp add: x1_def same)
  have y: "ring_inv B y" "(ring_lens B y, unat (sp_acked y)) = covered (unat (sp_acked x) + k) (ring_lens B x)"
    using release_slots_ring [OF i] by (simp_all add: y_def [symmetric] a) (simp_all add: x1_def same)
  have "unat (sp_acked y) = 0" if "sp_pinned y = 0"
  proof -
    have "ring_lens B y = []" using that ring_lens_length [of B y] by simp
    then show ?thesis using covered_full [OF y(2) [symmetric, simplified \<open>ring_lens B y = []\<close>] assms(3)] by simp
  qed
  then have "sp_pinned y = 0 \<Longrightarrow> sp_acked y = 0" by (simp add: unat_eq_0)
  then have z: "(if sp_pinned y = 0 then y\<lparr>sp_acked := 0\<rparr> else y) = y" by simp
  show ?thesis using y unfolding ack_ring_def x1_def [symmetric] y_def [symmetric] Let_def z by (simp add: same)
qed

lemma ring_run_spec:
  assumes "ring_inv B x" and "ring_slots B < 256" and "(ring_lens B x, unat (sp_acked x)) = covered n es"
    and "n \<le> sum_list es" and "\<forall>l \<in> set es. 0 < l \<and> l < 65536" and "ring_valid B ops (x, es, n)"
    and "ring_run B ops (x, es, n) = (y, es', n')"
  shows "ring_inv B y \<and> (ring_lens B y, unat (sp_acked y)) = covered n' es'"
  using assms
proof (induction ops arbitrary: x es n)
  case (Cons op ops)
  show ?case
  proof (cases op)
    case (Emit l)
    show ?thesis
    proof (cases "sp_pinned x < ring_slots B")
      case True
      let ?y = "pin_slot B l x"
      have p: "ring_inv B ?y" "ring_lens B ?y = ring_lens B x @ [l]" using pin_slot_ring [OF Cons.prems(1) True] by simp_all
      have l: "0 < l" "l < 65536" using Cons.prems(6) Emit by auto
      have "(ring_lens B ?y, unat (sp_acked ?y)) = covered n (es @ [l])"
      proof (cases "ring_lens B x = []")
        case True
        then have c: "covered n es = ([], unat (sp_acked x))" using Cons.prems(3) by simp
        then have "unat (sp_acked x) = 0" using covered_full Cons.prems(4) by blast
        then show ?thesis using covered_append_empty [OF c, of l] p True l by (simp add: pin_slot_def)
      next
        case False
        then show ?thesis using covered_append [OF Cons.prems(3) [symmetric] False, of l] p by (simp add: pin_slot_def)
      qed
      then show ?thesis
        using Cons.IH [OF p(1) Cons.prems(2), of n "es @ [l]"] Cons.prems(4-7) l Emit True by auto
    next
      case False
      then show ?thesis using Cons.IH [OF Cons.prems(1-5)] Cons.prems(6,7) Emit by simp
    qed
  next
    case (Acked k)
    have k: "n + k \<le> sum_list es" using Cons.prems(6) Acked by simp
    have s: "unat (sp_acked x) + sum_list es = n + sum_list (ring_lens B x)" "set (ring_lens B x) \<subseteq> set es"
      using covered_sum [OF Cons.prems(3) [symmetric]] by simp_all
    have le: "unat (sp_acked x) + k \<le> sum_list (ring_lens B x)" using s k by linarith
    have "\<forall>l \<in> set (ring_lens B x). l \<le> 65535" using s(2) Cons.prems(5) by fastforce
    then have "sum_list (ring_lens B x) \<le> sp_pinned x * 65535" using sum_list_le [of "ring_lens B x" 65535] by (simp add: ring_lens_length)
    also have "\<dots> \<le> 255 * 65535" using Cons.prems(1,2) by (simp add: ring_inv_def)
    finally have "unat (sp_acked x) + k < 2 ^ 32" using le by simp
    from ack_ring_spec [OF Cons.prems(1) this le]
    have a: "ring_inv B (ack_ring B k x)" "(ring_lens B (ack_ring B k x), unat (sp_acked (ack_ring B k x))) = covered (n + k) es"
      using covered_more [OF Cons.prems(3) [symmetric], of k] by simp_all
    show ?thesis
      using Cons.IH [OF a(1) Cons.prems(2) a(2) k Cons.prems(5)] Cons.prems(6,7) Acked by simp
  qed
qed simp

section \<open>Invariants\<close>

text \<open>
  What holds of every connection: the ring, the receive queue, and that a queued pump is among the scheduled functions.
\<close>

definition good_pcb :: "'e bear \<Rightarrow> addr list \<Rightarrow> addr \<Rightarrow> 'e ssl_pcb \<Rightarrow> bool" where
  "good_pcb B sched a x \<longleftrightarrow> ring_inv B x \<and> rx_ok x \<and> length (sp_rx x) \<le> SSL_RX_PEND_MAX
     \<and> (sp_pump x = ENGINE_PUMP_QUEUED \<longrightarrow> a \<in> set sched)"

definition bear_inv :: "'e bear \<Rightarrow> ('e, 'm) bsys_scheme \<Rightarrow> bool" where
  "bear_inv B s \<longleftrightarrow> distinct (map fst (b_pcbs s)) \<and> (\<forall>a x. pcb_at s a = Some x \<longrightarrow> good_pcb B (b_sched s) a x)"

lemma blog_simps [simp]:
  "b_pcbs (blog c s) = b_pcbs s" "b_sched (blog c s) = b_sched s" "pcb_at (blog c s) = pcb_at s"
  by (simp_all add: blog_def pcb_at_def fun_eq_iff)

lemma upd_pcb_simps [simp]:
  "b_sched (upd_pcb a f s) = b_sched s" "map fst (b_pcbs (upd_pcb a f s)) = map fst (b_pcbs s)" "b_trace (upd_pcb a f s) = b_trace s"
  by (simp_all add: upd_pcb_def split_def comp_def)

lemma pcb_at_upd [simp]: "pcb_at (upd_pcb a f s) b = (if b = a then map_option f (pcb_at s a) else pcb_at s b)"
proof -
  have "map_of (map (\<lambda>(b, x). (b, if b = a then f x else x)) l) b = (if b = a then map_option f (map_of l a) else map_of l b)" for l
    by (induction l) auto
  then show ?thesis by (simp add: pcb_at_def upd_pcb_def)
qed

lemma pcb_at_record [simp]: "pcb_at (s\<lparr>b_sched := q\<rparr>) = pcb_at s" "pcb_at (s\<lparr>b_trace := t\<rparr>) = pcb_at s" "pcb_at (s\<lparr>b_thunk := n\<rparr>) = pcb_at s"
  by (simp_all add: pcb_at_def fun_eq_iff)

lemma bear_inv_blog [simp]: "bear_inv B (blog c s) = bear_inv B s" "bear_inv B (s\<lparr>b_trace := t\<rparr>) = bear_inv B s"
    "bear_inv B (s\<lparr>b_thunk := n\<rparr>) = bear_inv B s"
  by (simp_all add: bear_inv_def)

lemma bear_inv_upd:
  assumes "bear_inv B s" and "\<And>x. pcb_at s a = Some x \<Longrightarrow> good_pcb B (b_sched s) a x \<Longrightarrow> good_pcb B (b_sched s) a (f x)"
  shows "bear_inv B (upd_pcb a f s)"
  using assms unfolding bear_inv_def by (auto split: if_splits)

lemma bear_inv_sched:
  assumes "bear_inv B s" and "set (b_sched s) \<subseteq> set q"
  shows "bear_inv B (s\<lparr>b_sched := q\<rparr>)"
  using assms by (auto simp: bear_inv_def good_pcb_def)

lemma bear_inv_good: "bear_inv B s \<Longrightarrow> pcb_at s a = Some x \<Longrightarrow> good_pcb B (b_sched s) a x"
  by (simp add: bear_inv_def)

lemma good_frame:
  assumes "good_pcb B q a x" and "sp_ring_len y = sp_ring_len x" "sp_next y = sp_next x" "sp_pinned y = sp_pinned x"
    "sp_rx y = sp_rx x" "sp_head_off y = sp_head_off x" "sp_pump y = sp_pump x"
  shows "good_pcb B q a y"
  using assms by (simp add: good_pcb_def ring_inv_def rx_ok_def)

lemma schedule_inv: "bear_inv B s \<Longrightarrow> bear_inv B (snd (schedule_ssl_engine E a s))"
proof -
  assume i: "bear_inv B s"
  have d: "bear_inv B (upd_pcb a (\<lambda>x. x\<lparr>sp_pump := ENGINE_PUMP_DROPPED\<rparr>) s)"
    by (rule bear_inv_upd [OF i]) (simp add: good_pcb_def ring_inv_def rx_ok_def)
  let ?s1 = "blog Schedule (upd_pcb a (\<lambda>x. x\<lparr>sp_pump := ENGINE_PUMP_DROPPED\<rparr>) s)"
  have q: "bear_inv B (upd_pcb a (\<lambda>x. x\<lparr>sp_pump := ENGINE_PUMP_QUEUED\<rparr>) (?s1\<lparr>b_sched := b_sched ?s1 @ [a]\<rparr>))"
    by (rule bear_inv_upd [OF bear_inv_sched]) (use d in \<open>auto simp: good_pcb_def ring_inv_def rx_ok_def\<close>)
  show ?thesis using i d q by (simp add: schedule_ssl_engine_def Let_def split: option.split)
qed

lemma feed_engine_frame:
  assumes "feed_engine B x = (y, calls)"
  shows "sp_ring_len y = sp_ring_len x \<and> sp_next y = sp_next x \<and> sp_pinned y = sp_pinned x \<and> sp_pump y = sp_pump x
    \<and> sp_server y = sp_server x"
  using assms
proof (induction B x arbitrary: y calls rule: feed_engine.induct)
  case (1 B x)
  show ?case
  proof (cases "sp_rx x")
    case Nil
    then show ?thesis using "1.prems" by (subst (asm) feed_engine.simps) auto
  next
    case (Cons ch rest)
    show ?thesis
      using "1.prems" "1.IH" [OF Cons refl refl _ refl] Cons
      by (subst (asm) feed_engine.simps)
        (auto simp: Let_def note_record_def feed_chunk_def split: if_splits prod.splits)
  qed
qed

lemma feed_good:
  assumes "good_pcb B q a x" and "feed_engine B x = (y, calls)"
  shows "good_pcb B q a y"
proof -
  have "rx_ok x" using assms(1) by (simp add: good_pcb_def)
  from feed_engine_spec [OF this assms(2)] obtain used where "sp_rx x = used @ sp_rx y" "rx_ok y" by blast
  then show ?thesis using assms(1) feed_engine_frame [OF assms(2)] by (simp add: good_pcb_def ring_inv_def)
qed

text \<open>The fields the invariants look at.\<close>

definition same_frame :: "'e ssl_pcb \<Rightarrow> 'e ssl_pcb \<Rightarrow> bool" where
  "same_frame y x \<longleftrightarrow> sp_ring_len y = sp_ring_len x \<and> sp_next y = sp_next x \<and> sp_pinned y = sp_pinned x
     \<and> sp_rx y = sp_rx x \<and> sp_head_off y = sp_head_off x \<and> sp_pump y = sp_pump x
     \<and> sp_tcp y = sp_tcp x \<and> sp_server y = sp_server x"

lemma good_same: "good_pcb B q a x \<Longrightarrow> same_frame y x \<Longrightarrow> good_pcb B q a y"
  unfolding same_frame_def by (elim conjE) (rule good_frame)

lemma emit_frame:
  assumes "emit_record B E x t = (go, y, t')"
  shows "if go then same_frame y (pin_slot B (snd (e_sendrec_buf B (fst (sp_engine x)))) x) else same_frame y x"
  using assms by (auto simp: emit_record_def Let_def same_frame_def pin_slot_def split: prod.splits if_splits)

lemma emit_good:
  assumes "good_pcb B q a x" and "sp_pinned x < ring_slots B" and "emit_record B E x t = (go, y, t')"
  shows "good_pcb B q a y"
proof -
  have "good_pcb B q a (pin_slot B len x)" for len
    using assms(1,2) pin_slot_ring(1) [of B x len] by (simp add: good_pcb_def rx_ok_def pin_slot_def)
  then show ?thesis using emit_frame [OF assms(3)] good_same [OF assms(1)] good_same by (cases go) (simp, blast, simp)
qed

lemma release_frame:
  "sp_rx (release_slots B x) = sp_rx x \<and> sp_head_off (release_slots B x) = sp_head_off x \<and> sp_pump (release_slots B x) = sp_pump x"
proof (induction B x rule: release_slots.induct)
  case (1 B x)
  then show ?case by (subst (1 2 3) release_slots.simps) (auto simp: Let_def)
qed

lemma ack_good: "good_pcb B q a x \<Longrightarrow> good_pcb B q a (ack_ring B k x)"
proof -
  assume g: "good_pcb B q a x"
  let ?x = "x\<lparr>sp_acked := sp_acked x + of_nat k\<rparr>"
  have "ring_inv B ?x" using g by (simp add: good_pcb_def ring_inv_def)
  then have "ring_inv B (release_slots B ?x)" using release_slots_ring by blast
  then have "good_pcb B q a (release_slots B ?x)" using g release_frame [of B ?x] by (simp add: good_pcb_def rx_ok_def)
  then show ?thesis by (auto simp: ack_ring_def Let_def intro: good_frame)
qed

lemma emit_trace: "emit_record B E x t = (go, y, t') \<Longrightarrow> \<exists>u. t' = t @ u"
  by (auto simp: emit_record_def Let_def split: prod.splits if_splits)

lemma push_trace: "push_copy B E x t = (stop, n, y, t') \<Longrightarrow> \<exists>u. t' = t @ u"
  by (auto simp: push_copy_def Let_def split: prod.splits if_splits)

lemma close_trace:
  assumes "close_steps B E x t = (n, y, t')"
  shows "\<exists>u. t' = t @ u"
  using assms unfolding close_steps_def
  by (auto split: if_splits prod.splits dest!: push_trace)

text \<open>Which connections there are, and which are a server's, and the references to the thunk: no step of the pump itself changes them.\<close>

definition ids :: "('e, 'm) bsys_scheme \<Rightarrow> (addr \<times> bool) list" where
  "ids s = map (\<lambda>(a, x). (a, sp_server x)) (b_pcbs s)"

definition same_ids :: "('e, 'm) bsys_scheme \<Rightarrow> ('e, 'm) bsys_scheme \<Rightarrow> bool" where
  "same_ids s s' \<longleftrightarrow>
     ids s' = ids s \<and> b_thunk s' = b_thunk s \<and> bsys.more s' = bsys.more s \<and> (\<exists>t. b_trace s' = b_trace s @ t)"

lemma same_ids_trans: "same_ids a b \<Longrightarrow> same_ids b c \<Longrightarrow> same_ids a c"
  by (auto simp: same_ids_def)

lemma same_ids_simps [simp]:
  "same_ids s s" "same_ids s (blog c s)" "same_ids s (s\<lparr>b_sched := q\<rparr>)" "same_ids s (s\<lparr>b_trace := b_trace s @ t\<rparr>)"
  by (simp_all add: same_ids_def ids_def blog_def)

lemma same_ids_upd:
  assumes "distinct (map fst (b_pcbs s))" and "\<And>x. pcb_at s a = Some x \<Longrightarrow> sp_server (f x) = sp_server x"
  shows "same_ids s (upd_pcb a f s)"
proof -
  have "sp_server (f x) = sp_server x" if "(a, x) \<in> set (b_pcbs s)" for x
    using that assms by (simp add: pcb_at_def)
  then show ?thesis by (auto simp: same_ids_def ids_def upd_pcb_def split: if_splits)
qed

lemma same_ids_schedule:
  assumes "distinct (map fst (b_pcbs s))"
  shows "same_ids s (snd (schedule_ssl_engine E a s))"
proof -
  let ?s1 = "blog Schedule (upd_pcb a (\<lambda>x. x\<lparr>sp_pump := ENGINE_PUMP_DROPPED\<rparr>) s)"
  let ?s2 = "?s1\<lparr>b_sched := b_sched ?s1 @ [a]\<rparr>"
  have 1: "same_ids s (upd_pcb a (\<lambda>x. x\<lparr>sp_pump := ENGINE_PUMP_DROPPED\<rparr>) s)" by (rule same_ids_upd [OF assms]) simp
  then have 2: "same_ids s ?s1" by (rule same_ids_trans) simp
  then have 3: "same_ids s ?s2" by (rule same_ids_trans) simp
  have "same_ids s (upd_pcb a (\<lambda>x. x\<lparr>sp_pump := ENGINE_PUMP_QUEUED\<rparr>) ?s2)"
    by (rule same_ids_trans [OF 3 same_ids_upd]) (simp_all add: assms)
  then show ?thesis using 2 by (simp add: schedule_ssl_engine_def Let_def split: option.split)
qed

definition bear_with :: "'e bear \<Rightarrow> (('e, 'm) bsys_scheme \<Rightarrow> bool) \<Rightarrow> ('e, 'm) bsys_scheme \<Rightarrow> bool" where
  "bear_with B K s \<longleftrightarrow> bear_inv B s \<and> K s"

text \<open>
  The contract of the code that runs in the middle of the pump, and what follows for the pump. \<open>K\<close> is any further invariant of which
  connections there are.
\<close>

locale reentrant =
  fixes B :: "'e bear" and E :: lwip and others :: "('e, 'm) others" and K :: "('e, 'm) bsys_scheme \<Rightarrow> bool"
  assumes others_inv: "bear_with B K s \<Longrightarrow> bear_with B K (others c s)"
    and same: "K s \<Longrightarrow> same_ids s s' \<Longrightarrow> K s'"
begin

lemma run_others_inv: "bear_with B K s \<Longrightarrow> bear_with B K (run_others others c s)"
  unfolding run_others_def by (rule others_inv) (auto simp: bear_with_def intro: same)

lemma upd_inv:
  assumes "bear_with B K s"
    and "\<And>x. pcb_at s a = Some x \<Longrightarrow> good_pcb B (b_sched s) a x \<Longrightarrow> good_pcb B (b_sched s) a (f x) \<and> sp_server (f x) = sp_server x"
  shows "bear_with B K (upd_pcb a f s)"
proof -
  have i: "bear_inv B s" "K s" using assms(1) by (simp_all add: bear_with_def)
  have "bear_inv B (upd_pcb a f s)" by (rule bear_inv_upd [OF i(1)]) (simp add: assms(2))
  moreover have "same_ids s (upd_pcb a f s)"
    by (rule same_ids_upd) (use i(1) assms(2) bear_inv_good [OF i(1)] in \<open>auto simp: bear_inv_def\<close>)
  ultimately show ?thesis using same [OF i(2)] by (simp add: bear_with_def)
qed

lemma upd_same_inv:
  assumes "bear_with B K s" and "\<And>x. same_frame (f x) x"
  shows "bear_with B K (upd_pcb a f s)"
proof (rule upd_inv [OF assms(1)])
  fix x assume "good_pcb B (b_sched s) a x"
  then have "good_pcb B (b_sched s) a (f x)" using assms(2) by (rule good_same)
  moreover have "sp_server (f x) = sp_server x" using assms(2) [of x] by (simp add: same_frame_def)
  ultimately show "good_pcb B (b_sched s) a (f x) \<and> sp_server (f x) = sp_server x" ..
qed

lemma trace_inv: "bear_with B K s \<Longrightarrow> bear_with B K (s\<lparr>b_trace := b_trace s @ t\<rparr>)"
  by (auto simp: bear_with_def intro: same)

lemma declare_inv: "bear_with B K s \<Longrightarrow> bear_with B K (declare_handshake others a f s)"
  using run_others_inv upd_same_inv [of s "\<lambda>x. x\<lparr>sp_handshake_done := True\<rparr>" a]
  by (auto simp: declare_handshake_def Let_def same_frame_def split: option.split)

lemma pump_io_inv:
  assumes i: "bear_with B K s" and run: "pump_io B E others a f s = (go, s')"
  shows "bear_with B K s'"
proof (cases "pcb_at s a")
  case None
  then show ?thesis using assms by (simp add: pump_io_def)
next
  case (Some x)
  let ?data = "e_recvapp_buf B (fst (sp_engine x))"
  let ?s1 = "upd_pcb a (\<lambda>x. x\<lparr>sp_engine := e_recvapp_ack B (length ?data) (sp_engine x)\<rparr>) s"
  have s1: "bear_with B K ?s1" by (rule upd_same_inv [OF i]) (simp add: same_frame_def)
  obtain go' y t where e: "emit_record B E x (b_trace s) = (go', y, t)" by (metis prod_cases3)
  have srv: "sp_server y = sp_server x" using emit_frame [OF e] by (auto simp: same_frame_def pin_slot_def split: if_splits)
  obtain u where u: "t = b_trace s @ u" using emit_trace [OF e] by blast
  have y: "bear_with B K ((upd_pcb a (\<lambda>_. y) s)\<lparr>b_trace := t\<rparr>)" if pin: "sp_pinned x < ring_slots B"
  proof -
    have "bear_with B K (upd_pcb a (\<lambda>_. y) s)"
      by (rule upd_inv [OF i]) (use emit_good [OF _ pin e] Some srv in auto)
    from trace_inv [OF this, of u] show ?thesis by (simp add: u)
  qed
  show ?thesis
    using run Some e i s1 y run_others_inv [OF s1] by (auto simp: pump_io_def Let_def split: if_splits)
qed

lemma pump_loop_inv: "bear_with B K s \<Longrightarrow> pump_loop B E others a n s = (go, s') \<Longrightarrow> bear_with B K s'"
proof (induction n arbitrary: s)
  case (Suc n)
  define s1 where "s1 = run_others others Yield s"
  have i1: "bear_with B K s1" unfolding s1_def by (rule run_others_inv [OF Suc.prems(1)])
  show ?case
  proof (cases "pcb_at s1 a")
    case None
    then show ?thesis using Suc.prems(2) i1 by (simp add: s1_def)
  next
    case (Some x)
    define f where "f = engine_state B x"
    define s2 where "s2 = (if st_sendapp f then upd_pcb a (\<lambda>x. x\<lparr>sp_engine := e_flush B False (sp_engine x)\<rparr>) s1 else s1)"
    define s3 where "s3 = declare_handshake others a f s2"
    have i2: "bear_with B K s2" using i1 upd_same_inv [OF i1] by (simp add: s2_def same_frame_def)
    have i3: "bear_with B K s3" unfolding s3_def by (rule declare_inv [OF i2])
    obtain go4 s4 where io: "pump_io B E others a f s3 = (go4, s4)" by fastforce
    have i4: "bear_with B K s4" by (rule pump_io_inv [OF i3 io])
    show ?thesis
      using Suc.prems(2) Suc.IH [OF i4] Some i2 i3 i4 io run_others_inv [OF i2]
      by (auto simp: s1_def [symmetric] f_def [symmetric] s2_def [symmetric] s3_def [symmetric] Let_def split: if_splits)
  qed
qed simp

lemma process_inv: "bear_with B K s \<Longrightarrow> bear_with B K (process_ssl_engine B E others a s)"
proof -
  assume i: "bear_with B K s"
  show ?thesis
  proof (cases "pcb_at s a")
    case (Some x)
    obtain y calls where f: "feed_engine B x = (y, calls)" by fastforce
    let ?s = "(upd_pcb a (\<lambda>_. y) s)\<lparr>b_trace := b_trace s @ calls\<rparr>"
    have "bear_with B K (upd_pcb a (\<lambda>_. y) s)"
      by (rule upd_inv [OF i]) (use feed_good [OF _ f] feed_engine_frame [OF f] Some in auto)
    from trace_inv [OF this, of calls] have s: "bear_with B K ?s" by simp
    obtain go s1 where l: "pump_loop B E others a SSL_MAX_FEED_LOOPS ?s = (go, s1)" by fastforce
    have i1: "bear_with B K s1" by (rule pump_loop_inv [OF s l])
    have "bear_with B K (snd (schedule_ssl_engine E a s1))"
      using i1 schedule_inv same [OF _ same_ids_schedule] by (auto simp: bear_with_def bear_inv_def)
    then have "bear_with B K (pump_end B E others a s1)"
      using i1 declare_inv [OF i1] by (simp add: pump_end_def split: option.split)
    then show ?thesis using i1 Some f l by (simp add: process_ssl_engine_def)
  qed (use i in \<open>simp add: process_ssl_engine_def\<close>)
qed

lemma run_scheduled_inv: "bear_with B K s \<Longrightarrow> bear_with B K (run_scheduled B E others s)"
proof -
  assume w: "bear_with B K s"
  then have i: "bear_inv B s" and k: "K s" by (simp_all add: bear_with_def)
  show ?thesis
  proof (cases "b_sched s")
    case (Cons a r)
    let ?q = "s\<lparr>b_sched := r\<rparr>"
    let ?s = "upd_pcb a (\<lambda>x. x\<lparr>sp_pump := ENGINE_PUMP_IDLE\<rparr>) ?q"
    have other: "good_pcb B r b x" if "pcb_at s b = Some x" "b \<noteq> a" for b x
      using bear_inv_good [OF i that(1)] that(2) Cons by (auto simp: good_pcb_def)
    have mine: "good_pcb B r a (x\<lparr>sp_pump := ENGINE_PUMP_IDLE\<rparr>)" if "pcb_at s a = Some x" for x
      using bear_inv_good [OF i that] by (simp add: good_pcb_def ring_inv_def rx_ok_def)
    have ids: "same_ids s ?q" "same_ids ?q ?s" using i by (simp, intro same_ids_upd) (simp_all add: bear_inv_def)
    have "bear_inv B ?s" using i other mine by (auto simp: bear_inv_def split: if_splits)
    moreover have "bear_inv B ?q" if "\<not> is_alive ?q a"
    proof -
      have "b \<noteq> a" if "pcb_at s b = Some x" for b x using that \<open>\<not> is_alive ?q a\<close> by (auto simp: is_alive_def)
      then show ?thesis using i other unfolding bear_inv_def by simp
    qed
    moreover have "K ?q" "K ?s" using same [OF k] ids same_ids_trans by blast+
    ultimately show ?thesis using process_inv [of ?s] Cons by (simp add: run_scheduled_def Let_def bear_with_def)
  qed (use w in \<open>simp add: run_scheduled_def\<close>)
qed

end

text \<open>The operations that do not run the pump keep the invariant.\<close>

lemma find_in_map_of: "distinct (map fst l) \<Longrightarrow> find_in p l = Some (a, x) \<Longrightarrow> map_of l a = Some x"
proof (induction p l rule: find_in.induct)
  case (2 p b y r)
  then show ?case by (auto split: if_splits) (metis fst_conv image_eqI map_of_SomeD)
qed simp

lemma find_pcb_at: "bear_inv B s \<Longrightarrow> find_ssl_pcb p s = Some (a, x) \<Longrightarrow> pcb_at s a = Some x"
  by (simp add: bear_inv_def find_ssl_pcb_def pcb_at_def find_in_map_of)

lemma remove_in_set: "set (remove_in p l) \<subseteq> set l"
  by (induction p l rule: remove_in.induct) auto

lemma remove_in_distinct: "distinct (map fst l) \<Longrightarrow> distinct (map fst (remove_in p l))"
proof (induction p l rule: remove_in.induct)
  case (2 p a x r)
  then show ?case using remove_in_set [of p r] by (auto simp: image_iff split: if_splits)
qed simp

lemma sent_inv: "bear_inv B s \<Longrightarrow> bear_inv B (tcp_ssl_sent B E p k s)"
  using bear_inv_upd [of B s _ "ack_ring B k"] ack_good schedule_inv
  by (fastforce simp: tcp_ssl_sent_def Let_def split: option.split)

lemma write_inv: "bear_inv B s \<Longrightarrow> bear_inv B (snd (tcp_ssl_write B E p d s))"
proof -
  assume i: "bear_inv B s"
  have u: "bear_inv B (upd_pcb a (\<lambda>x. x\<lparr>sp_engine := e\<rparr>) s)" for a e
    by (rule bear_inv_upd [OF i]) (erule good_same, simp add: same_frame_def)
  show ?thesis
    using i schedule_inv [OF i] schedule_inv [OF u]
    by (simp add: tcp_ssl_write_def Let_def split: option.split prod.split)
qed

lemma read_inv: "bear_inv B s \<Longrightarrow> bear_inv B (snd (tcp_ssl_read E p ch s))"
proof -
  assume i: "bear_inv B s"
  have "bear_inv B (upd_pcb a (\<lambda>x. x\<lparr>sp_rx := sp_rx x @ [ch]\<rparr>) s)"
    if "find_ssl_pcb p s = Some (a, x)" "\<not> length (sp_rx x) \<ge> SSL_RX_PEND_MAX" for a x
  proof (rule bear_inv_upd [OF i])
    fix y assume y: "pcb_at s a = Some y" "good_pcb B (b_sched s) a y"
    then have "y = x" using find_pcb_at [OF i that(1)] by simp
    then show "good_pcb B (b_sched s) a (y\<lparr>sp_rx := sp_rx y @ [ch]\<rparr>)"
      using y(2) that(2) by (auto simp: good_pcb_def ring_inv_def rx_ok_def split: list.splits)
  qed
  then show ?thesis using i schedule_inv by (auto simp: tcp_ssl_read_def split: option.split)
qed

lemma push_frame: "push_copy B E x t = (stop, n, y, t') \<Longrightarrow> same_frame y x"
  by (auto simp: push_copy_def Let_def same_frame_def split: prod.splits if_splits)

lemma same_trans: "same_frame a b \<Longrightarrow> same_frame b c \<Longrightarrow> same_frame a c"
  by (simp add: same_frame_def)

lemma same_eng [simp]: "same_frame (x\<lparr>sp_engine := e\<rparr>) y = same_frame x y" "same_frame y (x\<lparr>sp_engine := e\<rparr>) = same_frame y x"
    "same_frame (x\<lparr>sp_deferred := d, sp_hard := h\<rparr>) y = same_frame x y" "same_frame x x"
    "same_frame y (x\<lparr>sp_deferred := d, sp_hard := h\<rparr>) = same_frame y x"
  by (simp_all add: same_frame_def)

lemma close_frame:
  assumes "close_steps B E x t = (n, y, t')"
  shows "same_frame y x"
proof (cases "st_closed (engine_state B x)")
  case False
  obtain stop1 n1 x1 t1 where 1: "(if st_sendapp (engine_state B x) then push_copy B E (x\<lparr>sp_engine := e_flush B False (sp_engine x)\<rparr>) t
      else (False, 0, x, t)) = (stop1, n1, x1, t1)" by (metis prod_cases4)
  have f1: "same_frame x1 x" using 1 push_frame [of B E "x\<lparr>sp_engine := e_flush B False (sp_engine x)\<rparr>"] by (auto split: if_splits)
  obtain stop2 n2 x2 t2 where 2: "(if st_sendrec (engine_state B x1) then push_copy B E x1 t1 else (False, 0, x1, t1)) = (stop2, n2, x2, t2)"
    by (metis prod_cases4)
  have f2: "same_frame x2 x" by (cases "st_sendrec (engine_state B x1)") (use 2 f1 same_trans [OF push_frame f1] in auto)
  define x3 where "x3 = (if n2 > 0 then x2\<lparr>sp_deferred := False, sp_hard := 0\<rparr> else x2)"
  have f3: "same_frame x3 x" using f2 by (simp add: x3_def)
  obtain stop3 n3 x4 t3 where 3: "push_copy B E (x3\<lparr>sp_engine := e_close B (sp_engine x3)\<rparr>) t2 = (stop3, n3, x4, t3)" by (metis prod_cases4)
  have f4: "same_frame x4 x" using same_trans [OF push_frame [OF 3], of x] f3 by simp
  have "close_steps B E x t = (if stop1 then (0, x1, t1) else if stop2 then (n1, x2, t2)
      else (n1 + n2 + n3, x4, if n3 > 0 then t3 @ [Tcp_output (sp_tcp x4)] else t3))"
    unfolding close_steps_def 1 prod.case 2 Let_def x3_def [symmetric] 3 using False by simp
  then show ?thesis using assms f1 f2 f4 by (auto split: if_splits)
qed (use assms in \<open>simp add: close_steps_def same_frame_def\<close>)

lemma close_inv: "bear_inv B s \<Longrightarrow> bear_inv B (snd (tcp_ssl_close B E p s))"
proof -
  assume i: "bear_inv B s"
  show ?thesis
  proof (cases "find_ssl_pcb p s")
    case (Some ax)
    obtain a x where ax: "ax = (a, x)" by fastforce
    obtain n y t where c: "close_steps B E x (b_trace s) = (n, y, t)" by (metis prod_cases3)
    have "pcb_at s a = Some x" using find_pcb_at [OF i] Some ax by simp
    then have "bear_inv B (upd_pcb a (\<lambda>_. y) s)"
      using bear_inv_upd [OF i, of a "\<lambda>_. y"] good_same [OF _ close_frame [OF c]] by simp
    then show ?thesis using Some ax c by (simp add: tcp_ssl_close_def)
  qed (use i in \<open>simp add: tcp_ssl_close_def\<close>)
qed

lemma free_inv: "bear_inv B s \<Longrightarrow> bear_inv B (snd (tcp_ssl_free p s))"
proof -
  assume i: "bear_inv B s"
  have sub: "map_of (remove_in p l) a = Some x \<Longrightarrow> map_of l a = Some x" if "distinct (map fst l)" for l a and x :: "'a ssl_pcb"
    using that remove_in_set [of p l] remove_in_distinct [OF that, of p]
    by (metis map_of_eq_Some_iff subsetD)
  have "distinct (map fst (b_pcbs s))" using i by (simp add: bear_inv_def)
  then have "bear_inv B (s\<lparr>b_pcbs := remove_in p (b_pcbs s)\<rparr>)"
    using i sub remove_in_distinct by (auto simp: bear_inv_def pcb_at_def)
  then have "bear_inv B (s\<lparr>b_pcbs := remove_in p (b_pcbs s), b_thunk := n, b_trace := t\<rparr>)" for n t
    by (simp add: bear_inv_def pcb_at_def)
  then show ?thesis using i by (auto simp: tcp_ssl_free_def free_rx_pend_def split: option.split)
qed

lemma register_inv:
  assumes "bear_inv B s" and "ring_slots B > 0" and "\<not> is_alive s a"
  shows "bear_inv B (tcp_ssl_register_pcb a (init_ssl_pcb B eng p srv) s)"
proof -
  have "a \<notin> fst ` set (b_pcbs s)" using assms(3) by (auto simp: is_alive_def pcb_at_def map_of_eq_None_iff)
  moreover have "good_pcb B q a (init_ssl_pcb B eng p srv)" for q
    using assms(2) by (simp add: good_pcb_def init_ssl_pcb_def ring_inv_def rx_ok_def)
  ultimately show ?thesis using assms(1) by (auto simp: bear_inv_def tcp_ssl_register_pcb_def pcb_at_def)
qed

lemma on_pcb_inv:
  assumes "bear_inv B s" and "\<And>x. same_frame (f x) x"
  shows "bear_inv B (on_pcb p f s)"
proof -
  have "bear_inv B (upd_pcb a f s)" for a by (rule bear_inv_upd [OF assms(1)]) (rule good_same [OF _ assms(2)])
  then show ?thesis using assms(1) by (simp add: on_pcb_def split: option.split)
qed

lemma new_server_inv:
  assumes "bear_inv B s" and "ring_slots B > 0" and "\<not> is_alive s a"
  shows "bear_inv B (snd (tcp_ssl_new_server B E a mem p has_ctx s))"
proof -
  have "\<not> is_alive (blog c s) a" for c using assms(3) by (simp add: is_alive_def)
  then have "bear_inv B (tcp_ssl_register_pcb a (init_ssl_pcb B eng q True) (blog New_object (blog New_object s)))" for eng q
    using assms by (intro register_inv) (simp_all add: is_alive_def)
  then show ?thesis
    using assms(1) by (auto simp: tcp_ssl_new_server_def tcp_ssl_alloc_pcb_def new_alloc_def split: option.split)
qed

section \<open>The system\<close>

text \<open>
  What the rest of the program asks of this layer, except for running the pump: from lwIP's callbacks, from the application, from a callback
  of the pump or during a \<open>yield()\<close>. A new connection gets an address that is free; one whose connection is gone may be used again.
\<close>

datatype bear_op =
    Op_write pcb "u8 list"
  | Op_read pcb "pbuf list"
  | Op_sent pcb nat
  | Op_close pcb
  | Op_free pcb
  | Op_callbacks pcb "nat option" bool bool bool
  | Op_serve addr "u8 list" pcb

fun bear_exec :: "'e bear \<Rightarrow> lwip \<Rightarrow> bear_op \<Rightarrow> ('e, 'm) bsys_scheme \<Rightarrow> ('e, 'm) bsys_scheme" where
  "bear_exec B E (Op_write p d) s = snd (tcp_ssl_write B E p d s)"
| "bear_exec B E (Op_read p ch) s = snd (tcp_ssl_read E p ch s)"
| "bear_exec B E (Op_sent p k) s = tcp_ssl_sent B E p k s"
| "bear_exec B E (Op_close p) s = snd (tcp_ssl_close B E p s)"
| "bear_exec B E (Op_free p) s = snd (tcp_ssl_free p s)"
| "bear_exec B E (Op_callbacks p arg d h e) s = tcp_ssl_err p e (tcp_ssl_handshake p h (tcp_ssl_data p d (tcp_ssl_arg p arg s)))"
| "bear_exec B E (Op_serve a mem p) s = (if is_alive s a then s else snd (tcp_ssl_new_server B E a mem (Some p) True s))"

definition bear_react :: "'e bear \<Rightarrow> lwip \<Rightarrow> (call list \<Rightarrow> bear_op list) \<Rightarrow> ('e, 'm) others" where
  "bear_react B E app c s = fold (bear_exec B E) (app (b_trace s)) s"

inductive bear_system :: "'e bear \<Rightarrow> lwip \<Rightarrow> (call list \<Rightarrow> bear_op list) \<Rightarrow> 'e bsys \<Rightarrow> bool"
  for B :: "'e bear" and E :: lwip and app :: "call list \<Rightarrow> bear_op list" where
  start: "bear_system B E app \<lparr>b_pcbs = [], b_sched = [], b_thunk = 0, b_trace = []\<rparr>"
| operation: "bear_system B E app s \<Longrightarrow> bear_system B E app (bear_exec B E op s)"
| client: "bear_system B E app s \<Longrightarrow> \<not> is_alive s a \<Longrightarrow>
    bear_system B E app (snd (tcp_ssl_new_client B E (bear_react B E app) a mem p host s))"
| pump: "bear_system B E app s \<Longrightarrow> bear_system B E app (process_ssl_engine B E (bear_react B E app) a s)"
| scheduled: "bear_system B E app s \<Longrightarrow> bear_system B E app (run_scheduled B E (bear_react B E app) s)"

lemma exec_inv:
  assumes "ring_slots B > 0" and "bear_inv B s"
  shows "bear_inv B (bear_exec B E op s)"
proof (cases op)
  case (Op_callbacks p arg d h e)
  have "bear_inv B (tcp_ssl_err p e (tcp_ssl_handshake p h (tcp_ssl_data p d (tcp_ssl_arg p arg s))))"
    unfolding tcp_ssl_err_def tcp_ssl_handshake_def tcp_ssl_data_def tcp_ssl_arg_def
    by (intro on_pcb_inv assms(2)) (simp_all add: same_frame_def)
  then show ?thesis using Op_callbacks by simp
qed (use assms write_inv read_inv sent_inv close_inv free_inv new_server_inv in auto)

lemma react_inv:
  assumes "ring_slots B > 0" and "bear_inv B s"
  shows "bear_inv B (bear_react B E app c s)"
proof -
  have "bear_inv B (fold (bear_exec B E) ops s)" for ops
    using assms(2) by (induction ops arbitrary: s) (simp_all add: exec_inv [OF assms(1)])
  then show ?thesis by (simp add: bear_react_def)
qed

text \<open>A configuration with at least one slot.\<close>

definition with_slot :: "'e bear \<Rightarrow> 'e bear" where
  "with_slot B = B\<lparr>ring_slots := max 1 (ring_slots B)\<rparr>"

interpretation engine: reentrant "with_slot B" E "bear_react (with_slot B) E app" "\<lambda>_. True" for B :: "'e bear" and E app
  by unfold_locales (auto simp: bear_with_def intro!: react_inv, simp add: with_slot_def)

lemma bear_system_inv:
  assumes "bear_system B E app s" and "ring_slots B > 0"
  shows "bear_inv B s"
proof -
  have B: "with_slot B = B" using assms(2) by (simp add: with_slot_def max_def)
  show ?thesis using assms(1)
  proof (induction rule: bear_system.induct)
    case start
    show ?case by (simp add: bear_inv_def pcb_at_def)
  next
    case (operation s op)
    then show ?case by (simp add: exec_inv assms(2))
  next
    case (client s a mem p host)
    have r: "bear_inv B (tcp_ssl_register_pcb a (init_ssl_pcb B eng q False) s')"
      if "bear_inv B s'" "\<not> is_alive s' a" for s' :: "'a bsys" and eng q
      by (rule register_inv [OF that(1) assms(2) that(2)])
    have "bear_inv B (blog New_object (blog New_object (blog New_object (blog New_object s))))" using client by simp
    then show ?case
      using client engine.process_inv [where B = B and E = E and app = app, unfolded B bear_with_def, simplified, OF r]
      by (auto simp: tcp_ssl_new_client_def tcp_ssl_alloc_pcb_def new_alloc_def is_alive_def split: option.split)
  next
    case (pump s a)
    then show ?case using engine.process_inv [where B = B and E = E and app = app and s = s, unfolded B bear_with_def] by simp
  next
    case (scheduled s)
    then show ?case using engine.run_scheduled_inv [where B = B and E = E and app = app and s = s, unfolded B bear_with_def] by simp
  qed
qed

section \<open>Properties\<close>

text \<open>
  C25: the pump feeds received bytes to the engine in wire order and loses none: what the engine got in this pass, followed by what is
  still queued, is what was queued. lwIP is told of exactly the chains that were used up, once each, in order, with their whole
  lengths, and they are freed; a chain that is partly fed stays, unacknowledged. The pass ends with nothing queued or no room.
\<close>

theorem engine_feed_in_order:
  assumes "rx_ok x" and "feed_engine B x = (y, calls)"
  shows "\<exists>chunks used. sp_engine y = fold (e_recvrec B) chunks (sp_engine x) \<and> concat chunks @ rx_left y = rx_left x
    \<and> sp_rx x = used @ sp_rx y \<and> rx_ok y
    \<and> calls = concat (map (\<lambda>ch. [Tcp_recved (sp_tcp x) (of_nat (length (chain_bytes ch))), Pbuf_free ch]) used)
    \<and> (if sp_rx y = [] then True else e_recvrec_room B (fst (sp_engine y)) = 0)"
  using feed_engine_spec [OF assms] by auto

text \<open>An engine that is the list of the bytes it got, with room for six of them at a time.\<close>

definition toy_bear :: "u8 list bear" where
  "toy_bear =
     \<lparr>ring_slots = 1, out_size = 8, e_state = (\<lambda>_. \<lparr>st_closed = False, st_sendrec = False, st_sendapp = True, st_recvapp = False\<rparr>),
      e_last_error = (\<lambda>_. 0), e_boundary = (\<lambda>_. True), e_recvrec_room = (\<lambda>e. 6 - length e), e_recvrec = (\<lambda>bs (e, m). (e @ bs, m)),
      e_sendrec_buf = (\<lambda>_. (5, 3)), e_sendrec_ack = (\<lambda>_ em. em), e_recvapp_buf = (\<lambda>_. []), e_recvapp_ack = (\<lambda>_ em. em),
      e_sendapp_buf = (\<lambda>_. (2, 4)), e_sendapp_ack = (\<lambda>_ em. em), e_flush = (\<lambda>_ em. em), e_close = (\<lambda>em. em),
      alert_close_notify = 0, new_block = (\<lambda>t. (length t, replicate 8 0)), e_client = (\<lambda>_ m. Some ([], m)), e_server = (\<lambda>m. Some ([], m))\<rparr>"

lemma toy_fields:
  "ring_slots toy_bear = 1" "out_size toy_bear = 8" "e_sendapp_buf toy_bear e = (2, 4)" "e_sendapp_ack toy_bear k em = em"
  "e_flush toy_bear f em = em" "st_sendapp (e_state toy_bear e)"
  by (simp_all add: toy_bear_def)

definition toy_pcb :: "u8 list ssl_pcb" where
  "toy_pcb = (init_ssl_pcb toy_bear ([], replicate 8 0) 7 True)\<lparr>sp_rx := [[\<lparr>pb_id = 1, pb_data = [1, 2]\<rparr>, \<lparr>pb_id = 2, pb_data = [3]\<rparr>],
     [\<lparr>pb_id = 3, pb_data = [4, 5, 6, 7]\<rparr>]]\<rparr>"

theorem engine_feed_in_order_witness:
  "\<exists>y calls chunks. feed_engine toy_bear toy_pcb = (y, calls) \<and> concat chunks @ rx_left y = [1, 2, 3, 4, 5, 6, 7]"
proof -
  obtain y calls where r: "feed_engine toy_bear toy_pcb = (y, calls)" by fastforce
  have ok: "rx_ok toy_pcb" by (simp add: rx_ok_def toy_pcb_def init_ssl_pcb_def chain_bytes_def)
  have l: "rx_left toy_pcb = [1, 2, 3, 4, 5, 6, 7]" by (simp add: rx_left_def toy_pcb_def init_ssl_pcb_def chain_bytes_def)
  from engine_feed_in_order [OF ok r] r l show ?thesis by auto
qed

text \<open>
  C24: the ring is a queue of records in flight. From a new connection, after any sequence of emissions and acknowledgements in which
  the peer acknowledges no more than was sent, the slots hold exactly the records whose last byte is not yet acknowledged, in the order
  they were emitted, and the counter is the number of acknowledged bytes of the oldest of them: no slot is released early, which would let the
  next record overwrite bytes lwIP still refers to, and none is kept longer than needed.
\<close>

theorem ring_holds_unacked:
  assumes "0 < ring_slots B" and "ring_slots B < 256" and "ring_valid B ops (init_ssl_pcb B eng p srv, [], 0)"
  shows "case ring_run B ops (init_ssl_pcb B eng p srv, [], 0) of (y, es, n) \<Rightarrow>
    ring_inv B y \<and> (ring_lens B y, unat (sp_acked y)) = covered n es"
proof -
  let ?x = "init_ssl_pcb B eng p srv"
  have i: "ring_inv B ?x" "(ring_lens B ?x, unat (sp_acked ?x)) = covered 0 []"
    using assms(1) by (simp_all add: ring_inv_def ring_lens_def init_ssl_pcb_def)
  obtain y es n where r: "ring_run B ops (?x, [], 0) = (y, es, n)" by (metis prod_cases3)
  have "ring_inv B y \<and> (ring_lens B y, unat (sp_acked y)) = covered n es"
    by (rule ring_run_spec [OF i(1) assms(2) i(2) _ _ assms(3) r]) simp_all
  then show ?thesis using r by simp
qed

theorem ring_holds_unacked_witness:
  "case ring_run (toy_bear\<lparr>ring_slots := 2\<rparr>) [Emit 5, Emit 3, Acked 4, Acked 2] (init_ssl_pcb (toy_bear\<lparr>ring_slots := 2\<rparr>) ([], []) 7 True, [], 0)
   of (y, es, n) \<Rightarrow> (ring_lens (toy_bear\<lparr>ring_slots := 2\<rparr>) y, unat (sp_acked y)) = ([3], 1)"
proof -
  let ?B = "toy_bear\<lparr>ring_slots := 2\<rparr>" and ?ops = "[Emit 5, Emit 3, Acked 4, Acked 2]"
  let ?s = "(init_ssl_pcb ?B ([], []) 7 True, [], 0)"
  have v: "ring_valid ?B ?ops ?s" by (simp add: toy_bear_def init_ssl_pcb_def pin_slot_def)
  obtain y es n where r: "ring_run ?B ?ops ?s = (y, es, n)" by (metis prod_cases3)
  have "es = [5, 3]" "n = 6" using r by (auto simp: toy_bear_def init_ssl_pcb_def pin_slot_def)
  then show ?thesis
    using ring_holds_unacked [OF _ _ v] r by (simp add: toy_bear_def)
qed

text \<open>
  A record leaves the engine exactly when lwIP took it. Taken: the bytes are written without a copy, the engine is told the
  record is gone, the slot is pinned behind the others, and the stall clock is off. Not taken: the engine's record and the ring are
  as before, so nothing is lost or sent twice; and the stall clock runs only if the window was open and nothing was in flight, the
  case in which no acknowledgement can wake the connection.
\<close>

theorem record_gone_only_when_taken:
  assumes "ring_inv B x" and "sp_pinned x < ring_slots B" and "emit_record B E x t = (go, y, t')"
    and "e_sendrec_buf B (fst (sp_engine x)) = (off, len)"
    and "mem = blit (sp_next x * out_size B) (take len (drop off (snd (sp_engine x)))) (snd (sp_engine x))"
  shows "if go
     then 0 < len \<and> len \<le> out_size B \<and> write_ret E t (sp_tcp x) = ERR_OK
       \<and> t' = t @ [Tcp_write (sp_tcp x) (take len (drop off (snd (sp_engine x)))) 0, Tcp_output (sp_tcp x)]
       \<and> sp_engine y = e_sendrec_ack B len (fst (sp_engine x), mem)
       \<and> ring_inv B y \<and> ring_lens B y = ring_lens B x @ [len] \<and> \<not> sp_deferred y \<and> sp_hard y = 0
     else fst (sp_engine y) = fst (sp_engine x) \<and> ring_inv B y \<and> ring_lens B y = ring_lens B x
       \<and> (if t' = t then y = x
          else sp_deferred y \<and> (if sp_hard y = 0 then True
            else len \<le> unat (sndbuf E (butlast t') (sp_tcp x)) \<and> sndqueuelen E (butlast t') (sp_tcp x) = 0))"
proof -
  have ring: "ring_inv B y = ring_inv B z \<and> ring_lens B y = ring_lens B z" if "same_frame y z" for z
    using that by (simp add: same_frame_def ring_inv_def ring_lens_def oldest_slot_def)
  note frame = emit_frame [OF assms(3), unfolded assms(4) snd_conv]
  show ?thesis
  proof (cases go)
    case True
    then have "ring_inv B y" "ring_lens B y = ring_lens B x @ [len]"
      using frame ring pin_slot_ring [OF assms(1,2)] by auto
    then show ?thesis
      using True assms(3-5) by (auto simp: emit_record_def Let_def split: if_splits)
  next
    case False
    then have "ring_inv B y" "ring_lens B y = ring_lens B x" using frame ring assms(1) by auto
    then show ?thesis
      using False assms(3-5) by (auto simp: emit_record_def Let_def butlast_append split: if_splits)
  qed
qed

theorem record_gone_only_when_taken_witness:
  "\<exists>y t'. emit_record toy_bear calm toy_pcb [] = (True, y, t') \<and> ring_lens toy_bear y = [3]"
proof -
  have w: "ring_inv toy_bear toy_pcb" "sp_pinned toy_pcb < ring_slots toy_bear" "e_sendrec_buf toy_bear (fst (sp_engine toy_pcb)) = (5, 3)"
    by (simp_all add: ring_inv_def toy_pcb_def init_ssl_pcb_def toy_bear_def)
  obtain go y t' where e: "emit_record toy_bear calm toy_pcb [] = (go, y, t')" by (metis prod_cases3)
  have g: "go" using e by (simp add: Let_def emit_record_def toy_pcb_def init_ssl_pcb_def toy_bear_def calm_def)
  have l: "ring_lens toy_bear toy_pcb = []" by (simp add: ring_lens_def toy_pcb_def init_ssl_pcb_def)
  from record_gone_only_when_taken [OF w(1,2) e w(3) refl] g e l show ?thesis by auto
qed

text \<open>
  C26: what the comment excludes happens: the slot a record is sent from is part of the buffer the engine works in. With one slot, the
  default, the slot is that buffer. While the record of \<open>len\<close> bytes is in flight, lwIP referring to it, a write of application data goes
  through as long as the engine accepts it, and the copy of the plaintext lands at the offset the engine offers: if that is below \<open>len\<close>,
  on top of the record. When lwIP sends those bytes, for the first time or again, they are no longer the record.
\<close>

theorem write_overwrites_record_in_flight:
  assumes "find_ssl_pcb p s = Some (a, x)" and "pcb_at s a = Some x" and "ring_slots B = 1" and "ring_inv B x" and "ring_lens B x = [len]"
    and "st_sendapp (engine_state B x)" and "e_sendapp_buf B (fst (sp_engine x)) = (off, w)" and "0 < w" and "off < len"
    and "data \<noteq> []" and "off \<le> length (snd (sp_engine x))"
  shows "oldest_slot B x * out_size B \<le> off \<and> off < oldest_slot B x * out_size B + len
    \<and> (let n = min (length data) w; mem = blit off (take n data) (snd (sp_engine x))
       in mem ! off = hd data
        \<and> (case tcp_ssl_write B E p data s of (r, s') \<Rightarrow> r = int n
           \<and> map_option sp_engine (pcb_at s' a) = Some (e_flush B False (e_sendapp_ack B n (fst (sp_engine x), mem)))
           \<and> map_option (ring_lens B) (pcb_at s' a) = Some [len]))"
proof -
  have slot: "oldest_slot B x = 0" using assms(3) by (simp add: oldest_slot_def)
  define n where "n = min (length data) w"
  have n: "(if length data > w then w else length data) = n" by (simp add: n_def)
  have pos: "n > 0" using assms(8,10) by (simp add: n_def)
  define mem where "mem = blit off (take n data) (snd (sp_engine x))"
  have "mem ! off = hd data"
    using pos assms(10,11) by (simp add: mem_def blit_def nth_append hd_conv_nth)
  moreover
  define eng where "eng = e_flush B False (e_sendapp_ack B n (fst (sp_engine x), mem))"
  define s1 where "s1 = upd_pcb a (\<lambda>x. x\<lparr>sp_engine := eng\<rparr>) s"
  have run: "tcp_ssl_write B E p data s = (int n, snd (schedule_ssl_engine E a s1))"
    using assms(1,6,7,8) n by (simp add: tcp_ssl_write_def mem_def [symmetric] eng_def [symmetric] s1_def [symmetric] Let_def)
  have at: "pcb_at s1 a = Some (x\<lparr>sp_engine := eng\<rparr>)" using assms(2) by (simp add: s1_def)
  have "\<exists>q. pcb_at (snd (schedule_ssl_engine E a s1)) a = Some (x\<lparr>sp_engine := eng, sp_pump := q\<rparr>)"
    using at by (auto simp: schedule_ssl_engine_def Let_def intro: exI [of _ "sp_pump x"])
  moreover have "ring_lens B (x\<lparr>sp_engine := eng, sp_pump := q\<rparr>) = [len]" for q
    using assms(5) by (simp add: ring_lens_def oldest_slot_def)
  ultimately show ?thesis
    using slot assms(9) run by (auto simp: n_def [symmetric] mem_def [symmetric] eng_def Let_def)
qed

text \<open>A record of three bytes is emitted; then four bytes are written at offset 2, the third byte of the record.\<close>

definition in_flight :: "u8 list bsys" where
  "in_flight = \<lparr>b_pcbs = [(100, fst (snd (emit_record toy_bear calm (toy_pcb\<lparr>sp_engine := ([], [0, 0, 0, 0, 0, 11, 12, 13])\<rparr>) [])))],
     b_sched = [], b_thunk = 1, b_trace = []\<rparr>"

theorem write_overwrites_record_in_flight_witness:
  "case b_pcbs in_flight of [(a, x)] \<Rightarrow> take 3 (snd (sp_engine x)) = [11, 12, 13] \<and> ring_lens toy_bear x = [3]
     \<and> map_option (\<lambda>y. take 3 (snd (sp_engine y))) (pcb_at (snd (tcp_ssl_write toy_bear calm 7 [65, 66, 67] in_flight)) a) = Some [11, 12, 65]
   | _ \<Rightarrow> False"
proof -
  define x where "x = fst (snd (emit_record toy_bear calm (toy_pcb\<lparr>sp_engine := ([], [0, 0, 0, 0, 0, 11, 12, 13])\<rparr>) []))"
  have x: "sp_tcp x = 7" "sp_engine x = ([], [11, 12, 13, 0, 0, 11, 12, 13])" "sp_pinned x = 1" "sp_ring_len x = [3]" "sp_next x = 0"
    by (simp_all add: Let_def x_def emit_record_def toy_pcb_def init_ssl_pcb_def toy_bear_def calm_def pin_slot_def blit_def)
  have s: "b_pcbs in_flight = [(100, x)]" by (simp add: in_flight_def x_def)
  have r: "ring_lens toy_bear x = [3]" "ring_inv toy_bear x" using x by (simp_all add: ring_lens_def ring_inv_def oldest_slot_def toy_bear_def)
  have "find_ssl_pcb 7 in_flight = Some (100, x)" "pcb_at in_flight 100 = Some x"
    using s x by (simp_all add: find_ssl_pcb_def pcb_at_def)
  from write_overwrites_record_in_flight [OF this _ r(2,1), where off = 2 and w = 4 and data = "[65, 66, 67]" and E = calm] x
  show ?thesis unfolding s
    by (auto simp: toy_fields engine_state_def blit_def Let_def r split: prod.splits)
qed

text \<open>
  In every state the program can reach, whatever the callbacks and the code that runs during \<open>yield()\<close> do, connections freed under
  the pump and addresses used again included: a pump marked as queued is among the scheduled functions, so a connection that relies
  on it is not forgotten; at most 16 received chains are queued; and no more records are pinned than there are slots.
\<close>

theorem queued_pump_is_scheduled:
  assumes "bear_system B E app s" and "0 < ring_slots B" and "pcb_at s a = Some x"
  shows "(if sp_pump x = ENGINE_PUMP_QUEUED then a \<in> set (b_sched s) else True)
    \<and> length (sp_rx x) \<le> 16 \<and> sp_pinned x \<le> ring_slots B \<and> distinct (map fst (b_pcbs s))"
proof -
  have i: "bear_inv B s" by (rule bear_system_inv [OF assms(1,2)])
  then show ?thesis
    using bear_inv_good [OF i assms(3)] by (simp add: good_pcb_def ring_inv_def bear_inv_def SSL_RX_PEND_MAX_def)
qed

theorem queued_pump_is_scheduled_witness:
  "\<exists>s x. bear_system toy_bear calm (\<lambda>_. []) s \<and> pcb_at s 100 = Some x \<and> sp_pump x = ENGINE_PUMP_QUEUED \<and> 100 \<in> set (b_sched s)"
proof -
  define s0 :: "u8 list bsys" where "s0 = \<lparr>b_pcbs = [], b_sched = [], b_thunk = 0, b_trace = []\<rparr>"
  define s1 where "s1 = bear_exec toy_bear calm (Op_serve 100 [] 7) s0"
  define s2 where "s2 = bear_exec toy_bear calm (Op_read 7 []) s1"
  have r: "bear_system toy_bear calm (\<lambda>_. []) s2"
    unfolding s2_def s1_def s0_def by (intro bear_system.operation bear_system.start)
  have x: "\<exists>x. pcb_at s2 100 = Some x \<and> sp_pump x = ENGINE_PUMP_QUEUED"
    by (simp add: s2_def s1_def s0_def is_alive_def pcb_at_def tcp_ssl_new_server_def tcp_ssl_alloc_pcb_def new_alloc_def blog_def
        toy_bear_def tcp_ssl_register_pcb_def init_ssl_pcb_def calm_def tcp_ssl_read_def find_ssl_pcb_def SSL_RX_PEND_MAX_def
        schedule_ssl_engine_def upd_pcb_def Let_def)
  then obtain x where x: "pcb_at s2 100 = Some x" "sp_pump x = ENGINE_PUMP_QUEUED" by blast
  have "0 < ring_slots toy_bear" by (simp add: toy_bear_def)
  from queued_pump_is_scheduled [OF r this x(1)] x r show ?thesis by auto
qed

end
