(* ===== verification/Bear_Frames.thy ===== *)
theory Bear_Frames
  imports Bear_Laws
begin

text \<open>
  What the engine layer of theory \<open>Bear_Engine\<close> leaves alone, for a state with more in it than the layer's own data; and the pump for
  any relation between states that its callbacks respect. What the pump does to a connection that has nothing to do.
\<close>

section \<open>What the engine layer leaves alone\<close>

definition bstep :: "('e, 'm) bsys_scheme \<Rightarrow> ('e, 'm) bsys_scheme \<Rightarrow> bool" where
  "bstep b b' \<longleftrightarrow> bsys.more b' = bsys.more b \<and> (\<exists>t. b_trace b' = b_trace b @ t)"

lemma bstep_refl [simp]: "bstep b b"
  by (simp add: bstep_def)

lemma bstep_trans: "bstep a b \<Longrightarrow> bstep b c \<Longrightarrow> bstep a c"
  by (auto simp: bstep_def)

lemma bstep_basic [simp]:
  "bstep b (blog x b)" "bstep b (upd_pcb a f b)" "bstep b (b\<lparr>b_trace := b_trace b @ t\<rparr>)" "bstep b (b\<lparr>b_sched := q\<rparr>)"
  "bstep b (b\<lparr>b_pcbs := l\<rparr>)" "bstep b (b\<lparr>b_thunk := n\<rparr>)"
  by (simp_all add: bstep_def blog_def upd_pcb_def)

lemma upd_pcb_more [simp]: "bsys.more (upd_pcb a f b) = bsys.more b"
  by (simp add: upd_pcb_def)

lemma bstep_schedule: "bstep b (snd (schedule_ssl_engine E a b))"
proof -
  have "bstep b (blog Schedule (upd_pcb a f b))" for f by (rule bstep_trans [OF bstep_basic(2) bstep_basic(1)])
  moreover from this have "bstep b (upd_pcb a g ((blog Schedule (upd_pcb a f b))\<lparr>b_sched := q\<rparr>))" for f g q
    by (rule bstep_trans [OF bstep_trans [OF _ bstep_basic(4)] bstep_basic(2)])
  ultimately show ?thesis by (auto simp: schedule_ssl_engine_def Let_def split: option.split)
qed

lemma bstep_after: "bstep a b \<Longrightarrow> bstep a (snd (schedule_ssl_engine E x b))"
  by (rule bstep_trans [OF _ bstep_schedule])

lemma bstep_ops:
  "bstep b (tcp_ssl_sent B E p n b)" "bstep b (snd (tcp_ssl_write B E p d b))" "bstep b (snd (tcp_ssl_read E p ch b))"
  "bstep b (snd (tcp_ssl_free p b))" "bstep b (snd (tcp_ssl_new_server B E a mem q has b))"
  by (auto simp: tcp_ssl_sent_def tcp_ssl_write_def tcp_ssl_read_def tcp_ssl_free_def free_rx_pend_def tcp_ssl_new_server_def
      tcp_ssl_alloc_pcb_def new_alloc_def tcp_ssl_register_pcb_def Let_def
      intro!: bstep_after split: option.split prod.split)
    (auto simp: bstep_def blog_def)

lemma bstep_close: "bstep b (snd (tcp_ssl_close B E p b))"
proof -
  have "bstep b ((upd_pcb a f b)\<lparr>b_trace := t'\<rparr>)" if "close_steps B E x (b_trace b) = (n, y, t')" for a f x n y t'
    using close_trace [OF that] by (auto simp: bstep_def upd_pcb_def)
  then show ?thesis by (auto simp: tcp_ssl_close_def split: option.split prod.split)
qed

lemma bstep_on_pcb: "bstep a b \<Longrightarrow> bstep a (on_pcb p f b)"
  by (auto simp: on_pcb_def intro: bstep_trans split: option.split)

section \<open>The pump, for any relation its callbacks respect\<close>

locale pump_relation =
  fixes R :: "('e, 'm) bsys_scheme \<Rightarrow> ('e, 'm) bsys_scheme \<Rightarrow> bool" and others :: "('e, 'm) others"
  assumes own: "bstep b b' \<Longrightarrow> R b b'"
    and trans: "R a b \<Longrightarrow> R b c \<Longrightarrow> R a c"
    and others: "R b (others x b)"
begin

lemma refl: "R b b"
  by (rule own) simp

lemma step: "R a b \<Longrightarrow> bstep b c \<Longrightarrow> R a c"
  by (rule trans [OF _ own])

lemma run: "R a b \<Longrightarrow> R a (run_others others x b)"
  unfolding run_others_def by (rule trans [OF trans [OF _ own [OF bstep_basic(1)]] others])

lemma declares: "R a b \<Longrightarrow> R a (declare_handshake others x f b)"
  using run step by (auto simp: declare_handshake_def Let_def split: option.split)

lemma io: "R a b \<Longrightarrow> pump_io B E others x f b = (go, b') \<Longrightarrow> R a b'"
proof -
  assume ab: "R a b" and run_io: "pump_io B E others x f b = (go, b')"
  have em: "R a ((upd_pcb x g b)\<lparr>b_trace := t'\<rparr>)" if "emit_record B E z (b_trace b) = (go', y, t')" for g z go' y t'
  proof (rule step [OF ab])
    show "bstep b ((upd_pcb x g b)\<lparr>b_trace := t'\<rparr>)"
      using emit_trace [OF that] by (auto simp: bstep_def upd_pcb_def)
  qed
  show ?thesis
    using run_io ab step [OF ab bstep_basic(2)] run [OF step [OF ab bstep_basic(2)]] em
    by (fastforce simp: pump_io_def Let_def split: option.splits if_splits prod.splits)
qed

lemma loop: "R a b \<Longrightarrow> pump_loop B E others x n b = (go, b') \<Longrightarrow> R a b'"
proof (induction n arbitrary: b)
  case (Suc n)
  define b1 where "b1 = run_others others Yield b"
  have r1: "R a b1" unfolding b1_def by (rule run [OF Suc.prems(1)])
  show ?case
  proof (cases "pcb_at b1 x")
    case None
    then show ?thesis using Suc.prems(2) r1 by (simp add: b1_def)
  next
    case (Some z)
    define f where "f = engine_state B z"
    define b2 where "b2 = (if st_sendapp f then upd_pcb x (\<lambda>z. z\<lparr>sp_engine := e_flush B False (sp_engine z)\<rparr>) b1 else b1)"
    define b3 where "b3 = declare_handshake others x f b2"
    have r2: "R a b2" using r1 step [OF r1] by (simp add: b2_def)
    have r3: "R a b3" unfolding b3_def by (rule declares [OF r2])
    obtain g4 b4 where p: "pump_io B E others x f b3 = (g4, b4)" by fastforce
    have r4: "R a b4" by (rule io [OF r3 p])
    show ?thesis
      using Suc.prems(2) Suc.IH [OF r4] Some r2 r3 r4 p run [OF r2]
      by (auto simp: b1_def [symmetric] f_def [symmetric] b2_def [symmetric] b3_def [symmetric] Let_def split: if_splits)
  qed
qed simp

lemma process: "R a b \<Longrightarrow> R a (process_ssl_engine B E others x b)"
proof (cases "pcb_at b x")
  case (Some z)
  assume ab: "R a b"
  obtain y calls where f: "feed_engine B z = (y, calls)" by fastforce
  let ?b = "(upd_pcb x (\<lambda>_. y) b)\<lparr>b_trace := b_trace b @ calls\<rparr>"
  have r: "R a ?b" by (rule step [OF ab]) (simp add: bstep_def upd_pcb_def)
  obtain go b1 where l: "pump_loop B E others x SSL_MAX_FEED_LOOPS ?b = (go, b1)" by fastforce
  have r1: "R a b1" by (rule loop [OF r l])
  have "R a (pump_end B E others x b1)"
    using r1 step [OF r1 bstep_schedule] declares [OF r1] by (simp add: pump_end_def split: option.split)
  then show ?thesis using r1 Some f l by (simp add: process_ssl_engine_def)
qed (simp add: process_ssl_engine_def)

lemma scheduled: "R a b \<Longrightarrow> R a (run_scheduled B E others b)"
proof (cases "b_sched b")
  case (Cons x r)
  assume ab: "R a b"
  have 1: "R a (b\<lparr>b_sched := r\<rparr>)" by (rule step [OF ab]) simp
  have "R a (upd_pcb x (\<lambda>z. z\<lparr>sp_pump := ENGINE_PUMP_IDLE\<rparr>) (b\<lparr>b_sched := r\<rparr>))" by (rule step [OF 1]) simp
  then show ?thesis using 1 process Cons by (simp add: run_scheduled_def Let_def)
qed (simp add: run_scheduled_def)

lemma new_client: "R a b \<Longrightarrow> R a (snd (tcp_ssl_new_client B E others x mem q host b))"
proof -
  assume ab: "R a b"
  have 1: "R a (blog New_object b)" "R a (blog New_object (blog New_object b))"
    "R a (blog New_object (blog New_object (blog New_object b)))"
    "R a (blog New_object (blog New_object (blog New_object (blog New_object b))))"
    by (intro step [OF _ bstep_basic(1)] ab)+
  have "bstep c (tcp_ssl_register_pcb x y c)" for c :: "('a, 'b) bsys_scheme" and y by (simp add: tcp_ssl_register_pcb_def bstep_def)
  then have "R a (process_ssl_engine B E others x (tcp_ssl_register_pcb x y
      (blog New_object (blog New_object (blog New_object (blog New_object b))))))" for y
    by (intro process step [OF 1(4)])
  then show ?thesis
    using ab 1 by (auto simp: tcp_ssl_new_client_def tcp_ssl_alloc_pcb_def new_alloc_def split: option.split)
qed

end

section \<open>A connection with nothing to do\<close>

lemma upd_pcb_same:
  assumes "distinct (map fst (b_pcbs s))" and "pcb_at s a = Some x" and "f x = x"
  shows "b_pcbs (upd_pcb a f s) = b_pcbs s"
proof -
  have "map (\<lambda>(b, y). (b, if b = a then f y else y)) l = l" if "distinct (map fst l)" "map_of l a = Some x" for l
  proof (rule map_idI)
    fix z assume z: "z \<in> set l"
    obtain b y where p: "z = (b, y)" by (cases z)
    then have "map_of l b = Some y" using that(1) z by simp
    then show "(case z of (b, y) \<Rightarrow> (b, if b = a then f y else y)) = z" using that(2) assms(3) p by auto
  qed
  then show ?thesis using assms(1,2) by (simp add: upd_pcb_def pcb_at_def)
qed

lemma quiet_pump:
  assumes at: "pcb_at s a = Some x" and hs: "sp_handshake_done x" and rx: "sp_rx x = []"
    and closed: "\<not> st_closed (engine_state B x)" and sendrec: "\<not> st_sendrec (engine_state B x)" and recvapp: "\<not> st_recvapp (engine_state B x)"
    and flush: "e_flush B False (sp_engine x) = sp_engine x" and norec: "snd (e_sendrec_buf B (fst (sp_engine x))) = 0"
    and yields: "\<And>b. pcb_at (cb Yield b) a = pcb_at b a"
  shows "pcb_at (process_ssl_engine B E cb a s) a = Some x"
    and "\<exists>b. bstep s b \<and> bstep (cb Yield b) (process_ssl_engine B E cb a s)"
    and "distinct (map fst (b_pcbs s)) \<Longrightarrow> (\<And>b. b_pcbs (cb Yield b) = b_pcbs b) \<Longrightarrow> b_pcbs (process_ssl_engine B E cb a s) = b_pcbs s"
proof -
  have feed: "feed_engine B x = (x, [])" using rx by (subst feed_engine.simps) simp
  define s1 where "s1 = (upd_pcb a (\<lambda>_. x) s)\<lparr>b_trace := b_trace s @ []\<rparr>"
  define s2 where "s2 = run_others cb Yield s1"
  define s3 where "s3 = (if st_sendapp (engine_state B x) then upd_pcb a (\<lambda>x. x\<lparr>sp_engine := e_flush B False (sp_engine x)\<rparr>) s2 else s2)"
  have at2: "pcb_at s2 a = Some x" using at yields by (simp add: s2_def s1_def run_others_def)
  then have at3: "pcb_at s3 a = Some x" using flush by (simp add: s3_def)
  have d: "declare_handshake cb a f t = t" if "pcb_at t a = Some x" for f t
    using that hs by (simp add: declare_handshake_def)
  have e: "emit_record B E x t = (False, x, t)" for t
    using norec by (cases "e_sendrec_buf B (fst (sp_engine x))") (simp add: emit_record_def)
  define s4 where "s4 = snd (pump_io B E cb a (engine_state B x) s3)"
  have io: "pump_io B E cb a (engine_state B x) s3 = (False, s4)" "pcb_at s4 a = Some x" "bstep s3 s4"
    using at3 recvapp e by (auto simp: s4_def pump_io_def bstep_def)
  have loop: "pump_loop B E cb a SSL_MAX_FEED_LOOPS s1 = (True, s4)"
    using at2 at3 closed io d [OF at3]
    by (simp add: SSL_MAX_FEED_LOOPS_def eval_nat_numeral s2_def [symmetric] s3_def [symmetric] is_alive_def Let_def)
  have run: "process_ssl_engine B E cb a s = s4"
    unfolding process_ssl_engine_def at option.case feed prod.case s1_def [symmetric] loop
    using io(2) sendrec d [OF io(2)] by (simp add: pump_end_def)
  then show "pcb_at (process_ssl_engine B E cb a s) a = Some x" using io(2) by simp
  show "b_pcbs (process_ssl_engine B E cb a s) = b_pcbs s"
    if dist: "distinct (map fst (b_pcbs s))" and same: "\<And>b. b_pcbs (cb Yield b) = b_pcbs b"
  proof -
    have 2: "b_pcbs s2 = b_pcbs s"
      using upd_pcb_same [where f = "\<lambda>_. x", OF dist at refl] same by (simp add: s2_def s1_def run_others_def)
    then have 3: "b_pcbs s3 = b_pcbs s"
      using upd_pcb_same [where s = s2 and f = "\<lambda>x. x\<lparr>sp_engine := e_flush B False (sp_engine x)\<rparr>" and a = a and x = x] at2 flush dist
      by (simp add: s3_def)
    have "b_pcbs s4 = b_pcbs s3"
      using upd_pcb_same [where s = s3 and f = "\<lambda>_. x", OF _ at3 refl] 3 dist at3 recvapp e by (auto simp: s4_def pump_io_def)
    then show ?thesis using 3 run by simp
  qed
  have "bstep s (blog Yield s1)" unfolding s1_def by (simp add: bstep_def blog_def upd_pcb_def)
  moreover have "bstep (cb Yield (blog Yield s1)) s4"
  proof (rule bstep_trans [OF _ io(3)])
    have "bstep s2 s3" by (simp add: s3_def)
    then show "bstep (cb Yield (blog Yield s1)) s3" by (simp add: s2_def run_others_def)
  qed
  ultimately show "\<exists>b. bstep s b \<and> bstep (cb Yield b) (process_ssl_engine B E cb a s)" unfolding run by blast
qed

text \<open>
  Running the pump directly, as the poll does when the scheduler had refused, does not clear the mark that work is waiting. A
  connection with nothing to do, marked DROPPED, is unchanged by the pump, so it counts as busy until some later event is scheduled.
\<close>

theorem direct_pump_keeps_dropped:
  assumes "pcb_at s a = Some x" and "sp_pump x = ENGINE_PUMP_DROPPED" and "sp_handshake_done x" and "sp_rx x = []"
    and "\<not> st_closed (engine_state B x)" and "\<not> st_sendrec (engine_state B x)" and "\<not> st_recvapp (engine_state B x)"
    and "e_flush B False (sp_engine x) = sp_engine x" and "snd (e_sendrec_buf B (fst (sp_engine x))) = 0"
  shows "pcb_at (process_ssl_engine B E (\<lambda>_ s. s) a s) a = Some x"
  by (rule quiet_pump(1) [OF assms(1,3-9)]) simp

theorem direct_pump_keeps_dropped_witness:
  "\<exists>x. sp_pump x = ENGINE_PUMP_DROPPED
     \<and> pcb_at (process_ssl_engine (toy_bear\<lparr>e_sendrec_buf := (\<lambda>_. (0, 0))\<rparr>) calm (\<lambda>_ s. s) 100
        \<lparr>b_pcbs = [(100, x)], b_sched = [], b_thunk = 1, b_trace = []\<rparr>) 100 = Some x"
proof -
  let ?x = "(init_ssl_pcb toy_bear ([], []) 7 True)\<lparr>sp_pump := ENGINE_PUMP_DROPPED, sp_handshake_done := True\<rparr>"
  let ?s = "\<lparr>b_pcbs = [(100, ?x)], b_sched = [], b_thunk = 1, b_trace = []\<rparr>"
  have "pcb_at ?s 100 = Some ?x" by (simp add: pcb_at_def)
  from direct_pump_keeps_dropped [OF this, where B = "toy_bear\<lparr>e_sendrec_buf := (\<lambda>_. (0, 0))\<rparr>" and E = calm]
  show ?thesis by (intro exI [of _ ?x]) (simp add: init_ssl_pcb_def toy_bear_def engine_state_def)
qed

end
