(* ===== verification/Bear_Session.thy ===== *)
theory Bear_Session
  imports Bear_Frames Dispatch
begin

text \<open>
  The TLS session of the ESP8266 build (\<open>AsyncSecureSession\<close> at the end of the first half of \<open>src/AsyncSecureSession.cpp\<close>) and the
  ESP8266 branches of \<open>SecureClientHooks\<close> (\<open>src/AsyncSecureClient.cpp\<close>): the engine layer of theory \<open>Bear_Engine\<close> under the
  transport of theory \<open>Client\<close>. The state is that of the transport with the engine layer's beside it; an operation of the
  engine layer is lifted to it, with the trace in common.
\<close>

section \<open>State\<close>

text \<open>
  The session. The application's callbacks are reached through the hooks, whose three functions are registered together by the
  constructor of the hooks. \<open>_deferred_ssl_ctx\<close> is always null for a client, and unused.
\<close>

record bsession =
  bs_pcb :: "pcb option"
  bs_ssl :: "addr option"
  bs_handshake_done :: bool
  bs_host :: "string option"
  bs_on_data :: bool
  bs_on_handshake :: bool
  bs_on_error :: bool

definition new_bsession :: bsession where
  "new_bsession = \<lparr>bs_pcb = None, bs_ssl = None, bs_handshake_done = False, bs_host = None,
     bs_on_data = False, bs_on_handshake = False, bs_on_error = False\<rparr>"

text \<open>The static data of the engine layer, and which servers have a certificate context (\<open>_ssl_ctx\<close>).\<close>

record 'e esys = "bsession sys" +
  es_pcbs :: "(addr \<times> 'e ssl_pcb) list"
  es_sched :: "addr list"
  es_thunk :: nat
  es_ctx :: "sid \<Rightarrow> bool"

type_synonym 'e erunner = "cid \<Rightarrow> cbev \<Rightarrow> 'e esys \<Rightarrow> 'e esys option"

text \<open>
  The state as the engine layer sees it: its own data and the trace, and beside it the rest. \<open>bx_stuck\<close> says that a callback
  did not come back.
\<close>

record 'e bx = "'e bsys" +
  bx_sys :: "'e esys"
  bx_stuck :: bool

definition pack :: "'e esys \<Rightarrow> 'e bx" where
  "pack s = \<lparr>b_pcbs = es_pcbs s, b_sched = es_sched s, b_thunk = es_thunk s, b_trace = trace s, bx_sys = s, bx_stuck = False\<rparr>"

definition unpack :: "'e bx \<Rightarrow> 'e esys" where
  "unpack b = (bx_sys b)\<lparr>trace := b_trace b, es_pcbs := b_pcbs b, es_sched := b_sched b, es_thunk := b_thunk b\<rparr>"

lemma unpack_pack [simp]: "unpack (pack s) = s"
  by (simp add: pack_def unpack_def)

lemma pack_simps [simp]:
  "b_pcbs (pack s) = es_pcbs s" "b_sched (pack s) = es_sched s" "b_thunk (pack s) = es_thunk s" "b_trace (pack s) = trace s"
  "bx_sys (pack s) = s" "\<not> bx_stuck (pack s)"
  by (simp_all add: pack_def)

lemma unpack_simps [simp]:
  "es_pcbs (unpack b) = b_pcbs b" "es_sched (unpack b) = b_sched b" "es_thunk (unpack b) = b_thunk b" "trace (unpack b) = b_trace b"
  "clients (unpack b) = clients (bx_sys b)" "queue (unpack b) = queue (bx_sys b)" "servers (unpack b) = servers (bx_sys b)"
  "scheduled (unpack b) = scheduled (bx_sys b)" "park (unpack b) = park (bx_sys b)" "next_cid (unpack b) = next_cid (bx_sys b)" "es_ctx (unpack b) = es_ctx (bx_sys b)"
  by (simp_all add: unpack_def)

text \<open>An operation of the engine layer that runs no callback; one that does comes back, or not.\<close>

definition engine_op :: "('e bx \<Rightarrow> 'r \<times> 'e bx) \<Rightarrow> 'e esys \<Rightarrow> 'r \<times> 'e esys" where
  "engine_op f s = (case f (pack s) of (r, b) \<Rightarrow> (r, unpack b))"

definition engine_do :: "('e bx \<Rightarrow> 'e bx) \<Rightarrow> 'e esys \<Rightarrow> 'e esys" where
  "engine_do f s = unpack (f (pack s))"

definition engine_run :: "('e bx \<Rightarrow> 'r \<times> 'e bx) \<Rightarrow> 'e esys \<Rightarrow> ('r \<times> 'e esys) option" where
  "engine_run f s = (case f (pack s) of (r, b) \<Rightarrow> if bx_stuck b then None else Some (r, unpack b))"

definition bsess :: "'e esys \<Rightarrow> cid \<Rightarrow> bsession" where
  "bsess s c = the (c_hooks (cl s c))"

definition upd_bsess :: "cid \<Rightarrow> (bsession \<Rightarrow> bsession) \<Rightarrow> 'e esys \<Rightarrow> 'e esys" where
  "upd_bsess c f s = upd c (\<lambda>k. k\<lparr>c_hooks := map_option f (c_hooks k)\<rparr>) s"

section \<open>The session's operations\<close>

definition bs_close :: "'e bear \<Rightarrow> lwip \<Rightarrow> cid \<Rightarrow> 'e esys \<Rightarrow> 'e esys" where
  "bs_close B E c s =
     upd_bsess c (\<lambda>x. x\<lparr>bs_pcb := None, bs_ssl := None, bs_handshake_done := False\<rparr>)
       (case bs_pcb (bsess s c) of
          None \<Rightarrow> s
        | Some p \<Rightarrow> engine_do (\<lambda>b. snd (tcp_ssl_free p (snd (tcp_ssl_close B E p b)))) s)"

text \<open>The destructor closes and frees only a session that was started.\<close>

definition bs_delete :: "'e bear \<Rightarrow> lwip \<Rightarrow> bsession \<Rightarrow> 'e esys \<Rightarrow> 'e esys" where
  "bs_delete B E x s =
     (case (bs_ssl x, bs_pcb x) of
        (Some _, Some p) \<Rightarrow> engine_do (\<lambda>b. snd (tcp_ssl_free p (snd (tcp_ssl_close B E p b)))) s
      | _ \<Rightarrow> s)"

definition bs_setClientCredentials :: "string \<Rightarrow> bsession \<Rightarrow> bsession" where
  "bs_setClientCredentials host x = x\<lparr>bs_host := Some host\<rparr>"

text \<open>The constructor of the hooks registers their functions with the session.\<close>

definition hook_session :: "bsession \<Rightarrow> bsession" where
  "hook_session x = x\<lparr>bs_on_data := True, bs_on_handshake := True, bs_on_error := True\<rparr>"

definition bs_feedRx :: "'e bear \<Rightarrow> lwip \<Rightarrow> cid \<Rightarrow> pbuf list \<Rightarrow> 'e esys \<Rightarrow> int \<times> 'e esys" where
  "bs_feedRx B E c pb s =
     (case (bs_ssl (bsess s c), bs_pcb (bsess s c)) of
        (Some _, Some p) \<Rightarrow>
          (case engine_op (tcp_ssl_read E p pb) s of (n, s1) \<Rightarrow>
             if n < 0 \<and> n \<noteq> alert_close_notify B then (n, s1)
             else (if n < 0 then 0 else n, upd_bsess c (\<lambda>x. x\<lparr>bs_handshake_done := True\<rparr>) s1))
      | _ \<Rightarrow> (-1, s))"

definition bs_write :: "'e bear \<Rightarrow> lwip \<Rightarrow> cid \<Rightarrow> u8 list \<Rightarrow> 'e esys \<Rightarrow> int \<times> 'e esys" where
  "bs_write B E c data s =
     (case bs_pcb (bsess s c) of
        None \<Rightarrow> (-1, s)
      | Some p \<Rightarrow> (case engine_op (tcp_ssl_write B E p data) s of (n, s1) \<Rightarrow> (if n \<ge> 0 then n else -1, s1)))"

definition bs_sentAck :: "'e bear \<Rightarrow> lwip \<Rightarrow> cid \<Rightarrow> nat \<Rightarrow> 'e esys \<Rightarrow> 'e esys" where
  "bs_sentAck B E c n s =
     (case bs_pcb (bsess s c) of None \<Rightarrow> s | Some p \<Rightarrow> engine_do (tcp_ssl_sent B E p n) s)"

definition bs_isStalled :: "lwip \<Rightarrow> cid \<Rightarrow> u32 \<Rightarrow> 'e esys \<Rightarrow> bool" where
  "bs_isStalled E c ms s =
     (case bs_pcb (bsess s c) of None \<Rightarrow> False | Some p \<Rightarrow> tcp_ssl_is_stalled E p ms (pack s))"

definition bs_txBusy :: "'e bear \<Rightarrow> cid \<Rightarrow> 'e esys \<Rightarrow> bool" where
  "bs_txBusy B c s =
     (case bs_pcb (bsess s c) of None \<Rightarrow> False | Some p \<Rightarrow> tcp_ssl_tx_busy B p (pack s))"

definition bs_engineBusy :: "cid \<Rightarrow> 'e esys \<Rightarrow> bool" where
  "bs_engineBusy c s =
     (case bs_ssl (bsess s c) of
        None \<Rightarrow> False
      | Some a \<Rightarrow> (case pcb_at (pack s) a of None \<Rightarrow> False | Some x \<Rightarrow> sp_pump x \<noteq> ENGINE_PUMP_IDLE))"

definition bs_handleRecvError :: "'e bear \<Rightarrow> int \<Rightarrow> bsession \<Rightarrow> int \<times> bsession" where
  "bs_handleRecvError B n x = (if n = alert_close_notify B then (0, x\<lparr>bs_handshake_done := True\<rparr>) else (n, x))"

section \<open>The hooks inside operations of the application\<close>

definition bear_onClosing :: "'e bear \<Rightarrow> lwip \<Rightarrow> cid \<Rightarrow> 'e esys \<Rightarrow> 'e esys option" where
  "bear_onClosing B E c s = Some (bs_close B E c s)"

definition bear_onError :: "'e bear \<Rightarrow> lwip \<Rightarrow> cid \<Rightarrow> err \<Rightarrow> 'e esys \<Rightarrow> 'e esys option" where
  "bear_onError B E c e s = Some (bs_close B E c s)"

definition bear_onDelete :: "'e bear \<Rightarrow> lwip \<Rightarrow> cid \<Rightarrow> 'e esys \<Rightarrow> 'e esys option" where
  "bear_onDelete B E c s = Some (bs_delete B E (bsess s c) s)"

text \<open>Closing a client needs only the first of them.\<close>

definition closing_bear :: "'e bear \<Rightarrow> lwip \<Rightarrow> (bsession, ('e, unit) esys_ext) hooks" where
  "closing_bear B E = default_hooks\<lparr>onClosing := bear_onClosing B E, onError := bear_onError B E, onDelete := bear_onDelete B E\<rparr>"

definition bear_onWrite :: "'e bear \<Rightarrow> lwip \<Rightarrow> 'e erunner \<Rightarrow> cid \<Rightarrow> u8 list \<Rightarrow> 'e esys \<Rightarrow> (int \<times> 'e esys) option" where
  "bear_onWrite B E cb c data s =
     (let room = unat (space E c s);
          will_send = (if room < length data then room else length data)
      in case bs_write B E c (take will_send data) s of (sent, s1) \<Rightarrow>
           if sent < 0 then map_option (Pair 0) (close E (closing_bear B E) cb c s1) else Some (sent, s1))"

definition leaf_bear :: "'e bear \<Rightarrow> lwip \<Rightarrow> (bsession, ('e, unit) esys_ext) hooks" where
  "leaf_bear B E = (closing_bear B E)\<lparr>onWrite := bear_onWrite B E\<rparr>"

section \<open>What the pump calls\<close>

text \<open>\<open>_s_data\<close>, \<open>_s_handshake\<close> and \<open>_s_ssl_error\<close>, with the functions of the hooks they call. The last goes on with the client after its callback.\<close>

definition s_data :: "'e erunner \<Rightarrow> cid \<Rightarrow> u8 list \<Rightarrow> 'e esys \<Rightarrow> 'e esys option" where
  "s_data cb c data s =
     (let s1 = upd_bsess c (\<lambda>x. x\<lparr>bs_handshake_done := True\<rparr>) s
      in if bs_on_data (bsess s1 c) then notify cb c (c_recv_cb (cl s1 c)) (\<lambda>h. Cb_recv h data) s1 else Some s1)"

definition s_handshake :: "'e erunner \<Rightarrow> cid \<Rightarrow> 'e esys \<Rightarrow> 'e esys option" where
  "s_handshake cb c s =
     (let s1 = upd_bsess c (\<lambda>x. x\<lparr>bs_handshake_done := True\<rparr>) s
      in if bs_on_handshake (bsess s1 c) then notify cb c (c_connect_cb (cl s1 c)) Cb_connect s1 else Some s1)"

definition s_ssl_error :: "'e bear \<Rightarrow> lwip \<Rightarrow> 'e erunner \<Rightarrow> cid \<Rightarrow> int \<Rightarrow> 'e esys \<Rightarrow> 'e esys option" where
  "s_ssl_error B E cb c e s =
     (if bs_on_error (bsess s c)
      then do {
        s1 \<leftarrow> notify cb c (c_error_cb (cl s c)) (\<lambda>h. Cb_error h (Err_num (signed_take_bit 7 (e + 64)))) s;
        close E (leaf_bear B E) cb c (note_freed c s s1)
      }
      else Some s)"

text \<open>
  The code that runs in the middle of the pump: \<open>yield()\<close> runs \<open>Y\<close>, whatever the core does then; the callbacks are those of the
  session whose address is the argument of the connection. The session of a client has the client's number.
\<close>

definition pump_others :: "'e bear \<Rightarrow> lwip \<Rightarrow> ('e esys \<Rightarrow> 'e esys) \<Rightarrow> 'e erunner \<Rightarrow> call \<Rightarrow> 'e bx \<Rightarrow> 'e bx" where
  "pump_others B E Y cb what b =
     (let session = (\<lambda>a. case pcb_at b a of None \<Rightarrow> None | Some x \<Rightarrow> sp_arg x);
          back = (\<lambda>m. case m of None \<Rightarrow> b\<lparr>bx_stuck := True\<rparr> | Some s \<Rightarrow> pack s)
      in if bx_stuck b then b
         else case what of
           Yield \<Rightarrow> pack (Y (unpack b))
         | Engine_data a data \<Rightarrow> (case session a of None \<Rightarrow> b | Some c \<Rightarrow> back (s_data cb c data (unpack b)))
         | Engine_handshake a \<Rightarrow> (case session a of None \<Rightarrow> b | Some c \<Rightarrow> back (s_handshake cb c (unpack b)))
         | Engine_error a e \<Rightarrow> (case session a of None \<Rightarrow> b | Some c \<Rightarrow> back (s_ssl_error B E cb c e (unpack b)))
         | _ \<Rightarrow> b)"

section \<open>Starting a session, running it\<close>

definition register_callbacks :: "pcb \<Rightarrow> cid \<Rightarrow> 'e bx \<Rightarrow> 'e bx" where
  "register_callbacks p c b = tcp_ssl_err p True (tcp_ssl_handshake p True (tcp_ssl_data p True (tcp_ssl_arg p (Some c) b)))"

definition bs_started :: "pcb \<Rightarrow> cid \<Rightarrow> 'e esys \<Rightarrow> 'e esys" where
  "bs_started p c s =
     engine_do (register_callbacks p c)
       (upd_bsess c (\<lambda>x. x\<lparr>bs_ssl := map_option fst (find_ssl_pcb p (pack s)), bs_handshake_done := False\<rparr>) s)"

definition startSSLClient ::
  "'e bear \<Rightarrow> lwip \<Rightarrow> ('e esys \<Rightarrow> 'e esys) \<Rightarrow> 'e erunner \<Rightarrow> cid \<Rightarrow> pcb option \<Rightarrow> string \<Rightarrow> 'e esys \<Rightarrow> (int \<times> 'e esys) option" where
  "startSSLClient B E Y cb c p host s =
     (case p of
        None \<Rightarrow> Some (-1, s)
      | Some q \<Rightarrow>
          let s1 = upd_bsess c (\<lambda>x. x\<lparr>bs_pcb := Some q\<rparr>) s
          in case new_block B (trace s1) of (a, mem) \<Rightarrow>
             case engine_run (tcp_ssl_new_client B E (pump_others B E Y cb) a mem (Some q) host) s1 of
               None \<Rightarrow> None
             | Some (r, s2) \<Rightarrow>
                 Some (if r < 0 then (-1, upd_bsess c (\<lambda>x. x\<lparr>bs_pcb := None\<rparr>) s2) else (0, bs_started q c s2)))"

definition bs_startClient ::
  "'e bear \<Rightarrow> lwip \<Rightarrow> ('e esys \<Rightarrow> 'e esys) \<Rightarrow> 'e erunner \<Rightarrow> cid \<Rightarrow> pcb option \<Rightarrow> 'e esys \<Rightarrow> (int \<times> 'e esys) option" where
  "bs_startClient B E Y cb c p s =
     startSSLClient B E Y cb c p (case bs_host (bsess s c) of None \<Rightarrow> [] | Some h \<Rightarrow> h) s"

text \<open>\<open>startSSLServer\<close>, on a session that is not yet in hooks: the session and the state. The pump does not run.\<close>

definition bs_startSSLServer :: "'e bear \<Rightarrow> lwip \<Rightarrow> cid \<Rightarrow> pcb \<Rightarrow> bool \<Rightarrow> bsession \<Rightarrow> 'e esys \<Rightarrow> int \<times> bsession \<times> 'e esys" where
  "bs_startSSLServer B E c p has_ctx x s =
     (if \<not> has_ctx then (-1, x, s)
      else case new_block B (trace s) of (a, mem) \<Rightarrow>
        case engine_op (tcp_ssl_new_server B E a mem (Some p) has_ctx) s of (r, s1) \<Rightarrow>
          if r < 0 then (-1, x\<lparr>bs_pcb := None\<rparr>, s1)
          else (0, x\<lparr>bs_pcb := Some p, bs_ssl := map_option fst (find_ssl_pcb p (pack s1)), bs_handshake_done := False\<rparr>,
                engine_do (register_callbacks p c) s1))"

definition bs_pump :: "'e bear \<Rightarrow> lwip \<Rightarrow> ('e esys \<Rightarrow> 'e esys) \<Rightarrow> 'e erunner \<Rightarrow> cid \<Rightarrow> 'e esys \<Rightarrow> (int \<times> 'e esys) option" where
  "bs_pump B E Y cb c s =
     (case bs_ssl (bsess s c) of
        None \<Rightarrow> Some (-1, s)
      | Some a \<Rightarrow>
          map_option (\<lambda>(_, s1). (if bs_handshake_done (bsess s1 c) then 0 else -1, s1))
            (engine_run (\<lambda>b. ((), process_ssl_engine B E (pump_others B E Y cb) a b)) s))"

section \<open>The hooks of the dispatcher\<close>

definition BEAR_HANDSHAKE_TIMEOUT :: u32 where "BEAR_HANDSHAKE_TIMEOUT = 2000"
definition SSL_STALL_RESET_MS :: u32 where "SSL_STALL_RESET_MS = 4000"
definition SSL_IDLE_RESET_MS :: u32 where "SSL_IDLE_RESET_MS = 20000"

definition close_true :: "'e bear \<Rightarrow> lwip \<Rightarrow> 'e erunner \<Rightarrow> cid \<Rightarrow> 'e esys \<Rightarrow> (bool \<times> 'e esys) option" where
  "close_true B E cb c s = map_option (Pair True) (close E (leaf_bear B E) cb c s)"

definition bear_onConnected ::
  "'e bear \<Rightarrow> lwip \<Rightarrow> ('e esys \<Rightarrow> 'e esys) \<Rightarrow> 'e erunner \<Rightarrow> cid \<Rightarrow> 'e esys \<Rightarrow> (bool \<times> 'e esys) option" where
  "bear_onConnected B E Y cb c s =
     do {
       (r, s1) \<leftarrow> bs_startClient B E Y cb c (c_pcb (cl s c)) s;
       if r \<noteq> 0 then close_true B E cb c s1 else Some (True, s1)
     }"

definition stamp_rx :: "lwip \<Rightarrow> cid \<Rightarrow> 'e esys \<Rightarrow> 'e esys" where
  "stamp_rx E c s = upd c (\<lambda>k. k\<lparr>c_rx_last_packet := millis E (trace s)\<rparr>) s"

definition bear_onRecv :: "'e bear \<Rightarrow> lwip \<Rightarrow> 'e erunner \<Rightarrow> cid \<Rightarrow> pbuf list \<Rightarrow> 'e esys \<Rightarrow> (bool \<times> 'e esys) option" where
  "bear_onRecv B E cb c pb s =
     (if pb = [] then close_true B E cb c s
      else case bs_feedRx B E c pb s of (n, s1) \<Rightarrow>
        if n < 0
        then (if n \<noteq> alert_close_notify B then close_true B E cb c s1 else Some (True, s1))
        else Some (True, stamp_rx E c s1))"

definition bear_onSent :: "'e bear \<Rightarrow> lwip \<Rightarrow> cid \<Rightarrow> u16 \<Rightarrow> 'e esys \<Rightarrow> (bool \<times> 'e esys) option" where
  "bear_onSent B E c len s =
     (let s1 = bs_sentAck B E c (unat len) s
      in if \<not> bs_handshake_done (bsess s1 c) then Some (True, stamp_rx E c s1) else Some (False, s1))"

text \<open>
  The last part of \<open>onPoll\<close>, after the pump ran. \<open>p\<close> is the pcb the client had at the start, \<open>now\<close> the time then; \<open>_rx_last_packet\<close> is
  read again.
\<close>

definition idle_connection :: "'e bear \<Rightarrow> lwip \<Rightarrow> u32 \<Rightarrow> pcb \<Rightarrow> cid \<Rightarrow> 'e esys \<Rightarrow> bool" where
  "idle_connection B E now p c s \<longleftrightarrow>
     bs_handshake_done (bsess s c) \<and> now - c_rx_last_packet (cl s c) \<ge> SSL_IDLE_RESET_MS
     \<and> \<not> bs_txBusy B c s \<and> \<not> bs_engineBusy c s \<and> sndbuf E (trace s) p \<noteq> 0"

definition bear_onPoll ::
  "'e bear \<Rightarrow> lwip \<Rightarrow> ('e esys \<Rightarrow> 'e esys) \<Rightarrow> 'e erunner \<Rightarrow> cid \<Rightarrow> 'e esys \<Rightarrow> (bool \<times> 'e esys) option" where
  "bear_onPoll B E Y cb c s =
     (case c_pcb (cl s c) of
        None \<Rightarrow> Some (False, s)
      | Some p \<Rightarrow>
          let now = millis E (trace s)
          in if \<not> bs_handshake_done (bsess s c) \<and> now - c_rx_last_packet (cl s c) \<ge> BEAR_HANDSHAKE_TIMEOUT
             then close_true B E cb c s
             else do {
               (r, s1) \<leftarrow> bs_pump B E Y cb c (bs_sentAck B E c 0 s);
               if bs_isStalled E c SSL_STALL_RESET_MS s1 then close_true B E cb c s1
               else if idle_connection B E now p c s1 then close_true B E cb c s1
               else Some (False, s1)
             })"

definition bear_hooks ::
  "'e bear \<Rightarrow> lwip \<Rightarrow> ('e esys \<Rightarrow> 'e esys) \<Rightarrow> 'e erunner \<Rightarrow> (bsession, ('e, unit) esys_ext) hooks" where
  "bear_hooks B E Y cb =
     \<lparr>onConnected = bear_onConnected B E Y cb, onRecv = bear_onRecv B E cb, onSent = bear_onSent B E,
      onPoll = bear_onPoll B E Y cb, onWrite = bear_onWrite B E, onClosing = bear_onClosing B E, onError = bear_onError B E,
      onDelete = bear_onDelete B E\<rparr>"

section \<open>beginSecure\<close>

definition bear_beginSecure :: "lwip \<Rightarrow> cid \<Rightarrow> string \<Rightarrow> u16 \<Rightarrow> 'e esys \<Rightarrow> bool \<times> 'e esys" where
  "bear_beginSecure E c host port s =
     (if c_pcb (cl s c) \<noteq> None then (False, s)
      else case new_object E s of (ok, s1) \<Rightarrow>
        if \<not> ok then (False, s1)
        else case new_object E s1 of (ok2, s2) \<Rightarrow>
          if \<not> ok2 then (False, s2)
          else connect_host E c host port
            (upd c (\<lambda>k. k\<lparr>c_hooks := Some (hook_session (bs_setClientCredentials host new_bsession))\<rparr>) s2))"

section \<open>The scheduler\<close>

text \<open>The scheduled functions of the engine layer are run by the core, like \<open>_process_async_event\<close>.\<close>

definition run_engine :: "'e bear \<Rightarrow> lwip \<Rightarrow> ('e esys \<Rightarrow> 'e esys) \<Rightarrow> 'e erunner \<Rightarrow> 'e esys \<Rightarrow> 'e esys option" where
  "run_engine B E Y cb s =
     map_option snd (engine_run (\<lambda>b. ((), run_scheduled B E (pump_others B E Y cb) b)) s)"

end
