(* ===== verification/Bear_Client.thy ===== *)
theory Bear_Client
  imports Bear_Session
begin

text \<open>
  The hooks of the ESP8266 client keep the contract of theory \<open>Client\<close>, so what holds of the transport holds with them.
\<close>

section \<open>The engine layer under the transport\<close>

lemma bstep_register: "bstep b (register_callbacks p c b)"
  unfolding register_callbacks_def tcp_ssl_err_def tcp_ssl_handshake_def tcp_ssl_data_def tcp_ssl_arg_def
  by (intro bstep_on_pcb bstep_refl)

lemma bx_more:
  fixes b b' :: "'e bx"
  assumes "bsys.more b' = bsys.more b"
  shows "bx_sys b' = bx_sys b" and "bx_stuck b' = bx_stuck b"
  using assms by (cases b, cases b', simp)+

lemma leaf_same: "clients s' = clients s \<Longrightarrow> queue s' = queue s \<Longrightarrow> scheduled s' = scheduled s \<Longrightarrow> park s' = park s \<Longrightarrow>
    trace s' = trace s @ t \<Longrightarrow> leaf_step s s'"
proof -
  assume a: "clients s' = clients s" "queue s' = queue s" "scheduled s' = scheduled s" "park s' = park s" "trace s' = trace s @ t"
  have "\<exists>h. cl s d = (cl s d)\<lparr>c_hooks := h\<rparr>" for d by (rule exI [of _ "c_hooks (cl s d)"]) simp
  then show "leaf_step s s'" using a by (simp add: leaf_step_def)
qed

lemma leaf_unpack:
  assumes "bstep (pack s) b"
  shows "leaf_step s (unpack b)" and "\<not> bx_stuck b"
proof -
  from assms obtain t where m: "bsys.more b = bsys.more (pack s)" and t: "b_trace b = trace s @ t"
    by (auto simp: bstep_def)
  have "bx_sys b = s" "\<not> bx_stuck b" using bx_more [OF m] by simp_all
  then show "leaf_step s (unpack b)" "\<not> bx_stuck b" using t by (simp_all add: leaf_same [where t = t])
qed

lemma leaf_engine_op: "(\<And>b. bstep b (snd (f b))) \<Longrightarrow> leaf_step s (snd (engine_op f s))"
  using leaf_unpack(1) [of s "snd (f (pack s))"] by (simp add: engine_op_def split_beta)

lemma leaf_engine_do: "(\<And>b. bstep b (f b)) \<Longrightarrow> leaf_step s (engine_do f s)"
  using leaf_unpack(1) [of s "f (pack s)"] by (simp add: engine_do_def)

lemma leaf_ops:
  "leaf_step s (snd (engine_op (tcp_ssl_write B E p d) s))" "leaf_step s (snd (engine_op (tcp_ssl_read E p ch) s))"
  "leaf_step s (engine_do (tcp_ssl_sent B E p n) s)" "leaf_step s (engine_do (register_callbacks p c) s)"
  "leaf_step s (snd (engine_op (tcp_ssl_new_server B E a mem q has) s))"
  by (rule leaf_engine_op leaf_engine_do; rule bstep_ops bstep_register)+

lemma leaf_upd_bsess: "leaf_step s (upd_bsess c f s)"
  by (simp add: upd_bsess_def leaf_step_hooks)

lemma leaf_release: "leaf_step s (engine_do (\<lambda>b. snd (tcp_ssl_free p (snd (tcp_ssl_close B E p b)))) s)"
  by (rule leaf_engine_do) (rule bstep_trans [OF bstep_close bstep_ops(4)])

lemma leaf_bs_close: "leaf_step s (bs_close B E c s)"
  unfolding bs_close_def
  by (rule leaf_step_trans [OF _ leaf_upd_bsess]) (simp add: leaf_release split: option.split)

lemma leaf_bs_delete: "leaf_step s (bs_delete B E x s)"
  by (simp add: bs_delete_def leaf_release split: option.split)

lemma leaf_bs_write: "leaf_step s (snd (bs_write B E c d s))"
  by (simp add: bs_write_def leaf_ops split_beta split: option.split)

lemma leaf_bs_feed: "leaf_step s (snd (bs_feedRx B E c pb s))"
  by (simp add: bs_feedRx_def split_beta leaf_ops leaf_step_trans [OF leaf_ops(2) leaf_upd_bsess] split: option.split)

lemma leaf_bs_sent: "leaf_step s (bs_sentAck B E c n s)"
  by (simp add: bs_sentAck_def leaf_ops split: option.split)

interpretation bear_closing: leaf_hooks "closing_bear B E" for B :: "'e bear" and E
  by unfold_locales
    (simp_all add: closing_bear_def bear_onClosing_def bear_onError_def bear_onDelete_def leaf_bs_close leaf_bs_delete
      default_hooks_def safe_Some)

lemma bear_write_safe:
  assumes cb: "runner_safe k cb"
  shows "safe (Suc k) s snd (bear_onWrite B E cb c d s)"
proof -
  obtain n s1 where w: "bs_write B E c (take (if unat (space E c s) < length d then unat (space E c s) else length d) d) s = (n, s1)"
    by fastforce
  have ev: "evolves s s1" using leaf_step_evolves [OF leaf_bs_write] w by (metis snd_conv)
  have "safe (Suc k) s1 snd (map_option (Pair (0 :: int)) (close E (closing_bear B E) cb c s1))"
    by (rule safe_map) (simp add: bear_closing.close_safe [OF cb])
  then have "safe (Suc k) s snd (map_option (Pair (0 :: int)) (close E (closing_bear B E) cb c s1))" by (rule safe_after [OF ev])
  then show ?thesis using ev by (simp add: bear_onWrite_def w Let_def safe_Some)
qed

lemma bear_write_le:
  assumes "runner_le cb cb'" and "bear_onWrite B E cb c d s = Some r"
  shows "bear_onWrite B E cb' c d s = Some r"
  using assms(2) close_le [OF assms(1)]
  by (auto simp: bear_onWrite_def Let_def split: prod.splits if_splits)

interpretation bear_leaf: leaf_hooks "leaf_bear B E" for B :: "'e bear" and E
  by unfold_locales
    (simp_all add: leaf_bear_def closing_bear_def bear_onClosing_def bear_onError_def bear_onDelete_def leaf_bs_close leaf_bs_delete
      bear_write_safe bear_write_le)

lemma s_data_safe:
  assumes cb: "runner_safe k cb"
  shows "safe k s (\<lambda>x. x) (s_data cb c d s)"
  unfolding s_data_def Let_def
  by (rule safe_after [OF leaf_step_evolves [OF leaf_upd_bsess [of s c "\<lambda>x. x\<lparr>bs_handshake_done := True\<rparr>"]]])
    (simp add: notify_safe [OF cb] safe_Some)

lemma s_handshake_safe:
  assumes cb: "runner_safe k cb"
  shows "safe k s (\<lambda>x. x) (s_handshake cb c s)"
  unfolding s_handshake_def Let_def
  by (rule safe_after [OF leaf_step_evolves [OF leaf_upd_bsess [of s c "\<lambda>x. x\<lparr>bs_handshake_done := True\<rparr>"]]])
    (simp add: notify_safe [OF cb] safe_Some)

lemma bear_close_safe: "runner_safe k cb \<Longrightarrow> safe k s (\<lambda>x. x) (close E (leaf_bear B E) cb c s)"
  by (rule safe_mono [OF bear_leaf.close_safe [where k = k]]) simp_all

lemma s_error_safe:
  assumes cb: "runner_safe k cb"
  shows "safe k s (\<lambda>x. x) (s_ssl_error B E cb c e s)"
  unfolding s_ssl_error_def
  by (simp add: safe_Some) (auto intro: safe_bind [OF safe_note [OF notify_safe [OF cb]] bear_close_safe [OF cb]])

text \<open>
  A run of the pump ends in a state that evolves from the first, or a callback did not come back, and then there were \<open>k\<close> clients or
  more to close.
\<close>

definition pump_safe :: "nat \<Rightarrow> 'e bx \<Rightarrow> 'e bx \<Rightarrow> bool" where
  "pump_safe k b b' \<longleftrightarrow>
     (if bx_stuck b' then bx_stuck b \<or> \<not> (finite (live (unpack b)) \<and> work (unpack b) < k)
      else \<not> bx_stuck b \<and> evolves (unpack b) (unpack b'))"

lemma pump_safe_own:
  assumes "bstep b b'"
  shows "pump_safe k b b'"
proof -
  have m: "bx_sys b' = bx_sys b" "bx_stuck b' = bx_stuck b" using assms bx_more [of b' b] by (simp_all add: bstep_def)
  obtain t where "b_trace b' = b_trace b @ t" using assms by (auto simp: bstep_def)
  then have "leaf_step (unpack b) (unpack b')" using m by (intro leaf_same) simp_all
  then show ?thesis using m leaf_step_evolves by (auto simp: pump_safe_def)
qed

lemma pump_safe_trans:
  assumes "pump_safe k a b" and "pump_safe k b c"
  shows "pump_safe k a c"
proof (cases "bx_stuck b")
  case False
  then have ev: "evolves (unpack a) (unpack b)" "\<not> bx_stuck a" using assms(1) by (auto simp: pump_safe_def split: if_splits)
  have "evolves (unpack a) (unpack c)" if "evolves (unpack b) (unpack c)" by (rule evolves_trans [OF ev(1) that])
  then show ?thesis
    using False assms(2) ev(2) evolves_finite [OF ev(1)] evolves_work [OF ev(1)] by (auto simp: pump_safe_def split: if_splits)
qed (use assms in \<open>auto simp: pump_safe_def split: if_splits\<close>)

lemma pump_others_safe:
  assumes cb: "runner_safe k cb" and Y: "\<And>s. evolves s (Y s)"
  shows "pump_safe k b (pump_others B E Y cb x b)"
proof (cases "bx_stuck b")
  case False
  have returns: "pump_safe k b (case m of None \<Rightarrow> b\<lparr>bx_stuck := True\<rparr> | Some s \<Rightarrow> pack s)" if "safe k (unpack b) (\<lambda>x. x) m" for m
    using that False by (auto simp: pump_safe_def safe_def split: option.split)
  have same: "pump_safe k b b" using False by (simp add: pump_safe_def)
  show ?thesis
    using False Y [of "unpack b"] returns [OF s_data_safe [OF cb]] returns [OF s_handshake_safe [OF cb]] returns [OF s_error_safe [OF cb]] same
    by (auto simp: pump_others_def Let_def split: call.split option.split) (simp add: pump_safe_def)
qed (simp add: pump_others_def pump_safe_def)

lemma pump_is_safe:
  assumes "runner_safe k cb" and "\<And>s. evolves s (Y s)"
  shows "pump_relation (pump_safe k) (pump_others B E Y cb)"
  by unfold_locales (auto intro: pump_safe_own pump_safe_trans pump_others_safe [OF assms])

lemma engine_run_safe:
  assumes "pump_safe k (pack s) (snd (f (pack s)))"
  shows "safe k s snd (engine_run f s)"
  using assms by (auto simp: engine_run_def split_beta pump_safe_def safe_def split: if_splits)

section \<open>The contract of the hooks\<close>

lemma bs_started_evolves: "evolves s (bs_started q c s)"
  unfolding bs_started_def
  by (rule leaf_step_evolves [OF leaf_step_trans [OF leaf_upd_bsess leaf_ops(4)]])

text \<open>Any runner of callbacks that keeps the contract, and any \<open>yield()\<close> that only lets things go.\<close>

locale bear_runner =
  fixes B :: "'e bear" and E :: lwip and Y :: "'e esys \<Rightarrow> 'e esys" and cb :: "'e erunner" and k :: nat
  assumes runner: "runner_safe k cb" and yields: "evolves s (Y s)"
begin

lemma pump: "pump_relation (pump_safe k) (pump_others B E Y cb)"
  by (rule pump_is_safe [OF runner yields])

lemma close_true_safe: "safe k s snd (close_true B E cb c s)"
  unfolding close_true_def by (rule safe_map) (simp add: bear_close_safe [OF runner])

lemma pump_safe_refl: "pump_safe k b b"
  by (rule pump_safe_own) simp

lemma new_client_safe: "safe k s snd (engine_run (tcp_ssl_new_client B E (pump_others B E Y cb) a mem q host) s)"
  by (rule engine_run_safe) (rule pump_relation.new_client [OF pump pump_safe_refl])

lemma start_safe: "safe k s snd (startSSLClient B E Y cb c p host s)"
proof (cases p)
  case (Some q)
  let ?s1 = "upd_bsess c (\<lambda>x. x\<lparr>bs_pcb := Some q\<rparr>) s"
  obtain a mem where blk: "new_block B (trace ?s1) = (a, mem)" by fastforce
  let ?m = "engine_run (tcp_ssl_new_client B E (pump_others B E Y cb) a mem (Some q) host) ?s1"
  have ev: "evolves s ?s1" by (rule leaf_step_evolves [OF leaf_upd_bsess])
  have fin: "safe k s2 snd (Some (if r < 0 then (-1, upd_bsess c (\<lambda>x. x\<lparr>bs_pcb := None\<rparr>) s2) else (0, bs_started q c s2)))"
    for r :: int and s2
    by (simp add: safe_Some bs_started_evolves leaf_step_evolves [OF leaf_upd_bsess])
  have eq: "startSSLClient B E Y cb c p host s = (case ?m of None \<Rightarrow> None | Some x \<Rightarrow>
      Some (if fst x < 0 then (-1, upd_bsess c (\<lambda>x. x\<lparr>bs_pcb := None\<rparr>) (snd x)) else (0, bs_started q c (snd x))))"
    by (auto simp: startSSLClient_def Some blk Let_def split: option.split)
  show ?thesis
    unfolding eq by (rule safe_after [OF ev safe_case [OF new_client_safe fin]])
qed (simp add: startSSLClient_def safe_Some)

lemma bs_pump_safe: "safe k s snd (bs_pump B E Y cb c s)"
proof -
  have "safe k s snd (engine_run (\<lambda>b. ((), process_ssl_engine B E (pump_others B E Y cb) a b)) s)" for a
    by (rule engine_run_safe) (simp add: pump_relation.process [OF pump pump_safe_refl])
  then show ?thesis
    by (auto simp: bs_pump_def safe_Some split_beta intro!: safe_map split: option.split)
qed

lemma bear_onConnected_safe: "safe k s snd (bear_onConnected B E Y cb c s)"
  unfolding bear_onConnected_def bs_startClient_def
  by (rule safe_bind [OF start_safe]) (auto simp: safe_Some close_true_safe split: prod.split)

lemma stamp_evolves: "evolves s (stamp_rx E c s)"
  by (simp add: stamp_rx_def evolves_rx_stamp)

lemma bear_onRecv_safe: "safe k s snd (bear_onRecv B E cb c pb s)"
proof -
  obtain n s1 where f: "bs_feedRx B E c pb s = (n, s1)" by fastforce
  have ev: "evolves s s1" using leaf_step_evolves [OF leaf_bs_feed] f by (metis snd_conv)
  show ?thesis
    using close_true_safe safe_after [OF ev close_true_safe] ev evolves_trans [OF ev stamp_evolves]
    by (simp add: bear_onRecv_def f safe_Some)
qed

lemma bear_onSent_safe: "safe k s snd (bear_onSent B E c n s)"
proof -
  have ev: "evolves s (bs_sentAck B E c m s)" for m by (rule leaf_step_evolves [OF leaf_bs_sent])
  show ?thesis using evolves_trans [OF ev stamp_evolves] ev by (simp add: bear_onSent_def Let_def safe_Some)
qed

lemma bear_onPoll_safe: "safe k s snd (bear_onPoll B E Y cb c s)"
proof (cases "c_pcb (cl s c)")
  case (Some p)
  have pump: "safe k s snd (bs_pump B E Y cb c (bs_sentAck B E c 0 s) \<bind> (\<lambda>(r, s1).
      if bs_isStalled E c SSL_STALL_RESET_MS s1 then close_true B E cb c s1
      else if idle_connection B E now p c s1 then close_true B E cb c s1 else Some (False, s1)))" for now
    by (rule safe_after [OF leaf_step_evolves [OF leaf_bs_sent]], rule safe_bind [OF bs_pump_safe])
      (auto simp: safe_Some close_true_safe split: prod.split)
  then show ?thesis by (simp add: bear_onPoll_def Some Let_def close_true_safe)
qed (simp add: bear_onPoll_def safe_Some)

lemma run_engine_safe: "safe k s (\<lambda>x. x) (run_engine B E Y cb s)"
  unfolding run_engine_def
  by (rule safe_map, rule engine_run_safe) (simp add: pump_relation.scheduled [OF pump pump_safe_refl])

end

sublocale bear_runner \<subseteq> client_hooks "bear_hooks B E Y cb" k
  by unfold_locales
    (simp_all add: bear_hooks_def bear_onConnected_safe bear_onRecv_safe bear_onSent_safe bear_onPoll_safe bear_onClosing_def bear_onError_def bear_onDelete_def
      leaf_bs_close leaf_bs_delete bear_write_safe bear_write_le)

end
