(* ===== verification/Bear_Server.thy ===== *)
theory Bear_Server
  imports Bear_Client Secure_Server Key_Parsing
begin

text \<open>
  The TLS server of the ESP8266 build (the first half of \<open>src/AsyncSecureServer.cpp\<close>): admission by the number of live connections and
  by memory, the building of a client with its session when a connection is accepted, and \<open>beginSecure\<close>.
\<close>

section \<open>Configuration\<close>

definition BEAR_MAX_CONNECTIONS :: nat where "BEAR_MAX_CONNECTIONS = 1"
definition SSL_PRESSURE_FLOOR :: nat where "SSL_PRESSURE_FLOOR = 10500"

text \<open>\<open>SSL_SERVE_BLOCK\<close> is the size of the slab of a server connection.\<close>

definition SSL_SERVE_BLOCK :: "'e bear \<Rightarrow> nat" where
  "SSL_SERVE_BLOCK B = SSL_SERVER_IN_BUFFER_SIZE + ring_slots B * out_size B"

section \<open>Admission\<close>

text \<open>
  The callback \<open>_serveTls\<close> sets with \<open>onConnect\<close> is a function of the library with the server as its argument. The handlers of the
  application are the even numbers, this one is odd.
\<close>

definition server_connect :: "sid \<Rightarrow> handler" where
  "server_connect v = 2 * v + 1"

text \<open>\<open>delete c; if (tcp_close(pcb) != ERR_OK) tcp_abort(pcb); return NULL;\<close>\<close>

definition give_up :: "'e bear \<Rightarrow> lwip \<Rightarrow> 'e erunner \<Rightarrow> cid \<Rightarrow> pcb \<Rightarrow> 'e esys \<Rightarrow> (cid option \<times> 'e esys) option" where
  "give_up B E cb c p s = map_option (\<lambda>s'. (None, close_or_abort E p s')) (drop_client E (leaf_bear B E) cb c s)"

text \<open>\<open>_serveTls\<close>. The result is the new client, or none.\<close>

definition bear_serveTls ::
  "'e bear \<Rightarrow> lwip \<Rightarrow> 'e erunner \<Rightarrow> u32 \<Rightarrow> sid \<Rightarrow> pcb \<Rightarrow> 'e esys \<Rightarrow> (cid option \<times> 'e esys) option" where
  "bear_serveTls B E cb garbage v p s =
     (if tcp_ssl_client_count (pack s) \<ge> BEAR_MAX_CONNECTIONS then Some (None, close_or_abort E p s)
      else case new_object E s of (ok, s1) \<Rightarrow>
        if \<not> ok then Some (None, close_or_abort E p s1)
        else
          let c = next_cid s1;
              s2 = new_client E garbage c (Some p) (s1\<lparr>next_cid := Suc c\<rparr>)
          in case new_object E s2 of (ok2, s3) \<Rightarrow>
            if \<not> ok2 then give_up B E cb c p s3
            else case bs_startSSLServer B E c p (es_ctx s3 v) new_bsession s3 of (ret, x, s4) \<Rightarrow>
              if ret \<noteq> 0 then give_up B E cb c p (bs_delete B E x s4)
              else case new_object E s4 of (ok3, s5) \<Rightarrow>
                if \<not> ok3 then give_up B E cb c p (bs_delete B E x s5)
                else
                  let s6 = upd c (\<lambda>k. k\<lparr>c_hooks := Some (hook_session x)\<rparr>) s5;
                      s7 = log (Tcp_nagle p True) s6
                  in Some (Some c, upd c (\<lambda>k. k\<lparr>c_connect_cb := Some (server_connect v)\<rparr>) s7))"

text \<open>\<open>needPark\<close> of \<open>_acceptTls\<close>, which on this build refuses.\<close>

definition bear_busy :: "'e bear \<Rightarrow> lwip \<Rightarrow> 'e esys \<Rightarrow> bool" where
  "bear_busy B E s \<longleftrightarrow>
     tcp_ssl_client_count (pack s) \<ge> BEAR_MAX_CONNECTIONS \<or> free_heap E (trace s) < SSL_PRESSURE_FLOOR
     \<or> max_block E (trace s) < SSL_SERVE_BLOCK B"

definition bear_acceptTls ::
  "'e bear \<Rightarrow> lwip \<Rightarrow> 'e erunner \<Rightarrow> u32 \<Rightarrow> sid \<Rightarrow> pcb \<Rightarrow> 'e esys \<Rightarrow> (err option \<times> 'e esys) option" where
  "bear_acceptTls B E cb garbage v p s =
     (if \<not> es_ctx s v then Some (None, s)
      else if sv_connect_cb (servers s v) = None then Some (Some ERR_OK, close_or_abort E p s)
      else if bear_busy B E s then Some (Some ERR_ABRT, log (Tcp_abort p) s)
      else map_option (\<lambda>(_, s1). (Some ERR_OK, s1)) (bear_serveTls B E cb garbage v p s))"

definition bear_onAccept ::
  "'e bear \<Rightarrow> lwip \<Rightarrow> 'e erunner \<Rightarrow> u32 \<Rightarrow> sid \<Rightarrow> pcb \<Rightarrow> err \<Rightarrow> 'e esys \<Rightarrow> (err option \<times> 'e esys) option" where
  "bear_onAccept B E cb garbage v p e s =
     bear_acceptTls B E cb garbage v p (if es_ctx s v then log (Tcp_nagle p True) s else s)"

definition bear_srv_hooks ::
  "'e bear \<Rightarrow> lwip \<Rightarrow> 'e erunner \<Rightarrow> u32 \<Rightarrow> (bsession, ('e, unit) esys_ext) srv_hooks" where
  "bear_srv_hooks B E cb garbage =
     \<lparr>onAccept = bear_onAccept B E cb garbage, onAccepted = (\<lambda>v c s. Some (None, s))\<rparr>"

section \<open>The callbacks of a server's clients\<close>

text \<open>When the handshake of a server's client is done, \<open>notifyClient\<close> hands it to the application.\<close>

primrec bear_sec_fire :: "'e bear \<Rightarrow> lwip \<Rightarrow> (call list \<Rightarrow> cmd list) \<Rightarrow> nat \<Rightarrow> 'e erunner" where
  "bear_sec_fire B E app 0 = (\<lambda>c e s. None)"
| "bear_sec_fire B E app (Suc n) =
     (\<lambda>c e s.
        let run = (\<lambda>x. let s1 = log x s in exec_all E (leaf_bear B E) (bear_sec_fire B E app n) (app (trace s1)) s1)
        in case e of
             Cb_connect h \<Rightarrow>
               (if odd h
                then (case sv_connect_cb (servers s (h div 2)) of None \<Rightarrow> Some s | Some g \<Rightarrow> run (App_client (h div 2) g c))
                else run (App c (c_facade (cl s c)) e))
           | _ \<Rightarrow> run (App c (c_facade (cl s c)) e))"

section \<open>beginSecure\<close>

text \<open>
  \<open>AsyncServer::beginSecure\<close> installs the hooks, which make the context and start the listener. A new context takes a reference to the
  thunk stack for good. None: the PEM decoder does not end.
\<close>

definition bear_server_beginSecure ::
  "'d bear_keys \<Rightarrow> lwip \<Rightarrow> sid \<Rightarrow> u8 list option \<Rightarrow> u8 list option \<Rightarrow> u8 list option \<Rightarrow> 'e esys \<Rightarrow> 'e esys option" where
  "bear_server_beginSecure X E v cert key password s =
     (let s1 = upd_server v (\<lambda>x. x\<lparr>sv_tls_hooks := True\<rparr>) s
      in if es_ctx s1 v then Some s1
         else case tcp_ssl_new_server_ctx X cert key password of
           None \<Rightarrow> None
         | Some None \<Rightarrow> Some s1
         | Some (Some x) \<Rightarrow> Some (begin_server E v (s1\<lparr>es_ctx := (es_ctx s1)(v := True), es_thunk := es_thunk s1 + 1\<rparr>)))"

end
