(* ===== verification/Bear_System.thy ===== *)
theory Bear_System
  imports Bear_Server System_Laws
begin

text \<open>
  The ESP8266 build as a whole: the transport of theory \<open>Client\<close> with TLS clients and TLS servers over the engine layer. The world of theory
  \<open>Dispatch\<close> is interpreted on it, so that its invariants hold of the reachable states of the system.
\<close>

section \<open>The runner of a server's clients\<close>

lemma bear_sec_fire_safe: "runner_safe n (bear_sec_fire B E app n)"
proof (induction n)
  case (Suc n)
  have run: "safe (Suc n) s (\<lambda>x. x) (let s1 = log x s in exec_all E (leaf_bear B E) (bear_sec_fire B E app n) (app (trace s1)) s1)" for x s
    unfolding Let_def by (rule safe_after [OF evolves_log(1) bear_leaf.exec_all_safe [OF Suc]])
  have "safe (Suc n) s (\<lambda>x. x) (bear_sec_fire B E app (Suc n) c e s)" for c e s
    using run [where x = "App c (c_facade (cl s c)) e"] run
    by (cases e) (auto simp: Let_def safe_Some split: option.split)
  then show ?case by (simp add: runner_safe_def)
qed (simp add: runner_safe_def safe_def)

interpretation esp: bear_runner B E "\<lambda>s. s" "bear_sec_fire B E app n" n for B :: "'e bear" and E app n
  by unfold_locales (simp_all add: bear_sec_fire_safe)

section \<open>Accepting keeps the invariants of the system\<close>

lemma settles_frame: "clients t = clients s \<Longrightarrow> queue t = queue s \<Longrightarrow> scheduled t = scheduled s \<Longrightarrow> settles s t"
  by (simp add: settles_def idle_ctx_def)

lemma settles_bs_delete: "settles s (bs_delete B E x s)"
  by (rule evolves_settles [OF leaf_step_evolves [OF leaf_bs_delete]])

lemma settles_startSSLServer: "bs_startSSLServer B E c p h x s = (r, y, s') \<Longrightarrow> settles s s'"
proof -
  assume a: "bs_startSSLServer B E c p h x s = (r, y, s')"
  have op: "settles s (snd (engine_op (tcp_ssl_new_server B E b m q g) s))" for b m q g s
    by (rule evolves_settles [OF leaf_step_evolves [OF leaf_engine_op]]) (rule bstep_ops)
  have reg: "settles t (engine_do (register_callbacks p c) t)" for t
    by (rule evolves_settles [OF leaf_step_evolves [OF leaf_engine_do]]) (rule bstep_register)
  obtain b m where nb: "new_block B (trace s) = (b, m)" by fastforce
  obtain r1 s1 where o: "engine_op (tcp_ssl_new_server B E b m (Some p) h) s = (r1, s1)" by fastforce
  have "settles s s1" using op [where b = b and m = m and q = "Some p" and g = h and s = s] o by simp
  then show ?thesis using a nb o reg settles_trans by (auto simp: bs_startSSLServer_def split: if_splits) 
qed

lemma settles_new_client: "settles s (new_client E g c (Some p) s)"
proof -
  have "idle_ctx (new_client E g c (Some p) s)" if "idle_ctx s"
    using that by (auto simp: idle_ctx_def new_client_def bind_tcp_callbacks_def set_pcb_def init_client_def Let_def)
  then show ?thesis by (simp add: settles_def new_client_def bind_tcp_callbacks_def set_pcb_def Let_def)
qed

lemma settles_close_or_abort: "settles s (close_or_abort E p s)"
  by (rule settles_frame) (simp_all add: close_or_abort_def Let_def)

lemma settles_give_up:
  assumes "runner_safe k cb" and "give_up B E cb c p s = Some (r, s')"
  shows "settles s s'"
  using assms bear_leaf.drop_settles settles_close_or_abort settles_trans by (fastforce simp: give_up_def)

lemma settles_serve:
  assumes cb: "runner_safe k cb" and "bear_serveTls B E cb g v p s = Some (r, s')"
  shows "settles s s'"
proof -
  have n: "new_object E s = (ok, t) \<Longrightarrow> settles s t" for ok s and t :: "'a esys"
    by (rule settles_frame) (auto simp: new_object_def)
  have fr: "settles s (new_client E g c (Some p) (s\<lparr>next_cid := i\<rparr>))" for c i and s :: "'a esys"
    by (rule settles_trans [OF settles_frame settles_new_client]) simp_all
  obtain ok s1 where 1: "new_object E s = (ok, s1)" by fastforce
  define c where "c = next_cid s1"
  define s2 where "s2 = new_client E g c (Some p) (s1\<lparr>next_cid := Suc c\<rparr>)"
  obtain ok2 s3 where 3: "new_object E s2 = (ok2, s3)" by fastforce
  obtain ret x s4 where 4: "bs_startSSLServer B E c p (es_ctx s3 v) new_bsession s3 = (ret, x, s4)" by (metis prod_cases3)
  obtain ok3 s5 where 5: "new_object E s4 = (ok3, s5)" by fastforce
  have s1: "settles s s1" by (rule n [OF 1])
  have s3: "settles s s3" unfolding s2_def by (rule settles_trans [OF settles_trans [OF s1 fr] n [OF 3 [unfolded s2_def]]])
  have s4: "settles s s4" by (rule settles_trans [OF s3 settles_startSSLServer [OF 4]])
  have s5: "settles s s5" by (rule settles_trans [OF s4 n [OF 5]])
  have up: "settles s (upd c f (log z (upd c g' s5)))" if "\<And>k. c_cb_ctx (f k) = c_cb_ctx k" "\<And>k. c_cb_ctx (g' k) = c_cb_ctx k" for f z g'
    by (rule settles_trans [OF settles_trans [OF s5 settles_upd [of s5 c g']]],
      use that in simp, rule settles_trans [OF settles_frame settles_upd], use that in simp_all)
  show ?thesis
    using assms(2) settles_trans [OF s1 settles_close_or_abort] settles_trans [OF s3 settles_give_up [OF cb]]
      settles_trans [OF settles_trans [OF s4 settles_bs_delete] settles_give_up [OF cb]] 
      settles_trans [OF settles_trans [OF s5 settles_bs_delete] settles_give_up [OF cb]] up
    unfolding bear_serveTls_def 1 prod.case Let_def c_def [symmetric] s2_def [symmetric] 3 4 5
    by (auto simp: settles_close_or_abort split: if_splits)
qed

lemma settles_accept:
  assumes "runner_safe k cb" and "bear_onAccept B E cb g v p e s = Some (r, s')"
  shows "settles s s'"
proof -
  have l: "settles s (log x s)" for x and s :: "'a esys" by (rule settles_frame) simp_all
  have "settles s (if es_ctx s v then log (Tcp_nagle p True) s else s)" using l by simp
  moreover have "settles t s'" if "bear_acceptTls B E cb g v p t = Some (r, s')" for t
    using that l settles_close_or_abort settles_serve [OF assms(1)] by (auto simp: bear_acceptTls_def split: if_splits)
  ultimately show ?thesis using assms(2) settles_trans unfolding bear_onAccept_def by blast
qed

interpretation esp_world: world "bear_hooks B E (\<lambda>s. s) (bear_sec_fire B E app n)" n E
    "bear_srv_hooks B E (bear_sec_fire B E app n) g" "bear_sec_fire B E app n" "fire_client E (leaf_bear B E) app n"
  for B :: "'e bear" and E app n g
proof unfold_locales
  show "runner_safe n (bear_sec_fire B E app n)" by (rule bear_sec_fire_safe)
  show "safe n s (\<lambda>x. x) (fire_client E (leaf_bear B E) app n v h c s)" for v h c s
    by (rule safe_mono [OF bear_leaf.fire_client_safe]) simp
  show "safe n s snd (onAccepted (bear_srv_hooks B E (bear_sec_fire B E app n) g) v c s)" for v c s
    by (simp add: bear_srv_hooks_def safe_Some)
  show "accept_ok E s s'" if "onAccept (bear_srv_hooks B E (bear_sec_fire B E app n) g) v p e s = Some (r, s')" for v p e s r s'
    using that settles_accept_ok settles_accept [OF bear_sec_fire_safe] by (simp add: bear_srv_hooks_def) blast
qed

section \<open>The system\<close>

text \<open>The state before the first call.\<close>

definition esp_boot :: "'e esys" where
  "esp_boot = \<lparr>clients = (\<lambda>_. init_client 0), servers = (\<lambda>_. new_server ip_zero 0), queue = [], trace = [],
     rng = xor_shift_seed, next_cid = 0, next_token = 0, scheduled = 0, tls_active = 0, park = new_park,
     es_pcbs = [], es_sched = [], es_thunk = 0, es_ctx = (\<lambda>_. False)\<rparr>"

abbreviation esp_hooks :: "'e bear \<Rightarrow> lwip \<Rightarrow> (call list \<Rightarrow> cmd list) \<Rightarrow> nat \<Rightarrow> (bsession, ('e, unit) esys_ext) hooks" where
  "esp_hooks B E app n \<equiv> bear_hooks B E (\<lambda>s. s) (bear_sec_fire B E app n)"

abbreviation esp_srv_hooks :: "'e bear \<Rightarrow> lwip \<Rightarrow> (call list \<Rightarrow> cmd list) \<Rightarrow> nat \<Rightarrow> u32 \<Rightarrow> (bsession, ('e, unit) esys_ext) srv_hooks" where
  "esp_srv_hooks B E app n g \<equiv> bear_srv_hooks B E (bear_sec_fire B E app n) g"

text \<open>
  The steps: those of the transport, the two \<open>beginSecure\<close> and the scheduled functions of the engine layer. \<open>g\<close> is what uninitialised
  memory holds.
\<close>

inductive esp_system :: "'e bear \<Rightarrow> 'd bear_keys \<Rightarrow> lwip \<Rightarrow> (call list \<Rightarrow> cmd list) \<Rightarrow> nat \<Rightarrow> u32 \<Rightarrow> 'e esys \<Rightarrow> bool"
  for B :: "'e bear" and X :: "'d bear_keys" and E :: lwip and app :: "call list \<Rightarrow> cmd list" and n :: nat and g :: u32 where
  start: "esp_system B X E app n g esp_boot"
| step: "esp_system B X E app n g s \<Longrightarrow>
    sys_step E (esp_hooks B E app n) (esp_srv_hooks B E app n g) (bear_sec_fire B E app n) (fire_client E (leaf_bear B E) app n) s s' \<Longrightarrow>
    esp_system B X E app n g s'"
| secure: "esp_system B X E app n g s \<Longrightarrow> bear_beginSecure E c host port s = (r, s') \<Longrightarrow> esp_system B X E app n g s'"
| listen: "esp_system B X E app n g s \<Longrightarrow> bear_server_beginSecure X E v cert key password s = Some s' \<Longrightarrow> esp_system B X E app n g s'"
| engine: "esp_system B X E app n g s \<Longrightarrow> run_engine B E (\<lambda>s. s) (bear_sec_fire B E app n) s = Some s' \<Longrightarrow> esp_system B X E app n g s'"

lemma client_beginSecure_settles:
  assumes "bear_beginSecure E c host port s = (r, s')"
  shows "settles s s'"
proof -
  obtain ok s1 where 1: "new_object E s = (ok, s1)" by fastforce
  obtain ok2 s2 where 2: "new_object E s1 = (ok2, s2)" by fastforce
  have s1: "settles s s1" using 1 by (auto simp: new_object_def intro!: settles_frame)
  have s2: "settles s s2" by (rule settles_trans [OF s1]) (use 2 in \<open>auto simp: new_object_def intro!: settles_frame\<close>)
  have "settles s (snd (connect_host E c host port (upd c (\<lambda>k. k\<lparr>c_hooks := x\<rparr>) s2)))" for x
    by (rule settles_trans [OF settles_trans [OF s2 settles_upd] evolves_settles [OF evolves_connect_host]]) simp
  then show ?thesis
    using assms 1 2 s1 s2 by (auto simp: bear_beginSecure_def split: if_splits) (metis snd_conv)
qed

lemma server_beginSecure_settles:
  assumes "bear_server_beginSecure X E v cert key password s = Some s'"
  shows "settles s s'"
proof -
  have f: "settles s (upd_server v h s)" for h by (rule settles_frame) simp_all
  have "settles s (begin_server E v ((upd_server v h s)\<lparr>es_ctx := x, es_thunk := k\<rparr>))" for h x k
    by (rule settles_trans [OF settles_frame evolves_settles [OF evolves_begin_server]]) simp_all
  then show ?thesis
    using assms f by (auto simp: bear_server_beginSecure_def Let_def split: if_splits option.splits)
qed

lemma esp_system_accept_ok:
  assumes "esp_system B X E app n g s"
  shows "idle_ctx s \<and> ((\<forall>t. schedule_ok E t) \<longrightarrow> woken E s)"
  using assms
proof (induction rule: esp_system.induct)
  case start
  show ?case by (simp add: idle_ctx_def woken_def esp_boot_def init_client_def)
next
  case (step s s')
  have "accept_ok E s s'" by (rule esp_world.step_accept_ok [OF step(2)])
  then show ?case using step.IH by (auto simp: accept_ok_def)
next
  case (secure s c host port r s')
  have "settles s s'" by (rule client_beginSecure_settles [OF secure(2)])
  then show ?case using secure.IH settles_idle settles_woken by blast
next
  case (listen s v cert key password s')
  have "settles s s'" by (rule server_beginSecure_settles [OF listen(2)])
  then show ?case using listen.IH settles_idle settles_woken by blast
next
  case (engine s s')
  have "settles s s'" by (rule evolves_settles [OF safe_evolves [OF esp.run_engine_safe engine(2)]])
  then show ?case using engine.IH settles_idle settles_woken by blast
qed

end
