(* ===== verification/Bear_Properties.thy ===== *)
theory Bear_Properties
  imports Bear_System
begin

text \<open>
  What holds of the ESP8266 build: the ends of events, the session and its timers, admission and its failures, and the invariants of the system
  of theory \<open>Bear_System\<close>.
\<close>

section \<open>Setting up and giving up a server connection\<close>

lemma engine_op_frames:
  assumes "\<And>b. bstep b (snd (f b))"
  shows "clients (snd (engine_op f s)) = clients s" "servers (snd (engine_op f s)) = servers s"
    "next_cid (snd (engine_op f s)) = next_cid s" "queue (snd (engine_op f s)) = queue s" "\<exists>t. trace (snd (engine_op f s)) = trace s @ t"
    "es_ctx (snd (engine_op f s)) = es_ctx s"
  using assms [of "pack s"] bx_more(1) [of "snd (f (pack s))" "pack s"] by (simp_all add: bstep_def engine_op_def split_beta)

lemma engine_do_frames:
  assumes "\<And>b. bstep b (f b)"
  shows "clients (engine_do f s) = clients s" "servers (engine_do f s) = servers s" "next_cid (engine_do f s) = next_cid s"
    "queue (engine_do f s) = queue s" "\<exists>t. trace (engine_do f s) = trace s @ t" "es_ctx (engine_do f s) = es_ctx s"
  using assms [of "pack s"] bx_more(1) [of "f (pack s)" "pack s"] by (simp_all add: bstep_def engine_do_def)

lemma esys_frames [simp]:
  "es_pcbs (log x s) = es_pcbs s" "es_pcbs (logs xs s) = es_pcbs s" "es_pcbs (upd c f s) = es_pcbs s" "es_pcbs (upd_server v h s) = es_pcbs s"
  "es_pcbs (set_pcb c q s) = es_pcbs s" "es_pcbs (new_client E g c q s) = es_pcbs s" "es_pcbs (close_or_abort E p s) = es_pcbs s"
  "es_ctx (log x s) = es_ctx s" "es_ctx (new_client E g c q s) = es_ctx s"
  by (simp_all add: log_def logs_def upd_def upd_server_def set_pcb_def new_client_def bind_tcp_callbacks_def close_or_abort_def Let_def
      split: option.split)

lemma upd_newest: "a \<notin> fst ` set l \<Longrightarrow> map (\<lambda>(b, y). (b, if b = a then f y else y)) ((a, x) # l) = (a, f x) # l"
  by (simp, rule map_idI) (auto simp: image_iff)

lemma on_newest:
  "b_pcbs b = (a, x) # l \<Longrightarrow> a \<notin> fst ` set l \<Longrightarrow> sp_tcp x = p \<Longrightarrow> b_pcbs (on_pcb p f b) = (a, f x) # l"
  using upd_newest [of a l f x] by (simp add: on_pcb_def find_ssl_pcb_def upd_pcb_def)

lemma register_newest:
  assumes "b_pcbs b = (a, x) # l" and "a \<notin> fst ` set l" and "sp_tcp x = p"
  shows "\<exists>y. b_pcbs (register_callbacks p c b) = (a, y) # l \<and> sp_tcp y = p \<and> sp_server y = sp_server x"
  unfolding register_callbacks_def tcp_ssl_err_def tcp_ssl_handshake_def tcp_ssl_data_def tcp_ssl_arg_def
  using on_newest [OF on_newest [OF on_newest [OF on_newest [OF assms] assms(2)] assms(2)] assms(2)] assms(3) by simp

lemma close_tcp: "close_steps B E x t = (n, y, t') \<Longrightarrow> sp_tcp y = sp_tcp x"
  using close_frame by (fastforce simp: same_frame_def)

text \<open>Freeing the newest connection leaves the others as they were.\<close>

lemma release_newest:
  assumes "es_pcbs s = (a, x) # l" and "a \<notin> fst ` set l" and "sp_tcp x = p"
  shows "es_pcbs (engine_do (\<lambda>b. snd (tcp_ssl_free p (snd (tcp_ssl_close B E p b)))) s) = l"
proof -
  obtain n y t where c: "close_steps B E x (trace s) = (n, y, t)" by (metis prod_cases3)
  have "find_ssl_pcb p (pack s) = Some (a, x)" using assms by (simp add: find_ssl_pcb_def)
  then have "b_pcbs (snd (tcp_ssl_close B E p (pack s))) = (a, y) # l"
    using c upd_newest [OF assms(2), of "\<lambda>_. y" x] assms(1) by (simp add: tcp_ssl_close_def upd_pcb_def)
  moreover have "sp_tcp y = p" using close_tcp [OF c] assms(3) by simp
  ultimately show ?thesis by (simp add: engine_do_def tcp_ssl_free_def find_ssl_pcb_def free_rx_pend_def blog_def)
qed

lemma server_pcb:
  assumes "tcp_ssl_new_server B E a mem (Some p) True b = (r, b')"
  shows "r = 0 \<and> (\<exists>eng. b_pcbs b' = (a, init_ssl_pcb B eng p True) # b_pcbs b) \<or> r = -1 \<and> b_pcbs b' = b_pcbs b"
  using assms by (auto simp: tcp_ssl_new_server_def tcp_ssl_alloc_pcb_def new_alloc_def tcp_ssl_register_pcb_def blog_def
      split: if_splits option.splits) blast

lemma start_server:
  assumes "bs_startSSLServer B E c p True new_bsession s = (r, x, s')" and fresh: "fst (new_block B (trace s)) \<notin> fst ` set (es_pcbs s)"
  shows "clients s' = clients s" "servers s' = servers s" "next_cid s' = next_cid s" "\<exists>t. trace s' = trace s @ t" "queue s' = queue s"
    and "r = 0 \<and> (\<exists>y. es_pcbs s' = (fst (new_block B (trace s)), y) # es_pcbs s \<and> sp_tcp y = p \<and> sp_server y
             \<and> bs_pcb x = Some p \<and> bs_ssl x = Some (fst (new_block B (trace s))))
      \<or> r = -1 \<and> es_pcbs s' = es_pcbs s \<and> x = new_bsession"
proof -
  obtain a mem where nb: "new_block B (trace s) = (a, mem)" by fastforce
  let ?f = "tcp_ssl_new_server B E a mem (Some p) True"
  obtain r1 s1 where o: "engine_op ?f s = (r1, s1)" by fastforce
  obtain b1 where b1: "?f (pack s) = (r1, b1)" "s1 = unpack b1" using o by (auto simp: engine_op_def split: prod.splits)
  note f1 = engine_op_frames [of ?f s, OF bstep_ops(5), unfolded o snd_conv]
  note f2 = engine_do_frames [of "register_callbacks p c" s1, OF bstep_register]
  have s': "s' = (if r1 < 0 then s1 else engine_do (register_callbacks p c) s1)"
    using assms(1) nb o by (auto simp: bs_startSSLServer_def split: if_splits)
  show "clients s' = clients s" "servers s' = servers s" "next_cid s' = next_cid s" "\<exists>t. trace s' = trace s @ t" "queue s' = queue s"
    using s' f1 f2 by auto
  from server_pcb [OF b1(1)] show "r = 0 \<and> (\<exists>y. es_pcbs s' = (fst (new_block B (trace s)), y) # es_pcbs s \<and> sp_tcp y = p \<and> sp_server y
             \<and> bs_pcb x = Some p \<and> bs_ssl x = Some (fst (new_block B (trace s))))
      \<or> r = -1 \<and> es_pcbs s' = es_pcbs s \<and> x = new_bsession"
  proof (elim disjE conjE exE)
    fix eng assume r: "r1 = 0" and l: "b_pcbs b1 = (a, init_ssl_pcb B eng p True) # b_pcbs (pack s)"
    have t: "sp_tcp (init_ssl_pcb B eng p True) = p" "sp_server (init_ssl_pcb B eng p True)" by (simp_all add: init_ssl_pcb_def)
    from l have l1: "b_pcbs (pack s1) = (a, init_ssl_pcb B eng p True) # es_pcbs s" using b1(2) by simp
    from register_newest [OF l1 _ t(1), of c] fresh nb t(2)
    obtain y where y: "b_pcbs (register_callbacks p c (pack s1)) = (a, y) # es_pcbs s" "sp_tcp y = p" "sp_server y" by auto
    have "find_ssl_pcb p (pack s1) = Some (a, init_ssl_pcb B eng p True)" using l1 t(1) by (simp add: find_ssl_pcb_def)
    then show ?thesis using assms(1) nb o r y s' by (auto simp: bs_startSSLServer_def engine_do_def)
  next
    assume "r1 = -1" "b_pcbs b1 = b_pcbs (pack s)"
    then show ?thesis using assms(1) nb o b1(2) by (auto simp: bs_startSSLServer_def new_bsession_def)
  qed
qed

text \<open>Deleting a client that has a pcb and nothing else closes the pcb.\<close>

lemma no_close_in_free: "count_list (concat (map free_event es)) (Tcp_close p) = 0"
  by (induction es) (simp_all add: free_event_def)

lemma drop_fresh:
  assumes "clients s c = k" and "c_pcb k = Some p" "c_hooks k = None" "c_discard_cb k = None" "c_server_discard_cb k = None"
    "c_cb_ctx k = []" "c_rx_ack_len k = 0"
  shows "\<exists>s'. drop_client E H cb c s = Some s' \<and> es_pcbs s' = es_pcbs s \<and> c_pcb (cl s' c) = None
    \<and> (\<exists>t. trace s' = trace s @ t \<and> count_list t (Tcp_close p) = 1)"
proof -
  define s1 where "s1 = upd c (\<lambda>k. k\<lparr>c_rx_ack_len := 0\<rparr>) (clear_token c (upd c (\<lambda>k. k\<lparr>c_facade := False\<rparr>) s))"
  have k1: "cl s1 c = k\<lparr>c_facade := False, c_dns_token := None, c_rx_ack_len := 0\<rparr>"
    using assms(1) by (simp add: s1_def clear_token_def)
  define s2 where "s2 = set_pcb c None (close_or_abort E p (reset_tcp_callbacks p (Some c) s1))"
  have r1: "es_pcbs s1 = es_pcbs s" "trace s1 = trace s" "queue s1 = queue s" by (simp_all add: s1_def clear_token_def upd_def)
  have "close_facade E H cb c s = Some s2"
    using assms k1 by (simp add: close_facade_def close_def clear_token_def Let_def s1_def [unfolded clear_token_def, symmetric]
        close_impl_def tcp_close_Some s2_def [symmetric] call_app_def) (simp add: s2_def set_pcb_def k1)
  moreover have k2: "cl s2 c = k\<lparr>c_facade := False, c_dns_token := None, c_rx_ack_len := 0, c_pcb := None\<rparr>"
    using k1 by (simp add: s2_def set_pcb_def)
  ultimately have d: "drop_client E H cb c s = Some (invalidate c (mark_dead c s2))"
    using assms(3) by (simp add: drop_client_def destroy_impl_def mark_dead_def)
  have e: "es_pcbs s2 = es_pcbs s"
    using r1 by (simp add: s2_def set_pcb_def upd_def close_or_abort_def reset_tcp_callbacks_def remove_events_eq Let_def)
  have "\<exists>t. trace s2 = trace s @ t \<and> count_list t (Tcp_close p) = 1"
    using r1 by (simp add: s2_def set_pcb_def reset_tcp_callbacks_def remove_events_eq no_close_in_free)
  then show ?thesis unfolding d using e by (simp add: mark_dead_def invalidate_def k2 upd_def)
qed

lemma fresh_client:
  assumes "clients s c = clients (new_client E g c (Some p) u) c"
  shows "\<exists>s'. give_up B E cb c p s = Some (None, s') \<and> es_pcbs s' = es_pcbs s
    \<and> (\<exists>t. trace s' = trace s @ t \<and> count_list t (Tcp_close p) = 2)"
proof -
  have k: "\<exists>k. clients s c = k \<and> c_pcb k = Some p \<and> c_hooks k = None \<and> c_discard_cb k = None \<and> c_server_discard_cb k = None
      \<and> c_cb_ctx k = [] \<and> c_rx_ack_len k = 0"
    unfolding assms by (simp add: new_client_def bind_tcp_callbacks_def set_pcb_def init_client_def Let_def)
  then obtain s1 t where 1: "drop_client E (leaf_bear B E) cb c s = Some s1" "es_pcbs s1 = es_pcbs s"
    "trace s1 = trace s @ t" "count_list t (Tcp_close p) = 1" using drop_fresh by metis
  then show ?thesis by (simp add: give_up_def)
qed

lemma deleted_keeps:
  "clients (bs_delete B E x s) = clients s" "\<exists>t. trace (bs_delete B E x s) = trace s @ t"
  using engine_do_frames [of "\<lambda>b. snd (tcp_ssl_free p (snd (tcp_ssl_close B E p b)))" s for p, OF bstep_trans [OF bstep_close bstep_ops(4)]]
  by (auto simp: bs_delete_def split: option.split)

text \<open>A client that only the library knows.\<close>

definition unfinished :: "'h client \<Rightarrow> bool" where
  "unfinished k \<longleftrightarrow> c_facade k \<and> \<not> c_dead k \<and> c_error_cb k = None \<and> c_discard_cb k = None \<and> c_server_discard_cb k = None"

text \<open>Serving: either the client is there with its session on the newest connection of the engine layer, or the pcb is closed.\<close>

definition served :: "sid \<Rightarrow> pcb \<Rightarrow> 'e esys \<Rightarrow> 'e esys \<Rightarrow> bool" where
  "served v p s s' \<longleftrightarrow>
     (\<exists>a y x. es_pcbs s' = (a, y) # es_pcbs s \<and> sp_tcp y = p \<and> sp_server y
       \<and> c_pcb (cl s' (next_cid s)) = Some p \<and> c_connect_cb (cl s' (next_cid s)) = Some (server_connect v)
       \<and> c_hooks (cl s' (next_cid s)) = Some x \<and> bs_pcb x = Some p \<and> bs_ssl x = Some a \<and> unfinished (cl s' (next_cid s)))"

lemma serve_outcome:
  assumes "tcp_ssl_client_count (pack s) < BEAR_MAX_CONNECTIONS" and ctx: "es_ctx s v"
    and fresh: "\<And>u. fst (new_block B (trace s @ u)) \<notin> fst ` set (es_pcbs s)"
  shows "\<exists>r s'. bear_serveTls B E cb g v p s = Some (r, s')
    \<and> (served v p s s' \<or> es_pcbs s' = es_pcbs s
         \<and> (\<exists>t. trace s' = trace s @ t \<and> count_list t (Tcp_close p) \<ge> (if alloc_ok E (trace s) then 2 else 1)))"
proof -
  define s1 where "s1 = log New_object s"
  define c where "c = next_cid s"
  define s3 where "s3 = log New_object (new_client E g c (Some p) (s1\<lparr>next_cid := Suc c\<rparr>))"
  obtain ret x s4 where 4: "bs_startSSLServer B E c p (es_ctx s3 v) new_bsession s3 = (ret, x, s4)" by (metis prod_cases3)
  have k3: "clients s3 c = clients (new_client E g c (Some p) (s1\<lparr>next_cid := Suc c\<rparr>)) c" by (simp add: s3_def)
  have e3: "es_pcbs s3 = es_pcbs s" "es_ctx s3 v" by (simp_all add: s3_def s1_def ctx log_def)
  have t3: "\<exists>t. trace s3 = trace s @ t"
    by (simp add: s3_def s1_def new_client_def bind_tcp_callbacks_def set_pcb_def Let_def)
  have fresh3: "fst (new_block B (trace s3)) \<notin> fst ` set (es_pcbs s)" using t3 fresh by metis
  note st = start_server [OF 4 [unfolded e3(2) [THEN eqTrueI]], unfolded e3(1), OF fresh3]
  define s5 where "s5 = log New_object s4"
  have k4: "clients s4 c = clients (new_client E g c (Some p) (s1\<lparr>next_cid := Suc c\<rparr>)) c" using st(1) k3 by simp
  have run: "bear_serveTls B E cb g v p s =
      (if \<not> alloc_ok E (trace s) then Some (None, close_or_abort E p s1)
       else if \<not> alloc_ok E (trace (new_client E g c (Some p) (s1\<lparr>next_cid := Suc c\<rparr>))) then give_up B E cb c p s3
       else if ret \<noteq> 0 then give_up B E cb c p (bs_delete B E x s4)
       else if \<not> alloc_ok E (trace s4) then give_up B E cb c p (bs_delete B E x s5)
       else Some (Some c, upd c (\<lambda>k. k\<lparr>c_connect_cb := Some (server_connect v)\<rparr>)
         (log (Tcp_nagle p True) (upd c (\<lambda>k. k\<lparr>c_hooks := Some (hook_session x)\<rparr>) s5))))"
    using assms(1) 4
    by (auto simp: bear_serveTls_def new_object_def s1_def c_def s3_def s5_def Let_def)
  have up: "\<exists>r s'. give_up B E cb c p u = Some (r, s') \<and> es_pcbs s' = es_pcbs s
      \<and> (\<exists>t. trace s' = trace s @ t \<and> count_list t (Tcp_close p) \<ge> 2)"
    if "clients u c = clients s3 c" "es_pcbs u = es_pcbs s" "\<exists>t. trace u = trace s3 @ t" for u
  proof -
    from fresh_client [of u c E g p "s1\<lparr>next_cid := Suc c\<rparr>" B cb] that(1) k3 obtain s' t
      where "give_up B E cb c p u = Some (None, s')" "es_pcbs s' = es_pcbs u" "trace s' = trace u @ t" "count_list t (Tcp_close p) = 2" by auto
    then show ?thesis using that(2,3) t3 by auto
  qed
  have k1: "c_pcb (clients s4 c) = Some p" "unfinished (clients s4 c)"
    unfolding k4 by (simp_all add: unfinished_def new_client_def bind_tcp_callbacks_def set_pcb_def init_client_def Let_def)
  consider "\<not> alloc_ok E (trace s)" | "alloc_ok E (trace s)" "\<not> alloc_ok E (trace (new_client E g c (Some p) (s1\<lparr>next_cid := Suc c\<rparr>)))"
    | "alloc_ok E (trace s)" "alloc_ok E (trace (new_client E g c (Some p) (s1\<lparr>next_cid := Suc c\<rparr>)))" "ret \<noteq> 0"
    | "alloc_ok E (trace s)" "alloc_ok E (trace (new_client E g c (Some p) (s1\<lparr>next_cid := Suc c\<rparr>)))" "ret = 0" "\<not> alloc_ok E (trace s4)"
    | "alloc_ok E (trace s)" "alloc_ok E (trace (new_client E g c (Some p) (s1\<lparr>next_cid := Suc c\<rparr>)))" "ret = 0" "alloc_ok E (trace s4)"
    by blast
  then show ?thesis
  proof cases
    case 1
    then show ?thesis using run by (simp add: s1_def)
  next
    case 2
    then show ?thesis using run up [of s3] e3(1) by auto
  next
    case 3
    then have "es_pcbs s4 = es_pcbs s" "x = new_bsession" using st(6) by auto
    then show ?thesis using run 3 up [of s4] st(1,4) by (auto simp: bs_delete_def new_bsession_def)
  next
    case 4
    from st(6) 4(3) obtain y where y: "es_pcbs s4 = (fst (new_block B (trace s3)), y) # es_pcbs s" "sp_tcp y = p"
      "bs_pcb x = Some p" "bs_ssl x = Some (fst (new_block B (trace s3)))" by auto
    have "es_pcbs (bs_delete B E x s5) = es_pcbs s"
      using release_newest [of s5 "fst (new_block B (trace s3))" y "es_pcbs s" p B E] y fresh3 by (simp add: bs_delete_def s5_def)
    moreover have "clients (bs_delete B E x s5) c = clients s3 c" by (simp add: deleted_keeps(1) st(1) s5_def)
    moreover have "\<exists>t. trace (bs_delete B E x s5) = trace s3 @ t"
      using deleted_keeps(2) [of B E x s5] st(4) by (auto simp: s5_def)
    ultimately show ?thesis using run 4 up [of "bs_delete B E x s5"] by auto
  next
    case 5
    from st(6) 5(3) obtain y where "es_pcbs s4 = (fst (new_block B (trace s3)), y) # es_pcbs s" "sp_tcp y = p" "sp_server y"
      "bs_pcb x = Some p" "bs_ssl x = Some (fst (new_block B (trace s3)))" by auto
    then have "served v p s (upd c (\<lambda>k. k\<lparr>c_connect_cb := Some (server_connect v)\<rparr>)
         (log (Tcp_nagle p True) (upd c (\<lambda>k. k\<lparr>c_hooks := Some (hook_session x)\<rparr>) s5)))"
      using k1 by (auto simp: served_def unfinished_def s5_def c_def [symmetric] hook_session_def)
    then show ?thesis using run 5 by simp
  qed
qed

lemma remove_in_filter:
  "distinct (map fst l) \<Longrightarrow> find_in p l = Some (a, x) \<Longrightarrow> remove_in p l = filter (\<lambda>(b, y). b \<noteq> a) l"
proof (induction p l rule: remove_in.induct)
  case (2 p b y r)
  show ?case
  proof (cases "sp_tcp y = p")
    case True
    then have "b = a" using "2.prems"(2) by simp
    then have "filter (\<lambda>(b, y). b \<noteq> a) r = r" using "2.prems"(1) by (intro filter_True) force
    then show ?thesis using True \<open>b = a\<close> by simp
  next
    case False
    then have f: "find_in p r = Some (a, x)" using "2.prems"(2) by simp
    then have "a \<in> fst ` set r" using "2.prems"(1) find_in_map_of [of r p a x] by (metis distinct.simps(2) list.simps(9) fst_conv image_eqI map_of_SomeD)
    then have "b \<noteq> a" using "2.prems"(1) by auto
    then show ?thesis using 2 f False by simp
  qed
qed simp

lemma map_of_others: "map_of (filter (\<lambda>(b, y). b \<noteq> a) (map (\<lambda>(b, y). (b, if b = a then f y else y)) l)) b = (if b = a then None else map_of l b)"
  by (induction l) auto

lemma find_in_upd:
  assumes "distinct (map fst l)" and "find_in p l = Some (a, x)" and "sp_tcp (f x) = sp_tcp x"
  shows "find_in p (map (\<lambda>(b, y). (b, if b = a then f y else y)) l) = Some (a, f x)"
  using assms
proof (induction p l rule: find_in.induct)
  case (2 p b y r)
  show ?case
  proof (cases "sp_tcp y = p")
    case False
    then have r: "find_in p r = Some (a, x)" using 2 by simp
    then have "a \<in> fst ` set r" using "2.prems"(1) find_in_map_of [of r p a x] by (metis distinct.simps(2) list.simps(9) fst_conv image_eqI map_of_SomeD)
    then have "b \<noteq> a" using "2.prems"(1) by auto
    then show ?thesis using 2 r False by simp
  qed (use 2 in auto)
qed simp

lemma find_in_tcp: "find_in p l = Some (a, x) \<Longrightarrow> sp_tcp x = p"
  by (induction p l rule: find_in.induct) (auto split: if_splits)

lemma bsess_upd [simp]: "c_hooks (cl s c) \<noteq> None \<Longrightarrow> bsess (upd_bsess c f s) c = f (bsess s c)"
  by (auto simp: bsess_def upd_bsess_def)

text \<open>What closing a connection calls.\<close>

definition own_write :: "call \<Rightarrow> bool" where
  "own_write x = (case x of Tcp_write _ _ _ \<Rightarrow> True | Tcp_output _ \<Rightarrow> True | _ \<Rightarrow> False)"

definition app_call :: "call \<Rightarrow> bool" where
  "app_call x = (case x of App _ _ _ \<Rightarrow> True | App_client _ _ _ \<Rightarrow> True | _ \<Rightarrow> False)"

lemma push_writes: "push_copy B E x t = (stop, n, y, t') \<Longrightarrow> \<exists>u. t' = t @ u \<and> list_all own_write u"
  by (auto simp: push_copy_def own_write_def Let_def split: prod.splits if_splits)

lemma close_writes:
  assumes "close_steps B E x t = (n, y, t')"
  shows "\<exists>u. t' = t @ u \<and> list_all own_write u"
  using assms unfolding close_steps_def
  by (auto simp: own_write_def split: if_splits prod.splits dest!: push_writes)

lemma quiet_trans:
  "\<exists>u. t1 = t @ u \<and> list_all P u \<Longrightarrow> \<exists>u. t2 = t1 @ u \<and> list_all P u \<Longrightarrow> \<exists>u. t2 = t @ u \<and> list_all P u"
  by auto

lemma close_is_quiet: "\<exists>u. trace (bs_close B E c s) = trace s @ u \<and> list_all (\<lambda>x. \<not> app_call x) u"
proof -
  have w: "list_all own_write u \<Longrightarrow> list_all (\<lambda>x. \<not> app_call x) u" for u
    by (induction u) (auto simp: own_write_def app_call_def split: call.splits)
  have f: "list_all (\<lambda>x. \<not> app_call x) (map Pbuf_free cs)" for cs by (induction cs) (simp_all add: app_call_def)
  have 1: "\<exists>u. b_trace (snd (tcp_ssl_close B E p b)) = b_trace b @ u \<and> list_all (\<lambda>x. \<not> app_call x) u" for p and b :: "'a bx"
    using w by (auto simp: tcp_ssl_close_def split: option.split prod.split dest!: close_writes)
  have 2: "\<exists>u. b_trace (snd (tcp_ssl_free p b)) = b_trace b @ u \<and> list_all (\<lambda>x. \<not> app_call x) u" for p and b :: "'a bx"
    using f by (auto simp: tcp_ssl_free_def free_rx_pend_def split: option.split)
  have "\<exists>u. trace (engine_do (\<lambda>b. snd (tcp_ssl_free p (snd (tcp_ssl_close B E p b)))) s) = trace s @ u \<and> list_all (\<lambda>x. \<not> app_call x) u" for p
    using quiet_trans [OF 1 [of p "pack s"] 2 [where p = p and b = "snd (tcp_ssl_close B E p (pack s))"]] by (simp add: engine_do_def)
  then show ?thesis by (simp add: bs_close_def upd_bsess_def split: option.split)
qed

section \<open>States for the witnesses\<close>

text \<open>A client with a session on pcb 7, whose connection in the engine layer is \<open>x\<close>.\<close>

definition esp_client :: "'e ssl_pcb \<Rightarrow> bool \<Rightarrow> 'e esys" where
  "esp_client x hs =
     (upd 1 (\<lambda>k. k\<lparr>c_pcb := Some 7, c_hooks := Some ((hook_session new_bsession)\<lparr>bs_pcb := Some 7, bs_ssl := Some 100,
        bs_handshake_done := hs\<rparr>)\<rparr>) esp_boot)\<lparr>es_pcbs := [(100, x)], es_thunk := 1\<rparr>"

lemma esp_client_simps:
  "c_hooks (cl (esp_client x hs) 1) = Some ((hook_session new_bsession)\<lparr>bs_pcb := Some 7, bs_ssl := Some 100, bs_handshake_done := hs\<rparr>)"
  "es_pcbs (esp_client x hs) = [(100, x)]" "c_pcb (cl (esp_client x hs) 1) = Some 7"
  by (simp_all add: esp_client_def upd_def)

section \<open>Properties\<close>

text \<open>
  C8: the whole system of the ESP8266, with TLS clients, TLS servers and the pump of the engine layer: in every reachable state no callback context
  is left on a client; and, as that build has no service task, a nonempty queue of events has a run of the scheduler coming, while the scheduler
  takes functions.
\<close>

theorem esp8266_system_inv:
  assumes "esp_system B X E app n g s"
  shows "c_cb_ctx (cl s c) = [] \<and> ((\<forall>t. schedule_ok E t) \<and> no_sys E \<and> queue s \<noteq> [] \<longrightarrow> scheduled s > 0)"
  using esp_system_accept_ok [OF assms] by (auto simp: idle_ctx_def woken_def)

theorem esp8266_system_inv_witness:
  "scheduled (snd (tcp_sent (calm\<lparr>no_sys := True\<rparr>) 1 10 5 (esp_boot :: u8 list esys))) > 0"
proof -
  let ?E = "calm\<lparr>no_sys := True\<rparr>" and ?s = "esp_boot :: u8 list esys"
  have "esp_system toy_bear plain_keys ?E (\<lambda>_. []) 1 0 (snd (tcp_sent ?E 1 10 5 ?s))"
    by (rule esp_system.step [OF esp_system.start sys_step.Sent], rule prod.collapse [symmetric])
  from esp8266_system_inv [OF this, of 1] show ?thesis by (simp add: calm_def tcp_sent_def queue_packet_queue)
qed

text \<open>
  C9: with BearSSL clients the handling of an event ends too. Whatever the application's callbacks do, from the transport and from the
  middle of the pump alike, the service routine comes back from any event of a client, once the fuel of the callbacks exceeds the number of
  clients that are live or have events by two.
\<close>

theorem bear_event_returns:
  assumes "ev_impl e = Some c" and "finite {d. c_pcb (cl s d) \<noteq> None}"
    and "card {d. c_pcb (cl s d) \<noteq> None} + card {d. \<exists>x \<in> set (queue s). ev_impl x = Some d} + 1 < n"
  shows "\<exists>s'. handle_async_event E (esp_hooks B E app n) (esp_srv_hooks B E app n g) (bear_sec_fire B E app n) ccb e s = Some s'"
proof (rule esp.client_event_returns [OF esp.runner assms(1)])
  have p: "pending s = {d. \<exists>x \<in> set (queue s). ev_impl x = Some d}"
    by (auto simp: pending_def events_of_def filter_empty_conv)
  show "finite (live s)" "Suc (work s) < n" using assms(2,3) by (simp_all add: live_def work_def p)
qed

theorem bear_event_returns_witness:
  "\<exists>s'. handle_async_event calm (esp_hooks toy_bear calm closing_app 3) (esp_srv_hooks toy_bear calm closing_app 3 0)
     (bear_sec_fire toy_bear calm closing_app 3) (\<lambda>_ _ _ s. Some s) (client_packet (LWIP_TCP_POLL 7) 1)
     (esp_client (init_ssl_pcb toy_bear ([], []) 7 False) True) = Some s'"
proof (rule bear_event_returns)
  let ?s = "esp_client (init_ssl_pcb toy_bear ([], []) 7 False) True"
  have l: "{c. c_pcb (cl ?s c) \<noteq> None} = {1}" by (auto simp: esp_client_def esp_boot_def init_client_def)
  show "ev_impl (client_packet (LWIP_TCP_POLL 7) 1) = Some 1" by (simp add: client_packet_def)
  show "finite {d. c_pcb (cl ?s d) \<noteq> None}" unfolding l by simp
  show "card {d. c_pcb (cl ?s d) \<noteq> None} + card {d. \<exists>x \<in> set (queue ?s). ev_impl x = Some d} + 1 < 3"
    unfolding l by (simp add: esp_client_def esp_boot_def)
qed

text \<open>
  C29: the first bytes of the peer switch the handshake timeout off. \<open>feedRx\<close> marks the handshake as done as soon as a received chain is
  queued for the engine, although the engine has not seen it, let alone finished. From then on \<open>onPoll\<close> takes the branch after the timeout, at
  whatever time it is called, and acknowledgements of handshake records are passed to the application.
\<close>

theorem first_bytes_disable_handshake_timeout:
  assumes "c_hooks (cl s c) = Some y" and "bs_ssl y = Some a" and "bs_pcb y = Some p"
    and "find_ssl_pcb p (pack s) = Some (a, x)" and "length (sp_rx x) < SSL_RX_PEND_MAX" and "pb \<noteq> []"
    and "c_pcb (cl s c) = Some q"
  shows "\<exists>s'. bear_onRecv B E cb c pb s = Some (True, s') \<and> bs_handshake_done (bsess s' c)
    \<and> map_option sp_handshake_done (map_of (es_pcbs s') a) = map_option sp_handshake_done (map_of (es_pcbs s) a)
    \<and> bear_onPoll B F Y cb c s'
      = (bs_pump B F Y cb c (bs_sentAck B F c 0 s') \<bind> (\<lambda>(r, s1).
           if bs_isStalled F c SSL_STALL_RESET_MS s1 then close_true B F cb c s1
           else if idle_connection B F (millis F (trace s')) q c s1 then close_true B F cb c s1
           else Some (False, s1)))
    \<and> map_option fst (bear_onSent B F c n s') = Some False"
proof -
  let ?f = "tcp_ssl_read E p pb"
  have op: "fst (?f (pack s)) = 0" using assms(4,5) by (simp add: tcp_ssl_read_def)
  define s1 where "s1 = snd (engine_op ?f s)"
  have o: "engine_op ?f s = (0, s1)" using op by (simp add: engine_op_def s1_def split_beta)
  have c1: "clients s1 = clients s" unfolding s1_def by (rule engine_op_frames(1)) (rule bstep_ops)
  define s2 where "s2 = upd_bsess c (\<lambda>x. x\<lparr>bs_handshake_done := True\<rparr>) s1"
  define s' where "s' = stamp_rx E c s2"
  have r: "bear_onRecv B E cb c pb s = Some (True, s')"
    using assms(1-3,6) o by (simp add: bear_onRecv_def bs_feedRx_def bsess_def s2_def s'_def)
  have h: "c_hooks (cl s' c) = Some (y\<lparr>bs_handshake_done := True\<rparr>)" "c_pcb (cl s' c) = Some q"
    using assms(1,7) c1 by (simp_all add: s'_def stamp_rx_def s2_def upd_bsess_def)
  have e: "es_pcbs s' = es_pcbs s1" by (simp add: s'_def stamp_rx_def s2_def upd_bsess_def upd_def)
  have "map_option sp_handshake_done (pcb_at (snd (?f (pack s))) a) = map_option sp_handshake_done (pcb_at (pack s) a)"
    using assms(4,5) by (auto simp: tcp_ssl_read_def schedule_ssl_engine_def Let_def option.map_comp comp_def split: option.splits)
  then have m: "map_option sp_handshake_done (map_of (es_pcbs s') a) = map_option sp_handshake_done (map_of (es_pcbs s) a)"
    by (simp add: e s1_def engine_op_def split_beta pcb_at_def)
  have hd: "bs_handshake_done (bsess s' c)" using h by (simp add: bsess_def)
  have "clients (bs_sentAck B F c n' s') = clients s'" for n'
    by (auto simp: bs_sentAck_def intro!: engine_do_frames(1) bstep_ops split: option.split)
  then have sn: "map_option fst (bear_onSent B F c n s') = Some False"
    using hd by (simp add: bear_onSent_def Let_def bsess_def)
  have pl: "bear_onPoll B F Y cb c s'
      = (bs_pump B F Y cb c (bs_sentAck B F c 0 s') \<bind> (\<lambda>(r, s1).
           if bs_isStalled F c SSL_STALL_RESET_MS s1 then close_true B F cb c s1
           else if idle_connection B F (millis F (trace s')) q c s1 then close_true B F cb c s1
           else Some (False, s1)))"
    using h hd by (simp add: bear_onPoll_def Let_def)
  show ?thesis using r hd m pl sn by blast
qed

theorem first_bytes_disable_handshake_timeout_witness:
  "\<exists>s'. bear_onRecv toy_bear calm (\<lambda>_ _ s. Some s) 1 [\<lparr>pb_id = 1, pb_data = [22]\<rparr>]
      (esp_client (init_ssl_pcb toy_bear ([], []) 7 False) False) = Some (True, s')
    \<and> bs_handshake_done (bsess s' 1) \<and> map_option sp_handshake_done (map_of (es_pcbs s') 100) = Some False"
proof -
  let ?x = "init_ssl_pcb toy_bear ([], []) 7 False"
  let ?s = "esp_client ?x False"
  have s: "c_hooks (cl ?s 1) = Some ((hook_session new_bsession)\<lparr>bs_pcb := Some 7, bs_ssl := Some 100, bs_handshake_done := False\<rparr>)"
    "es_pcbs ?s = [(100, ?x)]" "c_pcb (cl ?s 1) = Some 7" by (simp_all add: esp_client_def upd_def)
  have "sp_tcp ?x = 7" by (simp add: init_ssl_pcb_def)
  then have f: "find_ssl_pcb 7 (pack ?s) = Some (100, ?x)" by (simp add: find_ssl_pcb_def s)
  have m: "map_option sp_handshake_done (map_of (es_pcbs ?s) 100) = Some False" unfolding s(2) by (simp add: init_ssl_pcb_def)
  have "length (sp_rx ?x) < SSL_RX_PEND_MAX" by (simp add: init_ssl_pcb_def SSL_RX_PEND_MAX_def)
  from first_bytes_disable_handshake_timeout [OF s(1) _ _ f this _ s(3), where pb = "[\<lparr>pb_id = 1, pb_data = [22]\<rparr>]" and B = toy_bear
      and E = calm and cb = "\<lambda>_ _ s. Some s" and F = calm and Y = "\<lambda>s. s" and n = 5]
  show ?thesis unfolding m by fastforce
qed

text \<open>An acknowledgement of nothing, on a connection with nothing in flight; and the pump of a connection with nothing to do.\<close>

lemma sent_nothing:
  assumes "bs_pcb (bsess s c) = Some p" and d: "distinct (map fst (es_pcbs s))" and f: "find_ssl_pcb p (pack s) = Some (a, x)"
    and x: "sp_handshake_done x" "sp_pinned x = 0" "\<not> sp_deferred x" and e: "\<not> st_sendrec (engine_state B x)"
  shows "clients (bs_sentAck B E c 0 s) = clients s" and "map fst (es_pcbs (bs_sentAck B E c 0 s)) = map fst (es_pcbs s)"
    and "find_ssl_pcb p (pack (bs_sentAck B E c 0 s)) = Some (a, x\<lparr>sp_acked := 0, sp_body := True\<rparr>)"
proof -
  have z: "ack_ring B 0 x = x\<lparr>sp_acked := 0, sp_body := True\<rparr>" using x by (simp add: ack_ring_def release_slots.simps Let_def)
  have p1: "es_pcbs (bs_sentAck B E c 0 s) = map (\<lambda>(b, y). (b, if b = a then ack_ring B 0 y else y)) (es_pcbs s)"
    using assms(1) f e z by (simp add: bs_sentAck_def engine_do_def tcp_ssl_sent_def engine_state_def Let_def upd_pcb_def)
  show "clients (bs_sentAck B E c 0 s) = clients s"
    by (auto simp: bs_sentAck_def intro!: engine_do_frames(1) bstep_ops split: option.split)
  show "map fst (es_pcbs (bs_sentAck B E c 0 s)) = map fst (es_pcbs s)" by (simp add: p1 split_def comp_def)
  show "find_ssl_pcb p (pack (bs_sentAck B E c 0 s)) = Some (a, x\<lparr>sp_acked := 0, sp_body := True\<rparr>)"
    using find_in_upd [OF d, where f = "ack_ring B 0" and p = p and x = x] f z by (simp add: find_ssl_pcb_def p1)
qed

lemma quiet_session_pump:
  assumes "bs_ssl (bsess s c) = Some a" and at: "pcb_at (pack s) a = Some z" and d: "distinct (map fst (es_pcbs s))"
    and z: "sp_handshake_done z" "sp_rx z = []" "\<not> st_closed (engine_state B z)" "\<not> st_sendrec (engine_state B z)"
      "\<not> st_recvapp (engine_state B z)" "e_flush B False (sp_engine z) = sp_engine z" "snd (e_sendrec_buf B (fst (sp_engine z))) = 0"
  shows "\<exists>r s'. bs_pump B E (\<lambda>s. s) cb c s = Some (r, s') \<and> clients s' = clients s \<and> es_pcbs s' = es_pcbs s"
proof -
  let ?cb = "pump_others B E (\<lambda>s. s) cb"
  let ?b = "process_ssl_engine B E ?cb a (pack s)"
  have yields: "b_pcbs (?cb Yield b) = b_pcbs b" for b by (simp add: pump_others_def Let_def)
  then have yields_at: "pcb_at (?cb Yield b) a = pcb_at b a" for b by (simp add: pcb_at_def)
  note quiet = quiet_pump [where cb = ?cb and E = E, OF at z yields_at]
  obtain b where b: "bstep (pack s) b" "bstep (?cb Yield b) ?b" using quiet(2) by blast
  have cb: "clients (unpack b) = clients s" "\<not> bx_stuck b"
    using b(1) bx_more [of b "pack s"] by (auto simp: bstep_def)
  have fin: "clients (unpack ?b) = clients s" "\<not> bx_stuck ?b"
    using b(2) cb bx_more [of ?b "?cb Yield b"] by (auto simp: bstep_def pump_others_def Let_def)
  have "b_pcbs ?b = es_pcbs s" using quiet(3) yields d by simp
  then show ?thesis using assms(1) fin by (simp add: bs_pump_def engine_run_def)
qed

text \<open>
  A connection that is over as far as TLS is concerned, nothing received, nothing to send, nothing in flight, whose last wake-up the scheduler
  refused. It is the session of client \<open>c\<close>, with pcb \<open>q\<close>.
\<close>

definition idle_dropped :: "'e bear \<Rightarrow> cid \<Rightarrow> pcb \<Rightarrow> 'e esys \<Rightarrow> bool" where
  "idle_dropped B c q s \<longleftrightarrow>
     (\<exists>y a p x. c_pcb (cl s c) = Some q \<and> c_hooks (cl s c) = Some y \<and> bs_handshake_done y \<and> bs_ssl y = Some a \<and> bs_pcb y = Some p
       \<and> distinct (map fst (es_pcbs s)) \<and> find_ssl_pcb p (pack s) = Some (a, x)
       \<and> sp_pump x = ENGINE_PUMP_DROPPED \<and> sp_handshake_done x \<and> sp_rx x = [] \<and> sp_pinned x = 0 \<and> \<not> sp_deferred x \<and> sp_hard x = 0
       \<and> \<not> st_closed (engine_state B x) \<and> \<not> st_sendrec (engine_state B x) \<and> \<not> st_recvapp (engine_state B x)
       \<and> e_flush B False (sp_engine x) = sp_engine x \<and> snd (e_sendrec_buf B (fst (sp_engine x))) = 0)"

text \<open>
  C30: after one refused scheduling an idle connection is never torn down. The pump that \<open>onPoll\<close> runs does not clear the mark of the refused
  wake-up, so the engine counts as busy; every poll leaves the connection as it was, whatever the time, although the poll is there to end
  connections that are idle for \<open>SSL_IDLE_RESET_MS\<close>.
\<close>

theorem dropped_pump_defeats_idle_teardown:
  assumes "idle_dropped B c q s"
  shows "\<exists>s'. bear_onPoll B E (\<lambda>s. s) cb c s = Some (False, s') \<and> idle_dropped B c q s'"
proof -
  obtain y a p x where y: "c_pcb (cl s c) = Some q" "c_hooks (cl s c) = Some y" "bs_handshake_done y" "bs_ssl y = Some a" "bs_pcb y = Some p"
    and d: "distinct (map fst (es_pcbs s))" and f: "find_ssl_pcb p (pack s) = Some (a, x)"
    and x: "sp_pump x = ENGINE_PUMP_DROPPED" "sp_handshake_done x" "sp_rx x = []" "sp_pinned x = 0" "\<not> sp_deferred x" "sp_hard x = 0"
    and e: "\<not> st_closed (engine_state B x)" "\<not> st_sendrec (engine_state B x)" "\<not> st_recvapp (engine_state B x)"
      "e_flush B False (sp_engine x) = sp_engine x" "snd (e_sendrec_buf B (fst (sp_engine x))) = 0"
    using assms unfolding idle_dropped_def by blast
  define z where "z = x\<lparr>sp_acked := 0, sp_body := True\<rparr>"
  define s1 where "s1 = bs_sentAck B E c 0 s"
  have sess: "bsess s c = y" using y(2) by (simp add: bsess_def)
  have s1: "clients s1 = clients s" "map fst (es_pcbs s1) = map fst (es_pcbs s)" "find_ssl_pcb p (pack s1) = Some (a, z)"
    using sent_nothing [OF _ d f x(2,4,5) e(2), of c E] y(5) by (simp_all add: s1_def z_def sess)
  then have at: "pcb_at (pack s1) a = Some z" using find_in_map_of [of "es_pcbs s1" p a z] d by (simp add: pcb_at_def find_ssl_pcb_def)
  have zx: "sp_handshake_done z" "sp_rx z = []" "\<not> st_closed (engine_state B z)" "\<not> st_sendrec (engine_state B z)"
    "\<not> st_recvapp (engine_state B z)" "e_flush B False (sp_engine z) = sp_engine z" "snd (e_sendrec_buf B (fst (sp_engine z))) = 0"
    using x e by (simp_all add: z_def engine_state_def)
  have "bs_ssl (bsess s1 c) = Some a" using y(2,4) s1(1) by (simp add: bsess_def)
  then obtain r s2 where pump: "bs_pump B E (\<lambda>s. s) cb c s1 = Some (r, s2)" and s2: "clients s2 = clients s" "es_pcbs s2 = es_pcbs s1"
    using quiet_session_pump [OF _ at _ zx, of c E cb] d s1(1,2) by auto
  have f2: "find_ssl_pcb p (pack s2) = Some (a, z)" "pcb_at (pack s2) a = Some z"
    using s1(3) at s2(2) by (simp_all add: find_ssl_pcb_def pcb_at_def)
  have busy: "bs_engineBusy c s2" using y s2(1) f2 x(1) by (simp add: bs_engineBusy_def bsess_def z_def)
  have st: "\<not> bs_isStalled E c SSL_STALL_RESET_MS s2"
    using y s2(1) f2 x(6) by (simp add: bs_isStalled_def bsess_def tcp_ssl_is_stalled_def z_def)
  have poll: "bear_onPoll B E (\<lambda>s. s) cb c s = Some (False, s2)"
    using y pump st busy by (simp add: bear_onPoll_def bsess_def s1_def [symmetric] idle_connection_def Let_def)
  have "distinct (map fst (es_pcbs s2))" using d s1(2) s2(2) by simp
  then have "idle_dropped B c q s2"
    unfolding idle_dropped_def s2(1)
    using y f2(1) x zx by (intro exI [of _ y] exI [of _ a] exI [of _ p] exI [of _ z]) (simp add: z_def)
  with poll show ?thesis by blast
qed

theorem dropped_pump_defeats_idle_teardown_witness:
  "\<exists>s'. bear_onPoll (toy_bear\<lparr>e_sendrec_buf := (\<lambda>_. (0, 0))\<rparr>) (calm\<lparr>millis := (\<lambda>_. 4000000)\<rparr>) (\<lambda>s. s) (\<lambda>_ _ s. Some s) 1
      (esp_client ((init_ssl_pcb toy_bear ([], []) 7 True)\<lparr>sp_pump := ENGINE_PUMP_DROPPED, sp_handshake_done := True\<rparr>) True)
    = Some (False, s') \<and> c_pcb (cl s' 1) = Some 7"
proof -
  let ?B = "toy_bear\<lparr>e_sendrec_buf := (\<lambda>_. (0, 0))\<rparr>"
  let ?x = "(init_ssl_pcb toy_bear ([], []) 7 True)\<lparr>sp_pump := ENGINE_PUMP_DROPPED, sp_handshake_done := True\<rparr>"
  let ?s = "esp_client ?x True"
  have s: "c_hooks (cl ?s 1) = Some ((hook_session new_bsession)\<lparr>bs_pcb := Some 7, bs_ssl := Some 100, bs_handshake_done := True\<rparr>)"
    "es_pcbs ?s = [(100, ?x)]" "c_pcb (cl ?s 1) = Some 7" by (simp_all add: esp_client_def upd_def)
  have tcp: "sp_tcp ?x = 7" by (simp add: init_ssl_pcb_def)
  have "idle_dropped ?B 1 7 ?s"
    unfolding idle_dropped_def s(1,3)
    by (intro exI [of _ "(hook_session new_bsession)\<lparr>bs_pcb := Some 7, bs_ssl := Some 100, bs_handshake_done := True\<rparr>"] exI [of _ 100]
        exI [of _ 7] exI [of _ ?x])
      (simp add: s(2) find_ssl_pcb_def tcp, simp add: init_ssl_pcb_def engine_state_def toy_bear_def)
  from dropped_pump_defeats_idle_teardown [OF this] show ?thesis by (auto simp: idle_dropped_def)
qed

text \<open>
  Admission, from any state in which the allocator gives no block from now on whose address a connection of the engine layer has. Theory
  \<open>Bear_World\<close> states it of the reachable states.
\<close>

lemma admission:
  assumes "es_ctx s v" and "sv_connect_cb (servers s v) = Some h" and "tcp_ssl_client_count (pack s) \<le> BEAR_MAX_CONNECTIONS"
    and fresh: "\<And>u. fst (new_block B (trace s @ u)) \<notin> fst ` set (es_pcbs s)"
  shows "\<exists>r s'. bear_onAccept B E cb g v p e s = Some (Some r, s') \<and> tcp_ssl_client_count (pack s') \<le> BEAR_MAX_CONNECTIONS
    \<and> (r = ERR_ABRT \<longleftrightarrow> bear_busy B E (log (Tcp_nagle p True) s))
    \<and> (if served v p s s'
        then r = ERR_OK \<and> tcp_ssl_client_count (pack s) = 0 \<and> free_heap E (trace s @ [Tcp_nagle p True]) \<ge> SSL_PRESSURE_FLOOR
          \<and> max_block E (trace s @ [Tcp_nagle p True]) \<ge> SSL_SERVE_BLOCK B
        else es_pcbs s' = es_pcbs s
          \<and> (\<exists>u. trace s' = trace s @ u \<and> (if r = ERR_ABRT then Tcp_abort p else Tcp_close p) \<in> set u))"
proof -
  define t where "t = log (Tcp_nagle p True) s"
  have t: "es_ctx t v" "sv_connect_cb (servers t v) = Some h" "es_pcbs t = es_pcbs s" "trace t = trace s @ [Tcp_nagle p True]"
    "next_cid t = next_cid s" using assms(1,2) by (simp_all add: t_def)
  have cnt: "tcp_ssl_client_count (pack t) = tcp_ssl_client_count (pack s)" by (simp add: tcp_ssl_client_count_def t(3))
  have ns: "\<not> served v p s s'" if "es_pcbs s' = es_pcbs s" for s' using that by (auto simp: served_def)
  show ?thesis
  proof (cases "bear_busy B E t")
    case True
    then have "bear_onAccept B E cb g v p e s = Some (Some ERR_ABRT, log (Tcp_abort p) t)"
      using assms(1) t(1,2) by (simp add: bear_onAccept_def bear_acceptTls_def t_def [symmetric])
    then show ?thesis using True ns [of "log (Tcp_abort p) t"] cnt assms(3) t(3,4)
      by (simp add: t_def [symmetric]) (simp add: tcp_ssl_client_count_def t(3))
  next
    case False
    then have lt: "tcp_ssl_client_count (pack t) < BEAR_MAX_CONNECTIONS" by (simp add: bear_busy_def)
    obtain r s' where r: "bear_serveTls B E cb g v p t = Some (r, s')"
      and o: "served v p t s' \<or> es_pcbs s' = es_pcbs t
         \<and> (\<exists>u. trace s' = trace t @ u \<and> count_list u (Tcp_close p) \<ge> (if alloc_ok E (trace t) then 2 else 1))"
      using serve_outcome [OF lt t(1), of B E cb g p] fresh t(3,4) by auto
    have acc: "bear_onAccept B E cb g v p e s = Some (Some ERR_OK, s')"
      using assms(1) t(1,2) False r by (simp add: bear_onAccept_def bear_acceptTls_def t_def [symmetric])
    have sv: "served v p t s' = served v p s s'" by (simp add: served_def t(3,5))
    show ?thesis
    proof (cases "served v p s s'")
      case True
      then have "tcp_ssl_client_count (pack s') = Suc (tcp_ssl_client_count (pack s))"
        by (auto simp: served_def tcp_ssl_client_count_def)
      then show ?thesis using acc True False lt cnt t(4)
        by (simp add: t_def [symmetric]) (simp add: BEAR_MAX_CONNECTIONS_def bear_busy_def not_less t(4))
    next
      case ns: False
      then obtain u where u: "es_pcbs s' = es_pcbs t" "trace s' = trace t @ u" "count_list u (Tcp_close p) \<ge> 1"
        using o sv by (auto split: if_splits)
      then have "Tcp_close p \<in> set u" using count_notin [of "Tcp_close p" u] by fastforce
      moreover have "tcp_ssl_client_count (pack s') = tcp_ssl_client_count (pack s)" by (simp add: tcp_ssl_client_count_def u(1) t(3))
      ultimately show ?thesis using acc ns False assms(3) u t(3,4) by (simp add: t_def [symmetric])
    qed
  qed
qed

text \<open>A listening TLS server with a handler, and a connection that lwIP offers it.\<close>

definition esp_listening :: "'e esys" where
  "esp_listening = (upd_server 0 (\<lambda>x. x\<lparr>sv_connect_cb := Some 4\<rparr>) esp_boot)\<lparr>es_ctx := (\<lambda>v. v = 0)\<rparr>"

lemma esp_listening_simps:
  "es_ctx esp_listening 0" "sv_connect_cb (servers esp_listening 0) = Some 4" "es_pcbs esp_listening = []" "trace esp_listening = []"
  by (simp_all add: esp_listening_def esp_boot_def upd_server_def)

text \<open>
  C28: when the objects of an admitted connection cannot be made, its pcb is closed twice. The client that was made for it is deleted, which closes
  the pcb, and \<open>_serveTls\<close> then closes the pcb again. The answer to lwIP is that the connection was accepted.
\<close>

theorem failed_setup_closes_twice:
  assumes "es_ctx s v" and "sv_connect_cb (servers s v) = Some h" and "\<not> bear_busy B E (log (Tcp_nagle p True) s)"
    and "\<And>u. fst (new_block B (trace s @ u)) \<notin> fst ` set (es_pcbs s)"
    and "alloc_ok E (trace s @ [Tcp_nagle p True])" and "bear_onAccept B E cb g v p e s = Some (r, s')" and "es_pcbs s' = es_pcbs s"
  shows "r = Some ERR_OK \<and> (\<exists>u. trace s' = trace s @ u \<and> count_list u (Tcp_close p) \<ge> 2)"
proof -
  define t where "t = log (Tcp_nagle p True) s"
  have t: "es_ctx t v" "sv_connect_cb (servers t v) = Some h" "es_pcbs t = es_pcbs s" "trace t = trace s @ [Tcp_nagle p True]"
    using assms(1,2) by (simp_all add: t_def)
  have lt: "tcp_ssl_client_count (pack t) < BEAR_MAX_CONNECTIONS" using assms(3) by (simp add: bear_busy_def t_def)
  obtain r1 s1 where r: "bear_serveTls B E cb g v p t = Some (r1, s1)"
    and o: "served v p t s1 \<or> es_pcbs s1 = es_pcbs t
       \<and> (\<exists>u. trace s1 = trace t @ u \<and> count_list u (Tcp_close p) \<ge> (if alloc_ok E (trace t) then 2 else 1))"
    using serve_outcome [OF lt t(1), of B E cb g p] assms(4) t(3,4) by auto
  have "r = Some ERR_OK \<and> s' = s1"
    using assms(1,3,6) t(1,2) r by (simp add: bear_onAccept_def bear_acceptTls_def t_def [symmetric])
  moreover from this have "\<not> served v p t s1" using assms(7) t(3) by (auto simp: served_def)
  ultimately show ?thesis using o assms(5) t(4) by auto
qed

text \<open>The memory does not suffice for the session of the connection: the third object is not there.\<close>

theorem failed_setup_closes_twice_witness:
  "\<exists>r s' u. bear_onAccept toy_bear (calm\<lparr>alloc_ok := (\<lambda>t. length t < 4)\<rparr>) (\<lambda>_ _ s. Some s) 0 0 7 ERR_OK esp_listening = Some (r, s')
    \<and> trace s' = u \<and> count_list u (Tcp_close 7) \<ge> 2"
proof -
  let ?E = "calm\<lparr>alloc_ok := (\<lambda>t. length t < 4)\<rparr>" and ?cb = "\<lambda>_ _ s. Some s :: u8 list esys option"
  have nb: "\<not> bear_busy toy_bear ?E (log (Tcp_nagle 7 True) esp_listening)"
    by (simp add: bear_busy_def tcp_ssl_client_count_def esp_listening_simps BEAR_MAX_CONNECTIONS_def SSL_PRESSURE_FLOOR_def SSL_SERVE_BLOCK_def
        SSL_SERVER_IN_BUFFER_SIZE_def toy_bear_def calm_def)
  have c: "tcp_ssl_client_count (pack (esp_listening :: u8 list esys)) \<le> BEAR_MAX_CONNECTIONS"
    by (simp add: tcp_ssl_client_count_def esp_listening_simps)
  define u where "u = log New_object (log (Tcp_nagle 7 True) (esp_listening :: u8 list esys))"
  define s3 where "s3 = log New_object (new_client ?E 0 (next_cid u) (Some 7) (u\<lparr>next_cid := Suc (next_cid u)\<rparr>))"
  obtain s' where g: "give_up toy_bear ?E ?cb (next_cid u) 7 s3 = Some (None, s')" "es_pcbs s' = es_pcbs s3"
    using fresh_client [of s3 "next_cid u" ?E 0 7 "u\<lparr>next_cid := Suc (next_cid u)\<rparr>" toy_bear ?cb] by (auto simp: s3_def)
  have tr: "length (trace (new_client ?E 0 c (Some 7) (u\<lparr>next_cid := n\<rparr>))) = 7" for c n
    by (simp add: new_client_def bind_tcp_callbacks_def set_pcb_def u_def esp_listening_simps Let_def)
  have "bear_serveTls toy_bear ?E ?cb 0 0 7 (log (Tcp_nagle 7 True) esp_listening) = Some (None, s')"
    using nb g(1) tr
    by (simp add: bear_serveTls_def bear_busy_def new_object_def u_def [symmetric] Let_def s3_def [symmetric])
      (simp add: u_def esp_listening_simps)
  then have r: "bear_onAccept toy_bear ?E ?cb 0 0 7 ERR_OK esp_listening = Some (Some ERR_OK, s')"
    using nb by (simp add: bear_onAccept_def bear_acceptTls_def esp_listening_simps)
  have e: "es_pcbs s' = es_pcbs (esp_listening :: u8 list esys)" unfolding g(2) by (simp add: s3_def u_def)
  have "alloc_ok ?E (trace (esp_listening :: u8 list esys) @ [Tcp_nagle 7 True])" by (simp add: esp_listening_simps)
  from failed_setup_closes_twice [OF esp_listening_simps(1,2) nb _ this r e] show ?thesis
    using r by (auto simp: esp_listening_simps(3,4))
qed

text \<open>
  C27: when the peer resets a connection, the session writes to a pcb that lwIP has freed. \<open>onError\<close> closes the session, as its comment says
  without effect as the connection is gone; but the engine layer still knows the connection, and takes its leave with an alert.
\<close>

theorem reset_writes_to_freed_pcb:
  assumes "c_pcb (cl s c) = Some p" and "c_hooks (cl s c) = Some y" and "bs_pcb y = Some p" and "find_ssl_pcb p (pack s) = Some (a, x)"
    and "\<not> st_closed (engine_state B x)" and "\<not> st_sendrec (engine_state B x)"
    and "e_flush B False (sp_engine x) = sp_engine x" and "snd (e_sendrec_buf B (fst (sp_engine x))) = 0"
    and "e_sendrec_buf B (fst (e_close B (sp_engine x))) = (off, len)" and "0 < len" and "len \<le> out_size B"
  shows "\<exists>s'. tcp_error E (bear_hooks B E Y cb) c e s = Some s' \<and> c_pcb (cl s' c) = None
    \<and> (\<exists>u. trace s' = trace s @ Tcp_write p (take len (drop off (snd (e_close B (sp_engine x))))) 1 # u)"
proof -
  have tcp: "sp_tcp x = p" using assms(4) find_in_tcp by (simp add: find_ssl_pcb_def)
  have x: "x\<lparr>sp_engine := sp_engine x\<rparr> = x" by simp
  obtain off0 where buf0: "e_sendrec_buf B (fst (sp_engine x)) = (off0, 0)" using assms(8) by (metis prod.collapse)
  have first: "(if st_sendapp (engine_state B x) then push_copy B E (x\<lparr>sp_engine := e_flush B False (sp_engine x)\<rparr>) (trace s)
      else (False, 0, x, trace s)) = (False, 0, x, trace s)"
    unfolding assms(7) x by (simp add: push_copy_def buf0)
  let ?w = "Tcp_write p (take len (drop off (snd (e_close B (sp_engine x))))) 1"
  have "\<exists>stop n y. push_copy B E (x\<lparr>sp_engine := e_close B (sp_engine x)\<rparr>) (trace s) = (stop, n, y, trace s @ [?w])"
    by (cases "write_ret E (trace s) p = ERR_OK") (use assms(9-11) tcp in \<open>auto simp: push_copy_def Let_def\<close>)
  then obtain stop n y where last: "push_copy B E (x\<lparr>sp_engine := e_close B (sp_engine x)\<rparr>) (trace s) = (stop, n, y, trace s @ [?w])"
    by blast
  have "close_steps B E x (trace s) = (n, y, if n > 0 then (trace s @ [?w]) @ [Tcp_output (sp_tcp y)] else trace s @ [?w])"
    unfolding close_steps_def first prod.case using assms(5,6) last by simp
  then obtain n y u where c: "close_steps B E x (trace s) = (n, y, trace s @ ?w # u)" by (cases "n > 0") auto
  let ?free = "\<lambda>b :: 'a bx. snd (tcp_ssl_free p (snd (tcp_ssl_close B E p b)))"
  have "\<exists>u. trace (engine_do ?free s) = trace s @ Tcp_write p (take len (drop off (snd (e_close B (sp_engine x))))) 1 # u"
    using assms(4) c by (auto simp: engine_do_def tcp_ssl_close_def tcp_ssl_free_def free_rx_pend_def split: option.split)
  then obtain s1 u1 where s1: "bs_close B E c s = s1" "trace s1 = trace s @ Tcp_write p (take len (drop off (snd (e_close B (sp_engine x))))) 1 # u1"
    using assms(2,3) by (auto simp: bs_close_def bsess_def upd_bsess_def)
  then have "tcp_error E (bear_hooks B E Y cb) c e s
      = Some (snd (queue_packet E (client_packet (LWIP_TCP_ERROR e) c) (set_pcb c None (snd (remove_events c s1)))))"
    using assms(1,2) by (simp add: tcp_error_def bear_hooks_def bear_onError_def)
  then show ?thesis
    using s1(2) by (simp add: queue_packet_def new_object_def send_event_def send_async_event_def wake_def schedule_process_def
        remove_events_eq set_pcb_def)
qed

theorem reset_writes_to_freed_pcb_witness:
  "\<exists>s'. tcp_error calm (bear_hooks (toy_bear\<lparr>e_sendrec_buf := (\<lambda>e. (0, length e)), e_close := (\<lambda>(e, m). ([1, 0], m))\<rparr>) calm (\<lambda>s. s)
      (\<lambda>_ _ s. Some s)) 1 ERR_RST (esp_client (init_ssl_pcb toy_bear ([], [21, 3, 3]) 7 False) True) = Some s'
    \<and> Tcp_write 7 [21, 3] 1 \<in> set (trace s')"
proof -
  let ?B = "toy_bear\<lparr>e_sendrec_buf := (\<lambda>e. (0, length e)), e_close := (\<lambda>(e, m). ([1, 0], m))\<rparr>"
  let ?x = "init_ssl_pcb toy_bear ([], [21, 3, 3]) 7 False"
  let ?s = "esp_client ?x True"
  have s: "c_hooks (cl ?s 1) = Some ((hook_session new_bsession)\<lparr>bs_pcb := Some 7, bs_ssl := Some 100, bs_handshake_done := True\<rparr>)"
    "es_pcbs ?s = [(100, ?x)]" "c_pcb (cl ?s 1) = Some 7" by (simp_all add: esp_client_def upd_def)
  have "sp_tcp ?x = 7" by (simp add: init_ssl_pcb_def)
  then have f: "find_ssl_pcb 7 (pack ?s) = Some (100, ?x)" by (simp add: find_ssl_pcb_def s)
  have e: "sp_engine (init_ssl_pcb B m 7 False) = m" for B :: "u8 list bear" and m by (simp add: init_ssl_pcb_def)
  have "\<exists>s'. tcp_error calm (bear_hooks ?B calm (\<lambda>s. s) (\<lambda>_ _ s. Some s)) 1 ERR_RST ?s = Some s' \<and> c_pcb (cl s' 1) = None
    \<and> (\<exists>u. trace s' = trace ?s @ Tcp_write 7 (take 2 (drop 0 (snd (e_close ?B (sp_engine ?x))))) 1 # u)"
    by (rule reset_writes_to_freed_pcb [OF s(3,1) _ f]) (simp_all add: e toy_bear_def engine_state_def)
  then show ?thesis by (auto simp: e)
qed

text \<open>
  C31: closing a session ends its connection in the engine layer and no other. The chains that were received and not yet fed are freed, each
  once, the session forgets both pcbs and its handshake, and every other connection is untouched.
\<close>

theorem session_close_releases:
  assumes "c_hooks (cl s c) = Some y" and "bs_pcb y = Some p" and "find_ssl_pcb p (pack s) = Some (a, x)" and "distinct (map fst (es_pcbs s))"
  shows "pcb_at (pack (bs_close B E c s)) b = (if b = a then None else pcb_at (pack s) b)
    \<and> (\<exists>u. trace (bs_close B E c s) = trace s @ u @ map Pbuf_free (sp_rx x) \<and> (\<forall>ch. Pbuf_free ch \<notin> set u))
    \<and> c_hooks (cl (bs_close B E c s) c) = Some (y\<lparr>bs_pcb := None, bs_ssl := None, bs_handshake_done := False\<rparr>)"
proof -
  obtain n z t where c: "close_steps B E x (trace s) = (n, z, t)" by (metis prod_cases3)
  let ?free = "\<lambda>b :: 'a bx. snd (tcp_ssl_free p (snd (tcp_ssl_close B E p b)))"
  let ?l = "map (\<lambda>(b, y). (b, if b = a then z else y)) (es_pcbs s)"
  have z: "sp_tcp z = sp_tcp x" "sp_rx z = sp_rx x" using close_frame [OF c] by (simp_all add: same_frame_def)
  have f: "find_in p (es_pcbs s) = Some (a, x)" using assms(3) by (simp add: find_ssl_pcb_def)
  have fu: "find_in p ?l = Some (a, z)" by (rule find_in_upd [OF assms(4) f z(1)])
  have d: "distinct (map fst ?l)" using assms(4) by (simp add: comp_def split_def)
  have r: "remove_in p ?l = filter (\<lambda>(b, y). b \<noteq> a) ?l" by (rule remove_in_filter [OF d fu])
  define s1 where "s1 = engine_do ?free s"
  have s1: "es_pcbs s1 = filter (\<lambda>(b, y). b \<noteq> a) ?l" "trace s1 = t @ map Pbuf_free (sp_rx x)"
    using assms(3) c fu r z(2)
    by (simp_all add: s1_def engine_do_def tcp_ssl_close_def tcp_ssl_free_def find_ssl_pcb_def upd_pcb_def free_rx_pend_def)
  have k1: "clients s1 = clients s"
    unfolding s1_def by (rule engine_do_frames(1)) (rule bstep_trans [OF bstep_close bstep_ops(4)])
  have cl: "bs_close B E c s = upd_bsess c (\<lambda>x. x\<lparr>bs_pcb := None, bs_ssl := None, bs_handshake_done := False\<rparr>) s1"
    using assms(1,2) by (simp add: bs_close_def bsess_def s1_def)
  have e: "es_pcbs (bs_close B E c s) = es_pcbs s1" "trace (bs_close B E c s) = trace s1" by (simp_all add: cl upd_bsess_def)
  have "pcb_at (pack (bs_close B E c s)) b = (if b = a then None else pcb_at (pack s) b)"
    by (simp add: pcb_at_def e s1(1) map_of_others)
  moreover obtain u where "t = trace s @ u" "\<forall>ch. Pbuf_free ch \<notin> set u" using close_writes [OF c] by (fastforce simp: own_write_def list_all_iff)
  ultimately show ?thesis using assms(1) k1 s1(2) e by (simp add: cl upd_bsess_def)
qed

theorem session_close_releases_witness:
  "pcb_at (pack (bs_close toy_bear calm 1 (esp_client (init_ssl_pcb toy_bear ([], []) 7 False) True))) 100 = None"
proof -
  let ?x = "init_ssl_pcb toy_bear ([], []) 7 False"
  have "find_ssl_pcb 7 (pack (esp_client ?x True)) = Some (100, ?x)" using esp_client_simps [of ?x True] by (simp add: find_ssl_pcb_def init_ssl_pcb_def)
  from session_close_releases [OF esp_client_simps(1) _ this, of toy_bear calm 100] show ?thesis by (simp add: esp_client_simps)
qed

text \<open>
  The client of a TLS connection whose handshake does not succeed is never deleted. Whatever ends the connection, the error of the engine, the
  handshake timeout or a lost peer, goes through \<open>close\<close>; the client then has no pcb and no event, it is alive, and no callback of the
  application was told of it, as the application sees a client first when the handshake is done. Nothing else in the library holds it.
\<close>

theorem failed_handshake_leaks_client:
  assumes "unfinished (cl s c)" and "c_pcb (cl s c) = Some p" and "c_hooks (cl s c) = Some y"
  shows "\<exists>s'. close E (leaf_bear B E) cb c s = Some s' \<and> unfinished (cl s' c) \<and> c_pcb (cl s' c) = None \<and> events_of c (queue s') = []
    \<and> (\<exists>u. trace s' = trace s @ u \<and> list_all (\<lambda>x. \<not> app_call x) u)"
proof -
  define s1 where "s1 = upd c (\<lambda>k. k\<lparr>c_rx_ack_len := 0\<rparr>) (clear_token c s)"
  define n where "n = c_rx_ack_len (cl s c) + (\<Sum>x \<leftarrow> c_cb_ctx (cl s c). ucast (ack_len x))"
  define s2 where "s2 = (if n \<noteq> 0 then log (Tcp_recved p n) s1 else s1)"
  have s2: "cl s2 c = (cl s c)\<lparr>c_dns_token := None, c_rx_ack_len := 0\<rparr>" "\<exists>u. trace s2 = trace s @ u \<and> list_all (\<lambda>x. \<not> app_call x) u"
    by (simp_all add: s2_def s1_def clear_token_def app_call_def)
  define s3 where "s3 = bs_close B E c s2"
  have l: "leaf_step s2 s3" unfolding s3_def by (rule leaf_bs_close)
  obtain h where h: "cl s3 c = (cl s2 c)\<lparr>c_hooks := h\<rparr>" using l unfolding leaf_step_def by blast
  define s4 where "s4 = set_pcb c None (close_or_abort E p (reset_tcp_callbacks p (Some c) s3))"
  have p1: "c_pcb (cl s1 c) = Some p" using assms(2) by (simp add: s1_def clear_token_def)
  have c3: "cl s3 c = (cl s c)\<lparr>c_dns_token := None, c_rx_ack_len := 0, c_hooks := h\<rparr>" using h s2(1) by simp
  have "tcp_close E c s3 = (ERR_OK, s4)" using assms(2) c3 by (simp add: tcp_close_Some s4_def)
  then have "close_impl E (leaf_bear B E) cb c s2 = Some (ERR_OK, s4)"
    using assms s2(1) c3
    by (simp add: close_impl_def leaf_bear_def closing_bear_def bear_onClosing_def s3_def [symmetric] call_app_def unfinished_def s4_def)
  moreover have "close E (leaf_bear B E) cb c s = map_option snd (close_impl E (leaf_bear B E) cb c s2)"
    using p1 assms(2) by (simp add: close_def tcp_recved_eq tcp_recved_api_def s2_def s1_def n_def clear_token_def Let_def)
  ultimately have run: "close E (leaf_bear B E) cb c s = Some s4" by simp
  have k4: "cl s4 c = (cl s3 c)\<lparr>c_pcb := None\<rparr>" "queue s4 = filter (\<lambda>e. ev_impl e \<noteq> Some c) (queue s3)"
    by (simp_all add: s4_def)
  have f: "list_all (\<lambda>x. \<not> app_call x) (concat (map free_event es))" for es
    by (induction es) (simp_all add: free_event_def app_call_def)
  have t4: "\<exists>u. trace s4 = trace s3 @ u \<and> list_all (\<lambda>x. \<not> app_call x) u"
    by (simp add: s4_def f) (simp add: app_call_def)
  show ?thesis
    using run k4 h s2(1) assms(1) quiet_trans [OF quiet_trans [OF s2(2) close_is_quiet [of B E c s2, folded s3_def]] t4]
    by (auto simp: unfinished_def events_of_def)
qed

theorem failed_handshake_leaks_client_witness:
  "\<exists>s'. close calm (leaf_bear toy_bear calm) (\<lambda>_ _ s. None) 1 (esp_client (init_ssl_pcb toy_bear ([], []) 7 True) False) = Some s'
    \<and> unfinished (cl s' 1) \<and> c_pcb (cl s' 1) = None"
proof -
  have "unfinished (cl (esp_client (init_ssl_pcb toy_bear ([], []) 7 True) False) 1)"
    by (simp add: esp_client_def esp_boot_def init_client_def unfinished_def upd_def)
  from failed_handshake_leaks_client [OF this esp_client_simps(3,1), of calm toy_bear "\<lambda>_ _ s. None"] show ?thesis by blast
qed

end
