(* ===== verification/Bear_World.thy ===== *)
theory Bear_World
  imports Bear_Properties Keeping
begin

text \<open>
  The connections of the engine layer in the whole ESP8266 system: the invariant of theory \<open>Bear_Laws\<close> and how many connections there
  are, kept by every step, with the callbacks of the application running in the middle of the pump.
\<close>

section \<open>Which connections there are\<close>

text \<open>
  An address is that of a block which the allocator gave out earlier in the run; the thunk counts the connections and the contexts of the
  servers, each of which pins it for good; and a server has at most its share of connections.
\<close>

definition born :: "'e bear \<Rightarrow> call list \<Rightarrow> addr set" where
  "born B t = {fst (new_block B u) | u v. t = u @ v \<and> v \<noteq> []}"

definition contexts :: "'e esys \<Rightarrow> sid set" where
  "contexts s = {v. es_ctx s v}"

definition addrs :: "('e, 'm) bsys_scheme \<Rightarrow> addr set" where
  "addrs b = fst ` set (ids b)"

definition counted :: "'e bear \<Rightarrow> 'e bx \<Rightarrow> bool" where
  "counted B b \<longleftrightarrow> addrs b \<subseteq> born B (b_trace b) \<and> finite (contexts (bx_sys b)) \<and> b_thunk b = card (contexts (bx_sys b)) + length (ids b)
     \<and> tcp_ssl_client_count b \<le> BEAR_MAX_CONNECTIONS"

abbreviation engine_ok :: "'e bear \<Rightarrow> 'e bx \<Rightarrow> bool" where
  "engine_ok B \<equiv> bear_with B (counted B)"

text \<open>
  An allocator that gives no address twice in a run: the address is the identity of the allocation, as in a memory model of blocks.
\<close>

definition fresh_blocks :: "'e bear \<Rightarrow> bool" where
  "fresh_blocks B \<longleftrightarrow> (\<forall>u v. v \<noteq> [] \<longrightarrow> fst (new_block B (u @ v)) \<noteq> fst (new_block B u))"

lemma born_more: "born B t \<subseteq> born B (t @ u)"
  unfolding born_def by auto

lemma born_now: "v \<noteq> [] \<Longrightarrow> fst (new_block B t) \<in> born B (t @ v)"
  unfolding born_def by blast

lemma not_born: "fresh_blocks B \<Longrightarrow> fst (new_block B t) \<notin> born B t"
  unfolding born_def fresh_blocks_def by auto

lemma addrs_pcbs: "addrs b = fst ` set (b_pcbs b)"
  by (force simp: addrs_def ids_def)

lemma addrs_alive: "is_alive b a \<longleftrightarrow> a \<in> addrs b"
  unfolding addrs_pcbs is_alive_def pcb_at_def by (metis domIff dom_map_of_conv_image_fst)

lemma client_count_ids: "tcp_ssl_client_count b = length (filter snd (ids b))"
proof -
  have "length (filter (\<lambda>(a, x). sp_server x) l) = length (filter snd (map (\<lambda>(a, x). (a, sp_server x)) l))" for l :: "(addr \<times> 'a ssl_pcb) list"
    by (induction l) auto
  then show ?thesis by (simp add: tcp_ssl_client_count_def ids_def)
qed

lemma counted_same:
  assumes "counted B b" and "same_ids b b'"
  shows "counted B b'"
proof -
  obtain t where t: "b_trace b' = b_trace b @ t" using assms(2) by (auto simp: same_ids_def)
  then have "born B (b_trace b) \<subseteq> born B (b_trace b')" using born_more by simp
  moreover have "bx_sys b' = bx_sys b" using assms(2) by (cases b, cases b') (simp add: same_ids_def)
  ultimately show ?thesis using assms by (auto simp: counted_def same_ids_def client_count_ids addrs_def)
qed

lemma ok_same: "engine_ok B b \<Longrightarrow> bear_inv B b' \<Longrightarrow> same_ids b b' \<Longrightarrow> engine_ok B b'"
  by (auto simp: bear_with_def intro: counted_same)

text \<open>The same connections in another state.\<close>

lemma ok_moved:
  assumes "engine_ok B b" and "b_pcbs b' = b_pcbs b" "b_sched b' = b_sched b" "b_thunk b' = b_thunk b" "b_trace b' = b_trace b @ t"
    and "es_ctx (bx_sys b') = es_ctx (bx_sys b)"
  shows "engine_ok B b'"
proof -
  have "bear_inv B b'" using assms by (simp add: bear_with_def bear_inv_def pcb_at_def)
  moreover have "counted B b'"
    using assms born_more [of B "b_trace b" t] by (auto simp: bear_with_def counted_def contexts_def addrs_pcbs ids_def tcp_ssl_client_count_def)
  ultimately show ?thesis by (simp add: bear_with_def)
qed

lemma ok_alive: "engine_ok B b \<Longrightarrow> fresh_blocks B \<Longrightarrow> \<not> is_alive b (fst (new_block B (b_trace b)))"
proof
  assume ok: "engine_ok B b" "fresh_blocks B" and al: "is_alive b (fst (new_block B (b_trace b)))"
  then show False using not_born [OF ok(2), of "b_trace b"] addrs_alive [of b] by (auto simp: bear_with_def counted_def)
qed

section \<open>The operations of the layer\<close>

lemma same_then:
  "same_ids a s \<Longrightarrow> distinct (map fst (b_pcbs s)) \<Longrightarrow> same_ids a (snd (schedule_ssl_engine E x s))"
  by (rule same_ids_trans [OF _ same_ids_schedule])

lemma ack_ring_server: "sp_server (ack_ring B k x) = sp_server x"
proof -
  have "sp_server (release_slots B y) = sp_server y" for y
  proof (induction B y rule: release_slots.induct)
    case (1 B x)
    then show ?case by (subst release_slots.simps) (auto simp: Let_def)
  qed
  then show ?thesis by (simp add: ack_ring_def Let_def)
qed

lemma same_ids_ops:
  assumes "bear_inv B b"
  shows "same_ids b (tcp_ssl_sent B E p k b)" "same_ids b (snd (tcp_ssl_write B E p d b))" "same_ids b (snd (tcp_ssl_read E p ch b))"
    "same_ids b (snd (tcp_ssl_close B E p b))"
proof -
  have d: "distinct (map fst (b_pcbs b))" using assms by (simp add: bear_inv_def)
  have u: "same_ids b (upd_pcb a f b)" if "\<And>x. sp_server (f x) = sp_server x" for a f
    by (rule same_ids_upd [OF d]) (rule that)
  have "same_ids b (upd_pcb a (ack_ring B k) b)" for a by (rule u) (rule ack_ring_server)
  then show "same_ids b (tcp_ssl_sent B E p k b)"
    using d by (auto simp: tcp_ssl_sent_def Let_def intro!: same_then split: option.split)
  show "same_ids b (snd (tcp_ssl_write B E p d b))" for d
    using u d by (auto simp: tcp_ssl_write_def Let_def intro!: same_then split: option.split prod.split)
  show "same_ids b (snd (tcp_ssl_read E p ch b))"
    using u d by (auto simp: tcp_ssl_read_def intro!: same_then split: option.split)
  show "same_ids b (snd (tcp_ssl_close B E p b))"
  proof (cases "find_ssl_pcb p b")
    case (Some ax)
    obtain a x where ax: "ax = (a, x)" by fastforce
    obtain n y t where c: "close_steps B E x (b_trace b) = (n, y, t)" by (metis prod_cases3)
    obtain v where v: "t = b_trace b @ v" using close_trace [OF c] by blast
    have "pcb_at b a = Some x" using find_pcb_at [OF assms] Some ax by simp
    moreover have "sp_server y = sp_server x" using close_frame [OF c] by (simp add: same_frame_def)
    ultimately have "same_ids b (upd_pcb a (\<lambda>_. y) b)" by (intro same_ids_upd [OF d]) auto
    then have "same_ids b ((upd_pcb a (\<lambda>_. y) b)\<lparr>b_trace := b_trace (upd_pcb a (\<lambda>_. y) b) @ v\<rparr>)"
      by (rule same_ids_trans) (simp only: same_ids_simps)
    then show ?thesis using Some ax c v by (simp add: tcp_ssl_close_def)
  qed (simp add: tcp_ssl_close_def)
qed

lemma ok_ops:
  assumes "engine_ok B b"
  shows "engine_ok B (tcp_ssl_sent B E p k b)" "engine_ok B (snd (tcp_ssl_write B E p d b))" "engine_ok B (snd (tcp_ssl_read E p ch b))"
    "engine_ok B (snd (tcp_ssl_close B E p b))"
proof -
  have i: "bear_inv B b" using assms by (simp add: bear_with_def)
  show "engine_ok B (tcp_ssl_sent B E p k b)" by (rule ok_same [OF assms sent_inv [OF i] same_ids_ops(1) [OF i]])
  show "engine_ok B (snd (tcp_ssl_write B E p d b))" by (rule ok_same [OF assms write_inv [OF i] same_ids_ops(2) [OF i]])
  show "engine_ok B (snd (tcp_ssl_read E p ch b))" by (rule ok_same [OF assms read_inv [OF i] same_ids_ops(3) [OF i]])
  show "engine_ok B (snd (tcp_ssl_close B E p b))" by (rule ok_same [OF assms close_inv [OF i] same_ids_ops(4) [OF i]])
qed

lemma ok_callbacks: "engine_ok B b \<Longrightarrow> engine_ok B (register_callbacks p c b)"
proof -
  assume ok: "engine_ok B b"
  have step: "engine_ok B (on_pcb p f s)" if "engine_ok B s" "\<And>x. same_frame (f x) x" for f and s :: "'a bx"
  proof (rule ok_same [OF that(1)])
    have i: "bear_inv B s" using that(1) by (simp add: bear_with_def)
    show "bear_inv B (on_pcb p f s)" by (rule on_pcb_inv [OF i that(2)])
    have "same_ids s (upd_pcb a f s)" for a
      by (rule same_ids_upd) (use i that(2) in \<open>auto simp: bear_inv_def same_frame_def\<close>)
    then show "same_ids s (on_pcb p f s)" by (simp add: on_pcb_def split: option.split)
  qed
  show ?thesis
    unfolding register_callbacks_def tcp_ssl_err_def tcp_ssl_handshake_def tcp_ssl_data_def tcp_ssl_arg_def
    by (intro step ok) (simp_all add: same_frame_def)
qed

lemma ok_free:
  assumes ok: "engine_ok B b"
  shows "engine_ok B (snd (tcp_ssl_free p b))"
proof -
  have i: "bear_inv B (snd (tcp_ssl_free p b))" using ok free_inv by (auto simp: bear_with_def)
  have len: "find_in p l = Some (a, x) \<Longrightarrow> Suc (length (remove_in p l)) = length l" for l :: "(addr \<times> 'a ssl_pcb) list" and a x
    by (induction p l rule: remove_in.induct) (auto split: if_splits)
  have cnt: "length (filter (\<lambda>(a, x). sp_server x) (remove_in p l)) \<le> length (filter (\<lambda>(a, x). sp_server x) l)" for l :: "(addr \<times> 'a ssl_pcb) list"
    by (induction p l rule: remove_in.induct) auto
  have "counted B (snd (tcp_ssl_free p b))"
  proof (cases "find_ssl_pcb p b")
    case (Some ax)
    obtain a x where ax: "ax = (a, x)" by fastforce
    have "fst ` set (remove_in p (b_pcbs b)) \<subseteq> fst ` set (b_pcbs b)" using remove_in_set by (rule image_mono)
    moreover have "length (b_pcbs b) = Suc (length (remove_in p (b_pcbs b)))" using len [of "b_pcbs b" a x] Some ax by (simp add: find_ssl_pcb_def)
    ultimately show ?thesis
      using ok cnt [of "b_pcbs b"] Some ax
      born_more [of B "b_trace b" "map Pbuf_free (sp_rx x)"]
      by (auto simp: tcp_ssl_free_def free_rx_pend_def bear_with_def counted_def addrs_pcbs ids_def tcp_ssl_client_count_def)
  qed (use ok in \<open>simp add: tcp_ssl_free_def bear_with_def\<close>)
  with i show ?thesis by (simp add: bear_with_def)
qed

lemma ok_register:
  assumes ok: "engine_ok B b" and slots: "ring_slots B > 0" and new: "\<not> is_alive b a" and a: "a \<in> born B (b_trace b)"
    and room: "srv \<Longrightarrow> tcp_ssl_client_count b < BEAR_MAX_CONNECTIONS"
  shows "engine_ok B (tcp_ssl_register_pcb a (init_ssl_pcb B eng p srv) b)"
proof -
  have "bear_inv B (tcp_ssl_register_pcb a (init_ssl_pcb B eng p srv) b)"
    using ok by (intro register_inv [OF _ slots new]) (simp add: bear_with_def)
  moreover have "counted B (tcp_ssl_register_pcb a (init_ssl_pcb B eng p srv) b)"
    using ok a room by (auto simp: bear_with_def counted_def addrs_pcbs tcp_ssl_register_pcb_def ids_def tcp_ssl_client_count_def init_ssl_pcb_def)
  ultimately show ?thesis by (simp add: bear_with_def)
qed

section \<open>The layer under the transport\<close>

abbreviation conn_ok :: "'e bear \<Rightarrow> 'e esys \<Rightarrow> bool" where
  "conn_ok B s \<equiv> engine_ok B (pack s)"

lemma ok_unpack: "engine_ok B b \<Longrightarrow> conn_ok B (unpack b)"
  by (erule ok_moved [where t = "[]"]) simp_all

lemma ok_op: "conn_ok B s \<Longrightarrow> (\<And>b. engine_ok B b \<Longrightarrow> engine_ok B (snd (f b))) \<Longrightarrow> conn_ok B (snd (engine_op f s))"
  by (simp add: engine_op_def split_beta ok_unpack)

lemma ok_do: "conn_ok B s \<Longrightarrow> (\<And>b. engine_ok B b \<Longrightarrow> engine_ok B (f b)) \<Longrightarrow> conn_ok B (engine_do f s)"
  by (simp add: engine_do_def ok_unpack)

lemma ok_run: "engine_ok B (snd (f (pack s))) \<Longrightarrow> keeps (conn_ok B) snd (engine_run f s)"
  by (simp add: engine_run_def split_beta ok_unpack)

interpretation conn: beside "conn_ok B" for B :: "'e bear"
proof
  fix s s' :: "'e esys"
  assume ok: "conn_ok B s" and aside: "aside s s'"
  obtain t where t: "trace s' = trace s @ t" and m: "sys.more s' = sys.more s" using aside by (auto simp: aside_def)
  have "es_pcbs s' = es_pcbs s" "es_sched s' = es_sched s" "es_thunk s' = es_thunk s" "es_ctx s' = es_ctx s"
    using m by (cases s, cases s', simp)+
  then show "conn_ok B s'" by (intro ok_moved [OF ok, where t = t]) (simp_all add: t)
qed

lemma ok_upd: "conn_ok B s \<Longrightarrow> conn_ok B (upd c f s)"
  by (erule conn.beside) simp

lemma ok_bsess: "conn_ok B s \<Longrightarrow> conn_ok B (upd_bsess c f s)"
  by (simp add: upd_bsess_def ok_upd)

lemma ok_release: "conn_ok B s \<Longrightarrow> conn_ok B (engine_do (\<lambda>b. snd (tcp_ssl_free p (snd (tcp_ssl_close B E p b)))) s)"
  by (erule ok_do) (intro ok_free ok_ops)

lemma ok_session:
  assumes s: "conn_ok B s"
  shows "conn_ok B (bs_close B E c s)" "conn_ok B (bs_delete B E x s)" "conn_ok B (snd (bs_write B E c d s))"
    "conn_ok B (snd (bs_feedRx B E c pb s))" "conn_ok B (bs_sentAck B E c n s)"
proof -
  show "conn_ok B (bs_close B E c s)" unfolding bs_close_def
    by (rule ok_bsess) (simp add: s ok_release split: option.split)
  show "conn_ok B (bs_delete B E x s)" by (simp add: bs_delete_def s ok_release split: option.split)
  have "conn_ok B (snd (engine_op (tcp_ssl_write B E p d) s))" for p by (rule ok_op [OF s ok_ops(2)])
  then show "conn_ok B (snd (bs_write B E c d s))" by (simp add: bs_write_def s split_beta split: option.split)
  have "conn_ok B (snd (engine_op (tcp_ssl_read E p pb) s))" for p by (rule ok_op [OF s ok_ops(3)])
  then show "conn_ok B (snd (bs_feedRx B E c pb s))" by (simp add: bs_feedRx_def s split_beta ok_bsess split: option.split)
  have "conn_ok B (engine_do (tcp_ssl_sent B E p n) s)" for p by (rule ok_do [OF s ok_ops(1)])
  then show "conn_ok B (bs_sentAck B E c n s)" by (simp add: bs_sentAck_def s split: option.split)
qed

interpretation conn_closing: leaf_keeps "conn_ok B" "closing_bear B E" for B :: "'e bear" and E
  by unfold_locales
    (simp_all add: closing_bear_def bear_onClosing_def bear_onError_def bear_onDelete_def ok_session default_hooks_def)

lemma ok_onWrite:
  assumes cb: "runner_keeps (conn_ok B) cb" and s: "conn_ok B s"
  shows "keeps (conn_ok B) snd (bear_onWrite B E cb c d s)"
proof -
  have "keeps (conn_ok B) snd (map_option (Pair (0 :: int)) (close E (closing_bear B E) cb c s1))" if "conn_ok B s1" for s1
    by (rule keeps_map) (simp add: conn_closing.close_keeps [OF cb that])
  then show ?thesis using ok_session(3) [OF s] by (simp add: bear_onWrite_def Let_def split_beta)
qed

interpretation conn_leaf: leaf_keeps "conn_ok B" "leaf_bear B E" for B :: "'e bear" and E
  by unfold_locales
    (simp_all add: leaf_bear_def closing_bear_def bear_onClosing_def bear_onError_def bear_onDelete_def ok_session ok_onWrite)

lemma ok_fire: "runner_keeps (conn_ok B) (bear_sec_fire B E app n)"
proof (induction n)
  case (Suc n)
  have app: "keeps (conn_ok B) (\<lambda>x. x) (let s1 = log x s in exec_all E (leaf_bear B E) (bear_sec_fire B E app n) (app (trace s1)) s1)"
    if "conn_ok B s" for x s
    by (rule conn_leaf.log_exec_keeps [where app = app, OF Suc that])
  have "keeps (conn_ok B) (\<lambda>x. x) (bear_sec_fire B E app (Suc n) c e s)" if s: "conn_ok B s" for c e s
    using app [OF s] s by (cases e) (auto simp: Let_def split: option.split)
  then show ?case by (simp add: runner_keeps_def)
qed (simp add: runner_keeps_def)

section \<open>The pump, with callbacks in the middle of it\<close>

locale bear_keeps =
  fixes B :: "'e bear" and E :: lwip and Y :: "'e esys \<Rightarrow> 'e esys" and cb :: "'e erunner"
  assumes slots: "ring_slots B > 0" and fresh: "fresh_blocks B"
    and runner: "runner_keeps (conn_ok B) cb" and yields: "conn_ok B s \<Longrightarrow> conn_ok B (Y s)"
begin

lemma close_ok: "conn_ok B s \<Longrightarrow> keeps (conn_ok B) (\<lambda>x. x) (close E (leaf_bear B E) cb c s)"
  by (rule conn_leaf.close_keeps [OF runner])

lemma notify_ok: "conn_ok B s \<Longrightarrow> keeps (conn_ok B) (\<lambda>x. x) (notify cb c h mk s)"
  by (simp add: notify_def keeps_call_app [OF runner])

lemma callbacks_ok:
  assumes s: "conn_ok B s"
  shows "keeps (conn_ok B) (\<lambda>x. x) (s_data cb c d s)" "keeps (conn_ok B) (\<lambda>x. x) (s_handshake cb c s)"
    "keeps (conn_ok B) (\<lambda>x. x) (s_ssl_error B E cb c e s)"
proof -
  show "keeps (conn_ok B) (\<lambda>x. x) (s_data cb c d s)" "keeps (conn_ok B) (\<lambda>x. x) (s_handshake cb c s)"
    by (simp_all add: s_data_def s_handshake_def Let_def notify_ok ok_bsess s)
  have "conn_ok B s1 \<Longrightarrow> conn_ok B (note_freed c s s1)" for s1 by (erule conn.beside) simp
  then have "keeps (conn_ok B) (\<lambda>x. x) (notify cb c h mk s \<bind> (\<lambda>s1. close E (leaf_bear B E) cb c (note_freed c s s1)))" for h mk
    by (intro keeps_bind [OF notify_ok [OF s]] close_ok)
  then show "keeps (conn_ok B) (\<lambda>x. x) (s_ssl_error B E cb c e s)" by (simp add: s_ssl_error_def s)
qed

lemma pump_others_ok:
  assumes b: "engine_ok B b"
  shows "engine_ok B (pump_others B E Y cb x b)"
proof -
  have stuck: "engine_ok B (b\<lparr>bx_stuck := True\<rparr>)" by (rule ok_moved [OF b, where t = "[]"]) simp_all
  have u: "conn_ok B (unpack b)" by (rule ok_unpack [OF b])
  have returns: "engine_ok B (case m of None \<Rightarrow> b\<lparr>bx_stuck := True\<rparr> | Some s \<Rightarrow> pack s)" if "keeps (conn_ok B) (\<lambda>x. x) m" for m
    using that stuck by (auto split: option.split)
  show ?thesis
    using b yields [OF u] returns [OF callbacks_ok(1) [OF u]] returns [OF callbacks_ok(2) [OF u]] returns [OF callbacks_ok(3) [OF u]]
    by (simp add: pump_others_def Let_def split: call.split option.split)
qed

sublocale pump: reentrant B E "pump_others B E Y cb" "counted B"
  by unfold_locales (auto intro: pump_others_ok counted_same)

lemma new_client_ok:
  assumes b: "engine_ok B b" and nb: "new_block B (b_trace b) = (a, mem)"
  shows "engine_ok B (snd (tcp_ssl_new_client B E (pump_others B E Y cb) a mem q host b))"
proof -
  have l: "engine_ok B (blog c s)" if "engine_ok B s" for c and s :: "'e bx"
    by (rule ok_moved [OF that, where t = "[c]"]) (simp_all add: blog_def)
  let ?b = "blog New_object (blog New_object (blog New_object (blog New_object b)))"
  have ok: "engine_ok B ?b" by (intro l b)
  have "a = fst (new_block B (b_trace b))" using nb by simp
  then have new: "\<not> is_alive ?b a" and bn: "a \<in> born B (b_trace ?b)"
    using ok_alive [OF b fresh] born_now [of "[New_object, New_object, New_object, New_object]" B "b_trace b"]
    by (simp_all add: is_alive_def blog_def pcb_at_def)
  have "engine_ok B (process_ssl_engine B E (pump_others B E Y cb) a (tcp_ssl_register_pcb a (init_ssl_pcb B eng p False) ?b))" for eng p
    by (rule pump.process_inv) (rule ok_register [OF ok slots new bn], simp)
  then show ?thesis
    using b l by (simp add: tcp_ssl_new_client_def tcp_ssl_alloc_pcb_def new_alloc_def split: option.split)
qed

lemma start_ok:
  assumes s: "conn_ok B s"
  shows "keeps (conn_ok B) snd (startSSLClient B E Y cb c p host s)"
proof (cases p)
  case (Some q)
  let ?s1 = "upd_bsess c (\<lambda>x. x\<lparr>bs_pcb := Some q\<rparr>) s"
  obtain a mem where blk: "new_block B (trace ?s1) = (a, mem)" by fastforce
  let ?m = "engine_run (tcp_ssl_new_client B E (pump_others B E Y cb) a mem (Some q) host) ?s1"
  have 1: "conn_ok B ?s1" by (rule ok_bsess [OF s])
  have m: "keeps (conn_ok B) snd ?m" by (rule ok_run) (rule new_client_ok [OF 1], simp add: blk)
  have fin: "keeps (conn_ok B) snd (Some (if r < 0 then (-1 :: int, upd_bsess c (\<lambda>x. x\<lparr>bs_pcb := None\<rparr>) s2) else (0, bs_started q c s2)))"
    if "conn_ok B s2" for r :: int and s2
    using that by (simp add: ok_bsess bs_started_def ok_do ok_callbacks)
  have eq: "startSSLClient B E Y cb c p host s = (case ?m of None \<Rightarrow> None | Some x \<Rightarrow>
      Some (if fst x < 0 then (-1, upd_bsess c (\<lambda>x. x\<lparr>bs_pcb := None\<rparr>) (snd x)) else (0, bs_started q c (snd x))))"
    by (auto simp: startSSLClient_def Some blk Let_def split: option.split)
  show ?thesis unfolding eq by (rule keeps_case [OF m fin])
qed (simp add: startSSLClient_def s)

lemma pump_ok: "conn_ok B s \<Longrightarrow> keeps (conn_ok B) snd (bs_pump B E Y cb c s)"
proof -
  assume s: "conn_ok B s"
  have "keeps (conn_ok B) snd (engine_run (\<lambda>b. ((), process_ssl_engine B E (pump_others B E Y cb) a b)) s)" for a
    by (rule ok_run) (simp add: pump.process_inv [OF s])
  then show ?thesis by (auto simp: bs_pump_def s split_beta intro!: keeps_map split: option.split)
qed

lemma run_engine_ok: "conn_ok B s \<Longrightarrow> keeps (conn_ok B) (\<lambda>x. x) (run_engine B E Y cb s)"
  unfolding run_engine_def by (rule keeps_map, rule ok_run) (simp add: pump.run_scheduled_inv)

lemma close_true_ok: "conn_ok B s \<Longrightarrow> keeps (conn_ok B) snd (close_true B E cb c s)"
  unfolding close_true_def by (rule keeps_map) (simp add: close_ok)

lemma stamp_ok: "conn_ok B s \<Longrightarrow> conn_ok B (stamp_rx E c s)"
  by (simp add: stamp_rx_def ok_upd)

lemma hooks_ok: "hooks_keep (conn_ok B) (bear_hooks B E Y cb)"
proof unfold_locales
  fix c s assume s: "conn_ok B s"
  show "keeps (conn_ok B) snd (onConnected (bear_hooks B E Y cb) c s)"
    unfolding bear_hooks_def hooks.simps bear_onConnected_def bs_startClient_def
    by (rule keeps_bind [OF start_ok [OF s]]) (simp add: split_beta close_true_ok)
  show "keeps (conn_ok B) snd (onRecv (bear_hooks B E Y cb) c pb s)" for pb
    using ok_session(4) [OF s] by (simp add: bear_hooks_def bear_onRecv_def s split_beta close_true_ok stamp_ok)
  show "keeps (conn_ok B) snd (onSent (bear_hooks B E Y cb) c n s)" for n
    using ok_session(5) [OF s] by (simp add: bear_hooks_def bear_onSent_def Let_def stamp_ok)
  have pump: "keeps (conn_ok B) snd (bs_pump B E Y cb c (bs_sentAck B E c 0 s) \<bind> (\<lambda>(r, s1).
      if bs_isStalled E c SSL_STALL_RESET_MS s1 then close_true B E cb c s1
      else if idle_connection B E now p c s1 then close_true B E cb c s1 else Some (False, s1)))" for now p
    by (rule keeps_bind [OF pump_ok [OF ok_session(5) [OF s]]]) (simp add: split_beta close_true_ok)
  show "keeps (conn_ok B) snd (onPoll (bear_hooks B E Y cb) c s)"
    by (simp add: bear_hooks_def bear_onPoll_def s Let_def close_true_ok pump split: option.split)
qed (simp_all add: bear_hooks_def bear_onClosing_def bear_onError_def bear_onDelete_def ok_session ok_onWrite)

end

section \<open>Accepting\<close>

lemma ok_new_server:
  assumes b: "engine_ok B b" and slots: "ring_slots B > 0" and fresh: "fresh_blocks B" and nb: "new_block B (b_trace b) = (a, mem)"
    and room: "tcp_ssl_client_count b < BEAR_MAX_CONNECTIONS"
  shows "engine_ok B (snd (tcp_ssl_new_server B E a mem q has b))"
proof -
  have l: "engine_ok B (blog c s)" if "engine_ok B s" for c and s :: "'a bx"
    by (rule ok_moved [OF that, where t = "[c]"]) (simp_all add: blog_def)
  let ?b = "blog New_object (blog New_object b)"
  have ok: "engine_ok B ?b" by (intro l b)
  have "a = fst (new_block B (b_trace b))" using nb by simp
  then have new: "\<not> is_alive ?b a" and bn: "a \<in> born B (b_trace ?b)"
    using ok_alive [OF b fresh] born_now [of "[New_object, New_object]" B "b_trace b"]
    by (simp_all add: is_alive_def blog_def pcb_at_def)
  have "tcp_ssl_client_count ?b < BEAR_MAX_CONNECTIONS" using room by (simp add: tcp_ssl_client_count_def)
  then have "engine_ok B (tcp_ssl_register_pcb a (init_ssl_pcb B eng p True) ?b)" for eng p
    by (rule ok_register [OF ok slots new bn])
  then show ?thesis
    using b l by (simp add: tcp_ssl_new_server_def tcp_ssl_alloc_pcb_def new_alloc_def split: option.split)
qed

lemma ok_startSSLServer:
  assumes s: "conn_ok B s" and slots: "ring_slots B > 0" and fresh: "fresh_blocks B"
    and room: "tcp_ssl_client_count (pack s) < BEAR_MAX_CONNECTIONS"
  shows "conn_ok B (snd (snd (bs_startSSLServer B E c p h x s)))"
proof -
  obtain a mem where nb: "new_block B (trace s) = (a, mem)" by fastforce
  have "conn_ok B (snd (engine_op (tcp_ssl_new_server B E a mem (Some p) g) s))" for g
    using ok_new_server [OF s slots fresh _ room] nb by (simp add: engine_op_def split_beta ok_unpack)
  then show ?thesis
    using s by (simp add: bs_startSSLServer_def nb split_beta ok_do ok_callbacks)
qed

lemma ok_give_up:
  assumes cb: "runner_keeps (conn_ok B) cb" and s: "conn_ok B s"
  shows "keeps (conn_ok B) snd (give_up B E cb c p s)"
proof -
  have "conn_ok B (close_or_abort E p t)" if "conn_ok B t" for t by (rule conn.beside [OF that]) simp
  then show ?thesis
    unfolding give_up_def by (intro keeps_map) (use conn_leaf.drop_client_keeps [OF cb s] in \<open>auto simp: keeps_def\<close>)
qed

lemma ok_serve:
  assumes cb: "runner_keeps (conn_ok B) cb" and s: "conn_ok B s" and slots: "ring_slots B > 0" and fresh: "fresh_blocks B"
  shows "keeps (conn_ok B) snd (bear_serveTls B E cb g v p s)"
proof -
  obtain ok s1 where 1: "new_object E s = (ok, s1)" by fastforce
  define c where "c = next_cid s1"
  define s2 where "s2 = new_client E g c (Some p) (s1\<lparr>next_cid := Suc c\<rparr>)"
  obtain ok2 s3 where 3: "new_object E s2 = (ok2, s3)" by fastforce
  obtain ret x s4 where 4: "bs_startSSLServer B E c p (es_ctx s3 v) new_bsession s3 = (ret, x, s4)" by (metis prod_cases3)
  obtain ok3 s5 where 5: "new_object E s4 = (ok3, s5)" by fastforce
  have a1: "aside s s1" using aside_queue(3) [OF aside_refl, of s E] 1 by simp
  have "aside s s2" unfolding s2_def by (simp add: a1)
  then have a3: "aside s s3" using aside_queue(3) [of s s2 E] 3 by simp
  have i1: "conn_ok B s1" and i3: "conn_ok B s3" by (rule conn.beside [OF s a1], rule conn.beside [OF s a3])
  have pcbs: "es_pcbs s3 = es_pcbs s" using a3 by (cases s, cases s3) (simp add: aside_def)
  have ca: "conn_ok B (close_or_abort E p t)" if "conn_ok B t" for t by (rule conn.beside [OF that]) simp
  show ?thesis
  proof (cases "tcp_ssl_client_count (pack s) \<ge> BEAR_MAX_CONNECTIONS")
    case False
    then have room: "tcp_ssl_client_count (pack s3) < BEAR_MAX_CONNECTIONS" using pcbs by (simp add: tcp_ssl_client_count_def)
    have i4: "conn_ok B s4" using ok_startSSLServer [OF i3 slots fresh room, of E c p "es_ctx s3 v" new_bsession] 4 by simp
    have i5: "conn_ok B s5" by (rule conn.beside [OF i4]) (use aside_queue(3) [OF aside_refl, of s4 E] 5 in simp)
    have fin: "conn_ok B (upd c f (log z (upd c f' s5)))" for f z f' by (rule conn.beside [OF i5]) simp
    show ?thesis
      unfolding bear_serveTls_def 1 prod.case Let_def c_def [symmetric] s2_def [symmetric] 3 4 5
      by (simp add: ca s i1 fin ok_give_up [OF cb] i3 ok_session i4 i5)
  qed (simp add: bear_serveTls_def ca s)
qed

lemma ok_accept:
  assumes cb: "runner_keeps (conn_ok B) cb" and s: "conn_ok B s" and "ring_slots B > 0" and "fresh_blocks B"
  shows "keeps (conn_ok B) snd (bear_onAccept B E cb g v p e s)"
proof -
  let ?s = "if es_ctx s v then log (Tcp_nagle p True) s else s"
  have l: "conn_ok B (log x t)" if "conn_ok B t" for x t by (rule conn.beside [OF that]) simp
  have ca: "conn_ok B (close_or_abort E p t)" if "conn_ok B t" for t by (rule conn.beside [OF that]) simp
  have "conn_ok B ?s" using s l by simp
  then have "keeps (conn_ok B) snd (bear_acceptTls B E cb g v p ?s)"
    using ok_serve [OF cb _ assms(3,4)] l ca unfolding bear_acceptTls_def
    by (auto simp del: log_simps intro!: keeps_map simp: keeps_def)
  then show ?thesis by (simp add: bear_onAccept_def)
qed

section \<open>The whole system\<close>

lemma esp_bear_keeps: "ring_slots B > 0 \<Longrightarrow> fresh_blocks B \<Longrightarrow> bear_keeps B (\<lambda>s. s) (bear_sec_fire B E app n)"
  by unfold_locales (simp_all add: ok_fire)

lemma esp_world_keeps:
  assumes "ring_slots B > 0" and "fresh_blocks B"
  shows "world_keeps (conn_ok B) (esp_hooks B E app n) (esp_srv_hooks B E app n g) (bear_sec_fire B E app n) (fire_client E (leaf_bear B E) app n)"
proof (rule world_keeps.intro [OF bear_keeps.hooks_ok [OF esp_bear_keeps [OF assms]]], unfold_locales)
  fix s v p c h and e :: err assume s: "conn_ok B s"
  show "keeps (conn_ok B) snd (onAccept (esp_srv_hooks B E app n g) v p e s)"
    by (simp add: bear_srv_hooks_def ok_accept [OF ok_fire s assms])
  show "keeps (conn_ok B) snd (onAccepted (esp_srv_hooks B E app n g) v c s)" by (simp add: bear_srv_hooks_def s)
  show "keeps (conn_ok B) (\<lambda>x. x) (fire_client E (leaf_bear B E) app n v h c s)" by (rule conn_leaf.fire_client_keeps [OF s])
qed (rule ok_fire)

lemma esp_connections:
  assumes "esp_system B X E app n g s" and pos: "ring_slots B > 0" and fresh: "fresh_blocks B"
  shows "conn_ok B s"
  using assms(1)
proof (induction rule: esp_system.induct)
  case start
  show ?case by (simp add: bear_with_def bear_inv_def counted_def contexts_def esp_boot_def pcb_at_def ids_def addrs_def tcp_ssl_client_count_def)
next
  case (step s s')
  show ?case by (rule world_keeps.step_keeps [OF esp_world_keeps [OF pos fresh] step(2,3)])
next
  case (secure s c host port r s')
  have "aside s (snd (bear_beginSecure E c host port s))"
    by (simp add: bear_beginSecure_def new_object_def)
  then show ?case using secure conn.beside by (metis snd_conv)
next
  case (listen s v cert key password s')
  have b: "conn_ok B (begin_server E v t)" if "conn_ok B t" for t by (rule conn.beside [OF that]) simp
  have u: "conn_ok B (upd_server v h s)" for h by (rule conn.beside [OF listen.IH]) simp
  have ctx: "conn_ok B ((upd_server v h s)\<lparr>es_ctx := (es_ctx s)(v := True), es_thunk := Suc (es_thunk s)\<rparr>)" if "\<not> es_ctx s v" for h
  proof -
    have "contexts ((upd_server v h s)\<lparr>es_ctx := (es_ctx s)(v := True), es_thunk := Suc (es_thunk s)\<rparr>) = insert v (contexts s)"
      by (auto simp: contexts_def)
    moreover have "v \<notin> contexts s" using that by (simp add: contexts_def)
    ultimately show ?thesis
      using listen.IH by (simp add: bear_with_def bear_inv_def counted_def pcb_at_def addrs_pcbs ids_def tcp_ssl_client_count_def upd_server_def)
  qed
  have same: "es_ctx (upd_server v h s) = es_ctx s" "es_thunk (upd_server v h s) = es_thunk s" for h by (simp_all add: upd_server_def)
  show ?case
    using listen(2) u b ctx by (auto simp: same bear_server_beginSecure_def Let_def split: if_splits option.splits)
next
  case (engine s s')
  show ?case by (rule keepsD [OF bear_keeps.run_engine_ok [OF esp_bear_keeps [OF pos fresh] engine.IH] engine(2)])
qed


section \<open>A state for the witness\<close>

text \<open>A program whose TLS server listens with a handler, and a connection it has accepted.\<close>

definition esp_ready :: "u8 list esys" where
  "esp_ready = upd_server 0 (onClient (Some 4)) esp_boot"

definition esp_waiting :: "u8 list esys" where
  "esp_waiting = begin_server calm 0 ((upd_server 0 (\<lambda>x. x\<lparr>sv_tls_hooks := True\<rparr>) esp_ready)\<lparr>es_ctx := (es_ctx esp_ready)(0 := True), es_thunk := 1\<rparr>)"

lemma toy_fresh: "fresh_blocks toy_bear" "0 < ring_slots toy_bear"
  by (simp_all add: fresh_blocks_def toy_bear_def)

lemma esp_waiting_reached: "esp_system toy_bear plain_keys calm app n g esp_waiting"
proof -
  have "esp_system toy_bear plain_keys calm app n g esp_ready"
    by (rule esp_system.step [OF esp_system.start sys_step.Call [where x = "C_on_client 0 (Some 4)"]]) (simp add: esp_ready_def)
  moreover have "bear_server_beginSecure plain_keys calm 0 (Some [45, 45, 10]) (Some [48]) None esp_ready = Some esp_waiting"
    using one_cert_parse
    by (simp add: bear_server_beginSecure_def tcp_ssl_new_server_ctx_def finish_ctx_def plain_keys_def normalize_pem_def server_key_def
        server_suites_def esp_waiting_def Let_def) (simp add: esp_ready_def esp_boot_def upd_server_def)
  ultimately show ?thesis by (rule esp_system.listen)
qed

lemma esp_waiting_simps:
  "es_ctx esp_waiting 0" "sv_connect_cb (servers esp_waiting 0) = Some 4" "sv_tls_hooks (servers esp_waiting 0)" "es_pcbs esp_waiting = []"
  by (simp_all add: esp_waiting_def esp_ready_def begin_server_def split_beta tcp_bind_eq tcp_bind_sys_def tcp_bind_api_def Let_def
      tcp_listen_eq tcp_listen_sys_def esp_boot_def new_server_def calm_def start_async_task_def onClient_def upd_server_def logs_def log_def)


lemma register_callbacks_length: "length (b_pcbs (register_callbacks p c b)) = length (b_pcbs b)" for b :: "'e bx"
proof -
  have "length (b_pcbs (on_pcb p f s)) = length (b_pcbs s)" for f and s :: "'e bx"
    by (simp add: on_pcb_def upd_pcb_def split: option.split)
  then show ?thesis
    unfolding register_callbacks_def tcp_ssl_err_def tcp_ssl_handshake_def tcp_ssl_data_def tcp_ssl_arg_def by simp
qed

lemma ctx_kept: "bstep (pack s) b \<Longrightarrow> es_ctx (unpack b) = es_ctx s"
  using bx_more(1) [of b "pack s"] by (simp add: bstep_def)

lemma esp_waiting_accepts:
  "\<exists>s. esp_system toy_bear plain_keys calm (\<lambda>_. []) 1 0 s \<and> length (es_pcbs s) = 1 \<and> tcp_ssl_client_count (pack s) = 1
     \<and> es_ctx s 0 \<and> sv_connect_cb (servers s 0) = Some 4"
proof -
  let ?cb = "bear_sec_fire toy_bear calm (\<lambda>_. []) 1 :: u8 list erunner"
  define t where "t = log (Tcp_nagle 7 True) esp_waiting"
  have t: "es_ctx t 0" "sv_connect_cb (servers t 0) = Some 4" "es_pcbs t = []" by (simp_all add: t_def esp_waiting_simps log_def)
  define u where "u = (log New_object t)\<lparr>next_cid := Suc (next_cid t)\<rparr>"
  define s3 where "s3 = log New_object (new_client calm 0 (next_cid t) (Some 7) u)"
  have s3: "es_pcbs s3 = []" "es_ctx s3 0" "servers s3 = servers t" by (simp_all add: s3_def u_def t log_def)
  have ok: "\<not> bear_busy toy_bear calm t"
    by (simp add: bear_busy_def tcp_ssl_client_count_def t BEAR_MAX_CONNECTIONS_def SSL_PRESSURE_FLOOR_def SSL_SERVE_BLOCK_def
        SSL_SERVER_IN_BUFFER_SIZE_def toy_bear_def calm_def)
  obtain ret x s4 where b: "bs_startSSLServer toy_bear calm (next_cid t) 7 True new_bsession s3 = (ret, x, s4)" by (metis prod_cases3)
  have "ret = 0"
    using b by (auto simp: bs_startSSLServer_def engine_op_def tcp_ssl_new_server_def tcp_ssl_alloc_pcb_def new_alloc_def blog_def toy_bear_def
        calm_def split_beta s3 engine_do_def tcp_ssl_register_pcb_def)
  with start_server [OF b] s3(1) obtain y where y: "es_pcbs s4 = [(fst (new_block toy_bear (trace s3)), y)]" "sp_server y" "servers s4 = servers s3"
    by auto
  have c4: "es_ctx s4 0"
  proof -
    obtain a mem where nb: "new_block toy_bear (trace s3) = (a, mem)" by fastforce
    obtain r1 s1 where o: "engine_op (tcp_ssl_new_server toy_bear calm a mem (Some 7) True) s3 = (r1, s1)" by fastforce
    then have "s1 = unpack (snd (tcp_ssl_new_server toy_bear calm a mem (Some 7) True (pack s3)))"
      by (auto simp: engine_op_def split: prod.splits)
    then have "es_ctx s1 = es_ctx s3" using ctx_kept [OF bstep_ops(5)] by simp
    moreover have "s4 = s1 \<or> s4 = engine_do (register_callbacks 7 (next_cid t)) s1"
      using b nb o by (auto simp: bs_startSSLServer_def split: if_splits)
    moreover have "es_ctx (engine_do (register_callbacks 7 (next_cid t)) s1) = es_ctx s1"
      unfolding engine_do_def by (rule ctx_kept [OF bstep_register])
    ultimately show ?thesis using s3(2) by auto
  qed
  define s' where "s' = upd (next_cid t) (\<lambda>k. k\<lparr>c_connect_cb := Some (server_connect 0)\<rparr>)
    (log (Tcp_nagle 7 True) (upd (next_cid t) (\<lambda>k. k\<lparr>c_hooks := Some (hook_session x)\<rparr>) (log New_object s4)))"
  have run: "bear_serveTls toy_bear calm ?cb 0 0 7 t = Some (Some (next_cid t), s')"
    using ok b \<open>ret = 0\<close> s3(2)
    by (simp add: bear_serveTls_def bear_busy_def new_object_def Let_def s3_def u_def s'_def calm_def)
  have "tcp_accept calm (esp_srv_hooks toy_bear calm (\<lambda>_. []) 1 0) 0 0 (Some 7) ERR_OK esp_waiting = Some (ERR_OK, s')"
    using ok run by (simp add: tcp_accept_def esp_waiting_simps bear_srv_hooks_def bear_onAccept_def bear_acceptTls_def t_def t)
  then have "esp_system toy_bear plain_keys calm (\<lambda>_. []) 1 0 s'"
    by (rule esp_system.step [OF esp_waiting_reached sys_step.Accept])
  moreover have "es_pcbs s' = es_pcbs s4" "es_ctx s' 0" "servers s' = servers t" using c4 y(3) s3(3)
    by (simp_all add: s'_def log_def upd_def)
  ultimately show ?thesis using y(1,2) t(2) by (intro exI [of _ s']) (simp add: tcp_ssl_client_count_def)
qed

section \<open>Properties\<close>

text \<open>
  C11: the connections of the engine layer, in every reachable state of the whole ESP8266 system, whatever the application does in its callbacks,
  which run in the middle of the pump and may write, close and delete connections, and in whatever order lwIP and the scheduler
  call. No address names two connections; the thunk counts the connections and the contexts of servers, so that its stack
  is there as long as a connection is, and for good once a TLS server listens; there is at most one TLS server connection; the ring of every connection is sound, so that no index leaves it; its received chains are at most
  as many as the cap; and a connection whose pump is marked as queued has a scheduled function to run it.
\<close>

theorem esp8266_connections:
  assumes "esp_system B X E app n g s" and "0 < ring_slots B" and "fresh_blocks B"
  shows "distinct (map fst (es_pcbs s)) \<and> es_thunk s = card {v. es_ctx s v} + length (es_pcbs s) \<and> tcp_ssl_client_count (pack s) \<le> BEAR_MAX_CONNECTIONS
    \<and> (\<forall>(a, x) \<in> set (es_pcbs s). ring_inv B x \<and> length (sp_rx x) \<le> SSL_RX_PEND_MAX
        \<and> (sp_pump x = ENGINE_PUMP_QUEUED \<longrightarrow> a \<in> set (es_sched s)))"
proof -
  have ok: "conn_ok B s" by (rule esp_connections [OF assms])
  then have "pcb_at (pack s) a = Some x" if "(a, x) \<in> set (es_pcbs s)" for a x
    using that by (simp add: pcb_at_def bear_with_def bear_inv_def)
  then show ?thesis using ok by (auto simp: bear_with_def bear_inv_def good_pcb_def counted_def contexts_def ids_def)
qed

theorem esp8266_connections_witness:
  "\<exists>(a :: nat) (x :: u8 list ssl_pcb) s. esp_system toy_bear plain_keys calm (\<lambda>_. []) 1 0 s \<and> es_pcbs s = [(a, x)]
    \<and> es_thunk s = card {v. es_ctx s v} + 1 \<and> ring_inv toy_bear x"
proof -
  obtain s :: "u8 list esys" where s: "esp_system toy_bear plain_keys calm (\<lambda>_. []) 1 0 s" "length (es_pcbs s) = 1"
    using esp_waiting_accepts by blast
  obtain a x where x: "es_pcbs s = [(a, x)]" using s(2) by (cases "es_pcbs s") auto
  from esp8266_connections [OF s(1) toy_fresh(2,1)] show ?thesis using s(1) x by auto
qed

text \<open>From a reachable state on, the allocator gives no block that a connection has.\<close>

lemma fresh_from_now:
  assumes "esp_system B X E app n g s" and "0 < ring_slots B" and "fresh_blocks B"
  shows "fst (new_block B (trace s @ u)) \<notin> fst ` set (es_pcbs s)"
proof
  assume "fst (new_block B (trace s @ u)) \<in> fst ` set (es_pcbs s)"
  moreover have "addrs (pack s) \<subseteq> born B (trace s)" using esp_connections [OF assms] by (simp add: bear_with_def counted_def)
  ultimately have "fst (new_block B (trace s @ u)) \<in> born B (trace s)" by (auto simp: addrs_pcbs)
  then show False using not_born [OF assms(3), of "trace s @ u"] born_more [of B "trace s" u] by blast
qed

text \<open>
  C14: admission of a TLS connection on the ESP8266, in every reachable state, whatever the application did before. A server serves one connection at a time: when lwIP
  offers a configured server with a handler a connection, it is reset (\<open>tcp_abort\<close>, \<open>ERR_ABRT\<close>) exactly when there is one in the engine layer already, or there is
  less memory than the floor, or no block for the buffers of a connection. Otherwise it is served, and then it is the only one and has that memory, or, when an object
  cannot be made, closed. A connection that is not served leaves those of the engine layer as they were; and there are never two.
\<close>

theorem bear_admission:
  assumes "esp_system B X E app n g s" and "0 < ring_slots B" and "fresh_blocks B"
    and "es_ctx s v" and "sv_connect_cb (servers s v) = Some h"
  shows "\<exists>r s'. bear_onAccept B E cb g' v p e s = Some (Some r, s') \<and> tcp_ssl_client_count (pack s') \<le> 1
    \<and> (r = ERR_ABRT \<longleftrightarrow> tcp_ssl_client_count (pack s) = 1 \<or> free_heap E (trace s @ [Tcp_nagle p True]) < SSL_PRESSURE_FLOOR
         \<or> max_block E (trace s @ [Tcp_nagle p True]) < SSL_SERVE_BLOCK B)
    \<and> (if served v p s s'
        then r = ERR_OK \<and> tcp_ssl_client_count (pack s) = 0 \<and> tcp_ssl_client_count (pack s') = 1
        else es_pcbs s' = es_pcbs s
          \<and> (\<exists>u. trace s' = trace s @ u \<and> (if r = ERR_ABRT then Tcp_abort p else Tcp_close p) \<in> set u))"
proof -
  have le: "tcp_ssl_client_count (pack s) \<le> BEAR_MAX_CONNECTIONS"
    using esp_connections [OF assms(1-3)] by (simp add: bear_with_def counted_def)
  have count: "tcp_ssl_client_count (pack s') = Suc (tcp_ssl_client_count (pack s))" if "served v p s s'" for s'
    using that by (auto simp: served_def tcp_ssl_client_count_def)
  have busy: "bear_busy B E (log (Tcp_nagle p True) s) \<longleftrightarrow> tcp_ssl_client_count (pack s) = 1
      \<or> free_heap E (trace s @ [Tcp_nagle p True]) < SSL_PRESSURE_FLOOR \<or> max_block E (trace s @ [Tcp_nagle p True]) < SSL_SERVE_BLOCK B"
    using le by (auto simp: bear_busy_def BEAR_MAX_CONNECTIONS_def tcp_ssl_client_count_def log_def)
  obtain r s' where a: "bear_onAccept B E cb g' v p e s = Some (Some r, s')" and most: "tcp_ssl_client_count (pack s') \<le> BEAR_MAX_CONNECTIONS"
    and abt: "r = ERR_ABRT \<longleftrightarrow> bear_busy B E (log (Tcp_nagle p True) s)"
    and out: "if served v p s s'
        then r = ERR_OK \<and> tcp_ssl_client_count (pack s) = 0 \<and> free_heap E (trace s @ [Tcp_nagle p True]) \<ge> SSL_PRESSURE_FLOOR
          \<and> max_block E (trace s @ [Tcp_nagle p True]) \<ge> SSL_SERVE_BLOCK B
        else es_pcbs s' = es_pcbs s
          \<and> (\<exists>u. trace s' = trace s @ u \<and> (if r = ERR_ABRT then Tcp_abort p else Tcp_close p) \<in> set u)"
    using admission [OF assms(4,5) le fresh_from_now [OF assms(1-3)], of E cb g' p e] by blast
  have "if served v p s s'
        then r = ERR_OK \<and> tcp_ssl_client_count (pack s) = 0 \<and> tcp_ssl_client_count (pack s') = 1
        else es_pcbs s' = es_pcbs s
          \<and> (\<exists>u. trace s' = trace s @ u \<and> (if r = ERR_ABRT then Tcp_abort p else Tcp_close p) \<in> set u)"
    using out count [of s'] by (cases "served v p s s'") simp_all
  then show ?thesis
    using a most abt unfolding busy by (intro exI [of _ r] exI [of _ s']) (simp add: BEAR_MAX_CONNECTIONS_def)
qed

text \<open>A server that has a connection is offered a second one, from the state reached by accepting the first.\<close>

theorem bear_admission_witness:
  "\<exists>s s'. esp_system toy_bear plain_keys calm (\<lambda>_. []) 1 0 s \<and> length (es_pcbs s) = 1
    \<and> bear_onAccept toy_bear calm (\<lambda>_ _ s. Some s) 0 0 8 ERR_OK s = Some (Some ERR_ABRT, s') \<and> Tcp_abort 8 \<in> set (trace s')
    \<and> es_pcbs s' = es_pcbs s"
proof -
  obtain s :: "u8 list esys" where s: "esp_system toy_bear plain_keys calm (\<lambda>_. []) 1 0 s" "length (es_pcbs s) = 1"
    "tcp_ssl_client_count (pack s) = 1" "es_ctx s 0" "sv_connect_cb (servers s 0) = Some 4"
    using esp_waiting_accepts by blast
  obtain r s' where r: "bear_onAccept toy_bear calm (\<lambda>_ _ s. Some s) 0 0 8 ERR_OK s = Some (Some r, s')" "r = ERR_ABRT"
    "if served 0 8 s s' then r = ERR_OK \<and> tcp_ssl_client_count (pack s) = 0 \<and> tcp_ssl_client_count (pack s') = 1
     else es_pcbs s' = es_pcbs s \<and> (\<exists>u. trace s' = trace s @ u \<and> (if r = ERR_ABRT then Tcp_abort 8 else Tcp_close 8) \<in> set u)"
    using bear_admission [OF s(1) toy_fresh(2,1) s(4,5), of "\<lambda>_ _ s. Some s" 0 8 ERR_OK] s(3) by blast
  then have "es_pcbs s' = es_pcbs s" "Tcp_abort 8 \<in> set (trace s')" by (auto split: if_splits)
  then show ?thesis using s(1,2) r(1,2) by blast
qed

end
