(* ===== verification/Locking.thy ===== *)
theory Locking
  imports Lwip_Callbacks
begin

text \<open>
  The locks of the builds with an operating system: the core lock of lwIP, which serialises the pcbs, and the mutex of the event queue. Every
  operation of the library is given by what it does to the two, in the order of its code: the guards it opens and closes, the raw calls of
  lwIP and the accesses to the queue. Threads that run such code in any interleaving never deadlock, and reach the queue and lwIP only
  with the lock that protects them.
\<close>

section \<open>The locks and their guards\<close>

type_synonym tid = nat

record locks =
  core_owner :: "tid option"
  queue_owner :: "tid option"

text \<open>\<open>LOCK_TCPIP_CORE\<close> and \<open>xSemaphoreTake\<close> wait as long as somebody has the lock, the caller included: None.\<close>

definition lock_core :: "tid \<Rightarrow> locks \<Rightarrow> locks option" where
  "lock_core t L = (if core_owner L = None then Some (L\<lparr>core_owner := Some t\<rparr>) else None)"

definition tcp_core_lock_held_by_us :: "tid \<Rightarrow> locks \<Rightarrow> bool" where
  "tcp_core_lock_held_by_us t L \<longleftrightarrow> core_owner L = Some t"

text \<open>Constructor and destructor of \<open>tcp_core_guard\<close>, with the member \<open>do_lock\<close>.\<close>

definition core_guard_enter :: "tid \<Rightarrow> locks \<Rightarrow> (bool \<times> locks) option" where
  "core_guard_enter t L =
     (let do_lock = (core_owner L \<noteq> Some t)
      in if do_lock then map_option (Pair True) (lock_core t L) else Some (False, L))"

definition core_guard_leave :: "bool \<Rightarrow> locks \<Rightarrow> locks" where
  "core_guard_leave do_lock L = (if do_lock then L\<lparr>core_owner := None\<rparr> else L)"

text \<open>\<open>queue_mutex_guard\<close>, once \<open>_start_async_task\<close> has made the mutex.\<close>

definition queue_guard_enter :: "tid \<Rightarrow> locks \<Rightarrow> locks option" where
  "queue_guard_enter t L = (if queue_owner L = None then Some (L\<lparr>queue_owner := Some t\<rparr>) else None)"

definition queue_guard_leave :: "locks \<Rightarrow> locks" where
  "queue_guard_leave L = L\<lparr>queue_owner := None\<rparr>"

text \<open>
  A wrapper calls its body directly when its thread has the core lock, and by \<open>tcpip_api_call\<close>, which takes the lock, when it has not. The
  flag says that the lock is to be given back.
\<close>

definition wrapper_enter :: "tid \<Rightarrow> locks \<Rightarrow> (bool \<times> locks) option" where
  "wrapper_enter t L = (if tcp_core_lock_held_by_us t L then Some (False, L) else map_option (Pair True) (lock_core t L))"

lemma wrapper_is_guard: "wrapper_enter t L = core_guard_enter t L"
  by (simp add: wrapper_enter_def core_guard_enter_def tcp_core_lock_held_by_us_def Let_def)

section \<open>Threads\<close>

text \<open>
  What code does to the locks. \<open>Raw\<close> is a call of lwIP's raw API, \<open>Queue_op\<close> an access to the queue or to the random state beside it. \<open>Api_call\<close> is
  a call of \<open>tcpip_api_call\<close> without a look at the lock, and also lwIP's own thread, which takes the lock and runs a callback. \<open>Either\<close> is
  a branch on data.
\<close>

datatype act =
    Raw
  | Queue_op
  | Core_guard "act list"
  | Queue_guard "act list"
  | Wrapper "act list"
  | Api_call "act list"
  | Either "act list" "act list"

datatype item = Do act | Leave_core bool | Leave_queue

record threads =
  lk :: locks
  code :: "tid \<Rightarrow> item list"

text \<open>One step of one thread. A thread whose lock is taken has none.\<close>

inductive thread_step :: "tid \<Rightarrow> locks \<Rightarrow> item list \<Rightarrow> locks \<Rightarrow> item list \<Rightarrow> bool" for t :: tid and L :: locks where
  raw: "thread_step t L (Do Raw # k) L k"
| queue_op: "thread_step t L (Do Queue_op # k) L k"
| core_guard: "core_guard_enter t L = Some (d, L') \<Longrightarrow> thread_step t L (Do (Core_guard b) # k) L' (map Do b @ Leave_core d # k)"
| wrapper: "wrapper_enter t L = Some (d, L') \<Longrightarrow> thread_step t L (Do (Wrapper b) # k) L' (map Do b @ Leave_core d # k)"
| api_call: "lock_core t L = Some L' \<Longrightarrow> thread_step t L (Do (Api_call b) # k) L' (map Do b @ Leave_core True # k)"
| queue_guard: "queue_guard_enter t L = Some L' \<Longrightarrow> thread_step t L (Do (Queue_guard b) # k) L' (map Do b @ Leave_queue # k)"
| left: "thread_step t L (Do (Either a b) # k) L (map Do a @ k)"
| right: "thread_step t L (Do (Either a b) # k) L (map Do b @ k)"
| leave_core: "thread_step t L (Leave_core d # k) (core_guard_leave d L) k"
| leave_queue: "thread_step t L (Leave_queue # k) (queue_guard_leave L) k"

inductive_cases thread_stepE: "thread_step t L k L' k'"

inductive threads_step :: "threads \<Rightarrow> threads \<Rightarrow> bool" where
  "thread_step t (lk S) (code S t) L' k' \<Longrightarrow> threads_step S \<lparr>lk = L', code = (code S)(t := k')\<rparr>"

text \<open>\<open>p t\<close> is the code of thread \<open>t\<close>; the number counts the steps.\<close>

inductive runs :: "(tid \<Rightarrow> act list) \<Rightarrow> nat \<Rightarrow> threads \<Rightarrow> bool" for p :: "tid \<Rightarrow> act list" where
  start: "runs p 0 \<lparr>lk = \<lparr>core_owner = None, queue_owner = None\<rparr>, code = (\<lambda>t. map Do (p t))\<rparr>"
| step: "runs p n S \<Longrightarrow> threads_step S S' \<Longrightarrow> runs p (Suc n) S'"

section \<open>The discipline\<close>

text \<open>
  With the core lock (\<open>c\<close>) and the mutex (\<open>q\<close>) held or not: lwIP is called under the core lock, the queue is accessed under the mutex, the
  mutex is never taken twice, and the core lock is not waited for with the mutex in hand. A \<open>tcpip_api_call\<close> that does not look is not made
  under the core lock.
\<close>

fun disciplined :: "bool \<Rightarrow> bool \<Rightarrow> act \<Rightarrow> bool" where
  "disciplined c q Raw = c"
| "disciplined c q Queue_op = q"
| "disciplined c q (Core_guard b) = ((c \<or> \<not> q) \<and> list_all (disciplined True q) b)"
| "disciplined c q (Wrapper b) = ((c \<or> \<not> q) \<and> list_all (disciplined True q) b)"
| "disciplined c q (Api_call b) = (\<not> c \<and> \<not> q \<and> list_all (disciplined True q) b)"
| "disciplined c q (Queue_guard b) = (\<not> q \<and> list_all (disciplined c True) b)"
| "disciplined c q (Either a b) = (list_all (disciplined c q) a \<and> list_all (disciplined c q) b)"

text \<open>The same for what a thread has left to do, given what it holds.\<close>

fun stack_ok :: "bool \<Rightarrow> bool \<Rightarrow> item list \<Rightarrow> bool" where
  "stack_ok c q [] = (\<not> c \<and> \<not> q)"
| "stack_ok c q (Do a # k) = (disciplined c q a \<and> stack_ok c q k)"
| "stack_ok c q (Leave_core d # k) = (if d then c \<and> stack_ok False q k else stack_ok c q k)"
| "stack_ok c q (Leave_queue # k) = (q \<and> stack_ok c False k)"

definition holds :: "threads \<Rightarrow> bool" where
  "holds S \<longleftrightarrow> (\<forall>t. stack_ok (core_owner (lk S) = Some t) (queue_owner (lk S) = Some t) (code S t))"

lemma stack_ok_append [simp]: "stack_ok c q (map Do b @ k) = (list_all (disciplined c q) b \<and> stack_ok c q k)"
  by (induction b) auto

text \<open>A step of a thread keeps its own stack in order and takes no lock from another thread.\<close>

lemma thread_step_ok:
  assumes "thread_step t L k L' k'" and "stack_ok (core_owner L = Some t) (queue_owner L = Some t) k"
  shows "stack_ok (core_owner L' = Some t) (queue_owner L' = Some t) k'
    \<and> (\<forall>u. u \<noteq> t \<longrightarrow> (core_owner L' = Some u \<longleftrightarrow> core_owner L = Some u) \<and> (queue_owner L' = Some u \<longleftrightarrow> queue_owner L = Some u))"
  using assms
  by (cases rule: thread_step.cases)
    (auto simp: core_guard_enter_def wrapper_is_guard lock_core_def queue_guard_enter_def core_guard_leave_def queue_guard_leave_def Let_def
      split: if_splits)

lemma holds_step:
  assumes "threads_step S S'" and "holds S"
  shows "holds S'"
  using assms(1)
proof cases
  case (1 t L' k')
  have "stack_ok (core_owner (lk S) = Some t) (queue_owner (lk S) = Some t) (code S t)" using assms(2) by (simp add: holds_def)
  from thread_step_ok [OF 1(2) this] show ?thesis using assms(2) 1(1) by (simp add: holds_def)
qed

lemma holds_runs:
  assumes "runs p n S" and "\<forall>t. list_all (disciplined False False) (p t)"
  shows "holds S"
  using assms(1)
proof (induction rule: runs.induct)
  case start
  then show ?case using assms(2) stack_ok_append [of False False "p _" "[]"] by (simp add: holds_def)
qed (rule holds_step)

text \<open>With everybody's stack in order, somebody can go on: the owner of the mutex, or else the owner of the core lock, or else anybody.\<close>

lemma can_step:
  assumes "stack_ok c q k" and "k \<noteq> []" and "c \<longleftrightarrow> core_owner L = Some t" and "q \<longleftrightarrow> queue_owner L = Some t"
    and "\<not> q \<Longrightarrow> queue_owner L = None" and "\<not> c \<Longrightarrow> \<not> q \<Longrightarrow> core_owner L = None"
  shows "\<exists>L' k'. thread_step t L k L' k'"
proof -
  obtain i r where k: "k = i # r" using assms(2) by (cases k) auto
  show ?thesis
  proof (cases i)
    case (Do a)
    show ?thesis
    proof (cases a)
      case (Core_guard b)
      then have "\<exists>d L'. core_guard_enter t L = Some (d, L')" using assms k Do by (auto simp: core_guard_enter_def lock_core_def)
      then show ?thesis unfolding k Do Core_guard by (blast intro: thread_step.core_guard)
    next
      case (Wrapper b)
      then have "\<exists>d L'. wrapper_enter t L = Some (d, L')"
        using assms k Do by (auto simp: wrapper_is_guard core_guard_enter_def lock_core_def)
      then show ?thesis unfolding k Do Wrapper by (blast intro: thread_step.wrapper)
    next
      case (Api_call b)
      then have "\<exists>L'. lock_core t L = Some L'" using assms k Do by (auto simp: lock_core_def)
      then show ?thesis unfolding k Do Api_call by (blast intro: thread_step.api_call)
    next
      case (Queue_guard b)
      then have "\<exists>L'. queue_guard_enter t L = Some L'" using assms k Do by (auto simp: queue_guard_enter_def)
      then show ?thesis unfolding k Do Queue_guard by (blast intro: thread_step.queue_guard)
    qed (auto simp: k Do intro: thread_step.intros)
  qed (auto simp: k intro: thread_step.intros)
qed

lemma holds_progress:
  assumes "holds S" and "code S t \<noteq> []"
  shows "\<exists>S'. threads_step S S'"
proof -
  let ?L = "lk S"
  have ok: "stack_ok (core_owner ?L = Some u) (queue_owner ?L = Some u) (code S u)" for u using assms(1) by (simp add: holds_def)
  obtain u where u: "code S u \<noteq> []" "queue_owner ?L \<noteq> Some u \<Longrightarrow> queue_owner ?L = None"
    "core_owner ?L \<noteq> Some u \<Longrightarrow> queue_owner ?L \<noteq> Some u \<Longrightarrow> core_owner ?L = None"
  proof (cases "queue_owner ?L")
    case (Some u)
    then show ?thesis using ok [of u] by (intro that [of u]) auto
  next
    case q: None
    show ?thesis
    proof (cases "core_owner ?L")
      case (Some u)
      then show ?thesis using ok [of u] q by (intro that [of u]) auto
    next
      case None
      then show ?thesis using assms(2) q by (intro that [of t]) auto
    qed
  qed
  have "\<exists>L' k'. thread_step u ?L (code S u) L' k'" by (rule can_step [OF ok u(1) refl refl u(2,3)])
  then show ?thesis using threads_step.intros by blast
qed

text \<open>Each step uses code up, so that an execution is no longer than the code.\<close>

fun weight :: "act \<Rightarrow> nat" where
  "weight Raw = 1"
| "weight Queue_op = 1"
| "weight (Core_guard b) = 2 + sum_list (map weight b)"
| "weight (Wrapper b) = 2 + sum_list (map weight b)"
| "weight (Api_call b) = 2 + sum_list (map weight b)"
| "weight (Queue_guard b) = 2 + sum_list (map weight b)"
| "weight (Either a b) = 1 + sum_list (map weight a) + sum_list (map weight b)"

fun item_weight :: "item \<Rightarrow> nat" where
  "item_weight (Do a) = weight a"
| "item_weight (Leave_core d) = 1"
| "item_weight Leave_queue = 1"

definition stack_weight :: "item list \<Rightarrow> nat" where
  "stack_weight k = sum_list (map item_weight k)"

lemma stack_weight_simps [simp]:
  "stack_weight [] = 0" "stack_weight (i # k) = item_weight i + stack_weight k"
  "stack_weight (map Do b @ k) = sum_list (map weight b) + stack_weight k" "stack_weight (map Do b) = sum_list (map weight b)"
  by (simp_all add: stack_weight_def comp_def)

lemma thread_step_weight: "thread_step t L k L' k' \<Longrightarrow> stack_weight k' < stack_weight k"
  by (cases rule: thread_step.cases, assumption) auto

definition total_weight :: "tid set \<Rightarrow> threads \<Rightarrow> nat" where
  "total_weight T S = (\<Sum>t \<in> T. stack_weight (code S t))"

lemma runs_bounded:
  assumes "runs p n S" and fin: "finite T" and "\<forall>t. t \<notin> T \<longrightarrow> p t = []"
  shows "n + total_weight T S \<le> (\<Sum>t \<in> T. sum_list (map weight (p t))) \<and> (\<forall>t. t \<notin> T \<longrightarrow> code S t = [])"
  using assms(1)
proof (induction rule: runs.induct)
  case start
  then show ?case using assms(3) by (simp add: total_weight_def)
next
  case (step n S S')
  from step.hyps(2) show ?case
  proof cases
    case (1 t L' k')
    have w: "stack_weight k' < stack_weight (code S t)" by (rule thread_step_weight [OF 1(2)])
    have t: "t \<in> T" using step.IH w by (cases "t \<in> T") auto
    have "total_weight T S' < total_weight T S"
      unfolding total_weight_def 1(1) by (rule sum_strict_mono_ex1 [OF fin]) (use w t in auto)
    then show ?thesis using step.IH 1(1) t by auto
  qed
qed

end
