(* ===== verification/Library_Locks.thy ===== *)
theory Library_Locks
  imports Locking
begin

text \<open>
  What the operations of the ESP32 build do to the two locks, in the order of the code of \<open>src/AsyncTCP.cpp\<close>, \<open>src/AsyncSecureClient.cpp\<close>,
  \<open>src/AsyncSecureSession.cpp\<close> and \<open>src/AsyncSecureServer.cpp\<close>. Data is left out: a test is an \<open>Either\<close>, an early return a branch without the
  rest. Tasks that call these operations, and whose handlers do so again, cannot deadlock with each other and with lwIP's thread.
\<close>

section \<open>The event queue and the callbacks of lwIP\<close>

text \<open>
  \<open>n\<close> accesses under one guard: pops, peeks, the size and the random state. A poll dropped here may hold the last reference to a client, whose
  destructor then runs under the mutex. It closes nothing: a client without a facade has been closed. The one that was deleted while it
  dialed, and has a pcb again (\<open>System_Laws\<close>), is left out.
\<close>

definition get_event_locks :: "nat \<Rightarrow> act list" where
  "get_event_locks n = [Queue_guard (replicate n Queue_op)]"

definition remove_events_locks :: "act list" where
  "remove_events_locks = [Queue_guard [Queue_op]]"

definition reset_callbacks_locks :: "act list" where
  "reset_callbacks_locks = Raw # [Either remove_events_locks []]"

text \<open>The end of every callback: the packet is allocated, or not, and put into the queue.\<close>

definition queue_packet_locks :: "act list" where
  "queue_packet_locks = [Either [] [Queue_guard [Queue_op]]]"

definition tcp_connected_locks :: "act list" where
  "tcp_connected_locks = queue_packet_locks"

definition tcp_poll_locks :: "act list" where
  "tcp_poll_locks = Queue_guard [Queue_op] # [Either [] queue_packet_locks]"

definition tcp_recv_locks :: "act list" where
  "tcp_recv_locks = queue_packet_locks"

definition tcp_sent_locks :: "act list" where
  "tcp_sent_locks = queue_packet_locks"

definition tcp_error_locks :: "act list" where
  "tcp_error_locks = Either remove_events_locks [] # queue_packet_locks"

definition tcp_dns_found_locks :: "act list" where
  "tcp_dns_found_locks = [Queue_guard [Either [] [Queue_op]]]"

section \<open>The wrappers\<close>

text \<open>\<open>_tcp_output\<close>, \<open>_tcp_write\<close> and \<open>_tcp_recved\<close> test the pcb twice: before the lock is taken and under it.\<close>

definition tcp_call_locks :: "act list" where
  "tcp_call_locks = [Either [] [Wrapper [Either [] [Raw]]]]"

definition close_api_locks :: "act list" where
  "close_api_locks = [Either (reset_callbacks_locks @ [Raw, Either [Raw] []]) remove_events_locks]"

definition tcp_close_locks :: "act list" where
  "tcp_close_locks = [Wrapper close_api_locks]"

definition abort_api_locks :: "act list" where
  "abort_api_locks = [Either (reset_callbacks_locks @ [Raw]) remove_events_locks]"

definition tcp_abort_locks :: "act list" where
  "tcp_abort_locks = [Either [] [Wrapper abort_api_locks]]"

text \<open>\<open>_tcp_connect\<close>, \<open>_tcp_bind\<close> and \<open>_tcp_listen_with_backlog\<close> have no direct path.\<close>

definition tcp_connect_locks :: "act list" where
  "tcp_connect_locks = [Either [] [Api_call [Raw]]]"

definition close_or_abort_locks :: "act list" where
  "close_or_abort_locks = Raw # [Either [Raw] []]"

definition tcp_bind_locks :: "act list" where
  "tcp_bind_locks = [Either [] [Api_call (Raw # [Either close_or_abort_locks []])]]"

definition tcp_listen_locks :: "act list" where
  "tcp_listen_locks = [Either [] [Api_call [Raw]]]"

section \<open>Promotion and admission of TLS connections\<close>

text \<open>The client made for an accepted pcb is deleted only when it has no pcb; its \<open>_close\<close> then runs no handler.\<close>

definition serve_tls_locks :: "act list" where
  "serve_tls_locks =
     [Either (Raw # Raw # [Either [Queue_guard [Queue_op]] (Raw # [Either tcp_error_locks []])])
             [Either tcp_close_locks [Raw]]]"

definition accept_tls_locks :: "act list" where
  "accept_tls_locks = [Either serve_tls_locks [Either [Raw] [Raw]]]"

definition promote_slot_locks :: "act list" where
  "promote_slot_locks = [Core_guard [Either [] serve_tls_locks]]"

definition s_poll_locks :: "act list" where
  "s_poll_locks = [Either [Raw] [Either promote_slot_locks []]]"

definition s_recv_locks :: "act list" where
  "s_recv_locks = [Either [Raw] []]"

text \<open>\<open>onAccept\<close> of the TLS hooks, or the plain accept; \<open>setNoDelay\<close> writes into the pcb.\<close>

definition tcp_accept_locks :: "act list" where
  "tcp_accept_locks =
     [Either [] [Either accept_tls_locks
       [Either (Raw # Raw # [Either [Queue_guard [Queue_op]] (Raw # [Either tcp_error_locks []])])
               [Either tcp_close_locks [Raw]]]]]"

section \<open>The operations of a client\<close>

text \<open>\<open>a h i\<close> is what the \<open>i\<close>th call of handler \<open>h\<close> does.\<close>

datatype app_handler = On_connect | On_disconnect | On_ack | On_error | On_data | On_packet | On_timeout | On_poll | On_client

type_synonym app_code = "app_handler \<Rightarrow> nat \<Rightarrow> act list"

text \<open>\<open>_server_discard_cb\<close> is \<open>_conn_done\<close>, which promotes a parked connection.\<close>

definition discard_locks :: "app_code \<Rightarrow> act list" where
  "discard_locks a = [Either (a On_disconnect 0) [], Either promote_slot_locks []]"

definition close_impl_locks :: "app_code \<Rightarrow> act list" where
  "close_impl_locks a = tcp_close_locks @ [Either (discard_locks a) []]"

definition close_locks :: "app_code \<Rightarrow> act list" where
  "close_locks a = Either [Either tcp_call_locks []] [] # close_impl_locks a"

definition error_locks :: "app_code \<Rightarrow> act list" where
  "error_locks a = Either (a On_error 0) [] # [Either [] (discard_locks a)]"

definition abort_locks :: "app_code \<Rightarrow> act list" where
  "abort_locks a = tcp_abort_locks @ [Either (error_locks a) []]"

definition connect_locks :: "act list" where
  "connect_locks =
     [Either [] [Either [Core_guard [Raw]]
       (Core_guard [Raw, Raw] # tcp_connect_locks @ [Either [Core_guard (reset_callbacks_locks @ [Raw])] []])]]"

definition connect_host_locks :: "act list" where
  "connect_host_locks = [Either [] [Either [Core_guard []] (Core_guard [Raw] # [Either connect_locks []])]]"

definition space_locks :: "act list" where
  "space_locks = [Either [] [Core_guard [Raw]]]"

text \<open>mbedTLS sends through \<open>_lwip_ssl_send\<close>, any number of times; \<open>_lwip_ssl_recv\<close> reads memory.\<close>

definition ssl_send_locks :: "act list" where
  "ssl_send_locks = [Either [] [Core_guard (Raw # [Either [Raw] []])]]"

definition mbed_locks :: "nat \<Rightarrow> act list" where
  "mbed_locks n = concat (replicate n ssl_send_locks)"

definition add_locks :: "nat \<Rightarrow> act list" where
  "add_locks n = [Either [] (space_locks @ [Either [] (Either (mbed_locks n) [] # [Either [] tcp_call_locks])])]"

definition write_locks :: "nat \<Rightarrow> act list" where
  "write_locks n = add_locks n @ [Either [] tcp_call_locks]"

definition ack_locks :: "act list" where
  "ack_locks = [Either tcp_call_locks []]"

section \<open>The handlers of events\<close>

definition fail_tls_locks :: "app_code \<Rightarrow> act list" where
  "fail_tls_locks a = Either (a On_error 0) [] # close_locks a"

text \<open>The loop that reads decrypted data, \<open>m\<close> records from the \<open>i\<close>th on, \<open>n\<close> sends in each read.\<close>

fun read_loop_locks :: "app_code \<Rightarrow> nat \<Rightarrow> nat \<Rightarrow> nat \<Rightarrow> act list" where
  "read_loop_locks a n i 0 = mbed_locks n"
| "read_loop_locks a n i (Suc m) = mbed_locks n @ Either (a On_data i) [] # [Either [] (read_loop_locks a n (Suc i) m)]"

definition tls_recv_locks :: "app_code \<Rightarrow> nat \<Rightarrow> nat \<Rightarrow> act list" where
  "tls_recv_locks a n m =
     [Either [] (Either tcp_call_locks [] #
       [Either (mbed_locks n @ [Either (a On_connect 0) [], Either (fail_tls_locks a) []])
               (read_loop_locks a n 0 m @ [Either []
                  [Either (fail_tls_locks a) [Either [] (tcp_call_locks @ read_loop_locks a n m m)]]])])]"

text \<open>The loop over the pbufs of a plain connection. It breaks when a handler has closed the client.\<close>

fun recv_loop_locks :: "app_code \<Rightarrow> nat \<Rightarrow> nat \<Rightarrow> act list" where
  "recv_loop_locks a i 0 = []"
| "recv_loop_locks a i (Suc m) =
     [Either (a On_packet i @ [Either [] (recv_loop_locks a (Suc i) m)])
             (Either (a On_data i) [] # [Either [] (Either tcp_call_locks [] # recv_loop_locks a (Suc i) m)])]"

definition recv_impl_locks :: "app_code \<Rightarrow> nat \<Rightarrow> nat \<Rightarrow> act list" where
  "recv_impl_locks a n m = [Either (tls_recv_locks a n m) (recv_loop_locks a 0 m)]"

definition fin_locks :: "app_code \<Rightarrow> act list" where
  "fin_locks a = [Either [] (close_locks a)]"

definition sent_locks :: "app_code \<Rightarrow> act list" where
  "sent_locks a = [Either [] [Either (a On_ack 0) []]]"

definition poll_locks :: "app_code \<Rightarrow> act list" where
  "poll_locks a =
     [Either [] [Either (a On_timeout 0) [Either (close_impl_locks a) [Either (fail_tls_locks a) [Either (a On_poll 0) []]]]]]"

definition connected_locks :: "app_code \<Rightarrow> act list" where
  "connected_locks a = [Either [Either (fail_tls_locks a) []] [Either (a On_connect 0) []]]"

definition dns_found_locks :: "app_code \<Rightarrow> act list" where
  "dns_found_locks a = [Either connect_locks (error_locks a)]"

text \<open>Aborting and deleting a client; its destructor closes what is left.\<close>

definition drop_locks :: "app_code \<Rightarrow> act list" where
  "drop_locks a = abort_locks a @ close_locks a"

definition accepted_tls_locks :: "app_code \<Rightarrow> nat \<Rightarrow> nat \<Rightarrow> act list" where
  "accepted_tls_locks a n m = [Either (drop_locks a) (Either (recv_impl_locks a n m) [] # [Either (a On_client 0) []])]"

definition accepted_locks :: "app_code \<Rightarrow> nat \<Rightarrow> nat \<Rightarrow> act list" where
  "accepted_locks a n m = [Either (accepted_tls_locks a n m) [Either (a On_client 0) []]]"

definition handle_event_locks :: "app_code \<Rightarrow> nat \<Rightarrow> nat \<Rightarrow> act list" where
  "handle_event_locks a n m =
     [Either (recv_impl_locks a n m) [Either (fin_locks a) [Either (sent_locks a) [Either (poll_locks a) [Either (error_locks a)
       [Either (connected_locks a) [Either (accepted_locks a n m) [Either (drop_locks a) [Either (dns_found_locks a) []]]]]]]]]]"

section \<open>The listener\<close>

definition begin_locks :: "act list" where
  "begin_locks =
     [Either [] (Core_guard [Raw] # [Either [] (tcp_bind_locks @ [Either [] (tcp_listen_locks @
        [Either [Either [Core_guard close_or_abort_locks] []] [Core_guard [Raw]]])])])]"

definition end_locks :: "act list" where
  "end_locks = [Core_guard [Either (Raw # close_or_abort_locks) []]]"

lemmas lock_code =
  get_event_locks_def remove_events_locks_def reset_callbacks_locks_def queue_packet_locks_def tcp_connected_locks_def tcp_poll_locks_def
  tcp_recv_locks_def tcp_sent_locks_def tcp_error_locks_def tcp_dns_found_locks_def tcp_call_locks_def close_api_locks_def
  tcp_close_locks_def abort_api_locks_def tcp_abort_locks_def tcp_connect_locks_def close_or_abort_locks_def tcp_bind_locks_def
  tcp_listen_locks_def serve_tls_locks_def accept_tls_locks_def promote_slot_locks_def s_poll_locks_def s_recv_locks_def
  tcp_accept_locks_def discard_locks_def close_impl_locks_def close_locks_def error_locks_def abort_locks_def connect_locks_def
  connect_host_locks_def space_locks_def ssl_send_locks_def add_locks_def write_locks_def ack_locks_def fail_tls_locks_def
  fin_locks_def sent_locks_def poll_locks_def connected_locks_def dns_found_locks_def drop_locks_def accepted_tls_locks_def
  accepted_locks_def handle_event_locks_def recv_impl_locks_def tls_recv_locks_def begin_locks_def end_locks_def

section \<open>What tasks and lwIP's thread run\<close>

text \<open>
  A task calls operations of the library, one after the other; the service task takes events and handles them, any number of times. The
  handlers are called with no lock held and do the same as any task. \<open>beginSecure\<close> of a client is \<open>connect_host\<close>, of a server \<open>begin_server\<close>, and
  deleting a client or a server closes it.
\<close>

inductive task_code :: "act list \<Rightarrow> bool" where
  nothing: "task_code []"
| more: "task_code p \<Longrightarrow> task_code p' \<Longrightarrow> task_code (p @ p')"
| get_event: "task_code (get_event_locks n)"
| handle_event: "(\<And>h i. task_code (a h i)) \<Longrightarrow> task_code (handle_event_locks a n m)"
| close: "(\<And>h i. task_code (a h i)) \<Longrightarrow> task_code (close_locks a)"
| abort: "(\<And>h i. task_code (a h i)) \<Longrightarrow> task_code (abort_locks a)"
| connect: "task_code connect_locks"
| connect_host: "task_code connect_host_locks"
| space: "task_code space_locks"
| add: "task_code (add_locks n)"
| write_data: "task_code (write_locks n)"
| send: "task_code tcp_call_locks"
| ack: "task_code ack_locks"
| begin_server: "task_code begin_locks"
| end_server: "task_code end_locks"

text \<open>lwIP runs its callbacks on its own thread, which takes the core lock for its own work and for any number of them.\<close>

inductive lwip_callbacks :: "act list \<Rightarrow> bool" where
  "lwip_callbacks []"
| "b \<in> {[Raw], tcp_connected_locks, tcp_poll_locks, tcp_recv_locks, tcp_sent_locks, tcp_error_locks, tcp_dns_found_locks, tcp_accept_locks,
     s_poll_locks, s_recv_locks} \<Longrightarrow> lwip_callbacks k \<Longrightarrow> lwip_callbacks (b @ k)"

inductive lwip_code :: "act list \<Rightarrow> bool" where
  "lwip_code []"
| "lwip_callbacks b \<Longrightarrow> lwip_code k \<Longrightarrow> lwip_code (Api_call b # k)"

section \<open>All of it keeps the discipline\<close>

lemma mbed_disciplined [simp]: "list_all (disciplined False False) (mbed_locks n)"
  by (induction n) (simp_all add: mbed_locks_def ssl_send_locks_def)

lemma read_loop_disciplined:
  assumes "\<And>h i. list_all (disciplined False False) (a h i)"
  shows "list_all (disciplined False False) (read_loop_locks a n i m)"
  by (induction m arbitrary: i) (simp_all add: assms)

lemma recv_loop_disciplined:
  assumes "\<And>h i. list_all (disciplined False False) (a h i)"
  shows "list_all (disciplined False False) (recv_loop_locks a i m)"
  by (induction m arbitrary: i) (simp_all add: assms tcp_call_locks_def)

lemma task_disciplined: "task_code p \<Longrightarrow> list_all (disciplined False False) p"
  by (induction rule: task_code.induct) (simp_all add: lock_code read_loop_disciplined recv_loop_disciplined list_all_iff [of _ "replicate _ _"])

lemma callbacks_disciplined: "lwip_callbacks b \<Longrightarrow> list_all (disciplined True False) b"
  by (induction rule: lwip_callbacks.induct) (auto simp: lock_code)

lemma lwip_disciplined: "lwip_code p \<Longrightarrow> list_all (disciplined False False) p"
  by (induction rule: lwip_code.induct) (simp_all add: callbacks_disciplined)

section \<open>Tasks do not deadlock\<close>

definition library_code :: "act list \<Rightarrow> bool" where
  "library_code p \<longleftrightarrow> task_code p \<or> lwip_code p"

lemma library_holds:
  assumes "\<forall>t \<in> T. library_code (p t)" and "\<forall>t. t \<notin> T \<longrightarrow> p t = []" and "runs p n S"
  shows "holds S"
proof (rule holds_runs [OF assms(3)], rule allI)
  show "list_all (disciplined False False) (p t)" for t
    using assms(1,2) by (cases "t \<in> T") (auto simp: library_code_def intro: task_disciplined lwip_disciplined)
qed

text \<open>
  C12: Any number of tasks that use the library, with handlers that use it again, and lwIP's thread never deadlock: whatever the interleaving, as
  long as one of them has something left to do one of them can go on, and who has the mutex of the queue never waits; every execution ends, after at most as many steps as the code has;
  and at the end neither lock is held.
\<close>

theorem library_never_deadlocks:
  assumes "finite T" and "\<forall>t \<in> T. library_code (p t)" and "\<forall>t. t \<notin> T \<longrightarrow> p t = []" and "runs p n S"
  shows "((\<exists>t. code S t \<noteq> []) \<longrightarrow> (\<exists>S'. threads_step S S'))
    \<and> (\<forall>t. queue_owner (lk S) = Some t \<longrightarrow> (\<exists>L' k'. thread_step t (lk S) (code S t) L' k'))
    \<and> n \<le> (\<Sum>t \<in> T. sum_list (map weight (p t)))
    \<and> ((\<forall>t. code S t = []) \<longrightarrow> core_owner (lk S) = None \<and> queue_owner (lk S) = None)"
proof -
  have h: "holds S" by (rule library_holds [OF assms(2,3,4)])
  have "n \<le> (\<Sum>t \<in> T. sum_list (map weight (p t)))" using runs_bounded [OF assms(4,1,3)] by simp
  moreover have "core_owner (lk S) = None \<and> queue_owner (lk S) = None" if "\<forall>t. code S t = []"
  proof -
    have "core_owner (lk S) \<noteq> Some t \<and> queue_owner (lk S) \<noteq> Some t" for t using h that by (simp add: holds_def)
    then show ?thesis by (metis not_None_eq)
  qed
  moreover have "\<exists>L' k'. thread_step t (lk S) (code S t) L' k'" if q: "queue_owner (lk S) = Some t" for t
  proof -
    have ok: "stack_ok (core_owner (lk S) = Some t) True (code S t)" using h q by (auto simp: holds_def dest: spec [of _ t])
    then have "code S t \<noteq> []" by auto
    from can_step [OF ok this refl] q show ?thesis by simp
  qed
  ultimately show ?thesis using holds_progress [OF h] by blast
qed

text \<open>
  C13: The locks protect what they are for. A thread about to call lwIP has the core lock and a thread about to access the event queue has the
  mutex, so that no two threads are in lwIP, or in the queue, at the same time. The operations are those of \<open>task_code\<close>: \<open>state\<close>, \<open>setNoDelay\<close> and the other
  accessors of a client, which read or set a field of the pcb, take no lock.
\<close>

theorem locks_protect:
  assumes "\<forall>t \<in> T. library_code (p t)" and "\<forall>t. t \<notin> T \<longrightarrow> p t = []" and "runs p n S"
  shows "(code S t = Do Raw # k \<longrightarrow> core_owner (lk S) = Some t) \<and> (code S t = Do Queue_op # k \<longrightarrow> queue_owner (lk S) = Some t)
    \<and> (t \<noteq> u \<longrightarrow> \<not> (code S t = Do Raw # k \<and> code S u = Do Raw # k') \<and> \<not> (code S t = Do Queue_op # k \<and> code S u = Do Queue_op # k'))"
proof -
  have ok: "stack_ok (core_owner (lk S) = Some v) (queue_owner (lk S) = Some v) (code S v)" for v
    using library_holds [OF assms] by (simp add: holds_def)
  show ?thesis using ok [of t] ok [of u] by auto
qed

section \<open>Schedules\<close>

text \<open>A step of thread \<open>t\<close> that takes the left or the right branch, as a function.\<close>

fun take_step :: "tid \<Rightarrow> bool \<Rightarrow> locks \<Rightarrow> item list \<Rightarrow> (locks \<times> item list) option" where
  "take_step t l L [] = None"
| "take_step t l L (Do Raw # k) = Some (L, k)"
| "take_step t l L (Do Queue_op # k) = Some (L, k)"
| "take_step t l L (Do (Core_guard b) # k) = map_option (\<lambda>(d, L'). (L', map Do b @ Leave_core d # k)) (core_guard_enter t L)"
| "take_step t l L (Do (Wrapper b) # k) = map_option (\<lambda>(d, L'). (L', map Do b @ Leave_core d # k)) (wrapper_enter t L)"
| "take_step t l L (Do (Api_call b) # k) = map_option (\<lambda>L'. (L', map Do b @ Leave_core True # k)) (lock_core t L)"
| "take_step t l L (Do (Queue_guard b) # k) = map_option (\<lambda>L'. (L', map Do b @ Leave_queue # k)) (queue_guard_enter t L)"
| "take_step t l L (Do (Either a b) # k) = Some (L, map Do (if l then a else b) @ k)"
| "take_step t l L (Leave_core d # k) = Some (core_guard_leave d L, k)"
| "take_step t l L (Leave_queue # k) = Some (queue_guard_leave L, k)"

lemma take_step_sound: "take_step t l L k = Some (L', k') \<Longrightarrow> thread_step t L k L' k'"
  by (induction t l L k rule: take_step.induct) (auto intro: thread_step.intros split: if_splits)

lemma take_step_complete: "thread_step t L k L' k' \<Longrightarrow> \<exists>l. take_step t l L k = Some (L', k')"
  by (cases rule: thread_step.cases, assumption) (auto intro: exI [of _ True] exI [of _ False])

fun schedule :: "(tid \<times> bool) list \<Rightarrow> threads \<Rightarrow> threads option" where
  "schedule [] S = Some S"
| "schedule ((t, l) # w) S =
     (case take_step t l (lk S) (code S t) of None \<Rightarrow> None | Some (L, k) \<Rightarrow> schedule w \<lparr>lk = L, code = (code S)(t := k)\<rparr>)"

lemma schedule_runs: "schedule w S = Some S' \<Longrightarrow> runs p n S \<Longrightarrow> runs p (n + length w) S'"
proof (induction w arbitrary: S n)
  case (Cons x w)
  obtain t l where x: "x = (t, l)" by fastforce
  with Cons.prems(1) obtain L k where k: "take_step t l (lk S) (code S t) = Some (L, k)"
    and w: "schedule w \<lparr>lk = L, code = (code S)(t := k)\<rparr> = Some S'" by (auto split: option.splits)
  from Cons.IH [OF w runs.step [OF Cons.prems(2) threads_step.intros [OF take_step_sound [OF k]]]] show ?case by simp
qed simp

definition started :: "(tid \<Rightarrow> act list) \<Rightarrow> threads" where
  "started p = \<lparr>lk = \<lparr>core_owner = None, queue_owner = None\<rparr>, code = (\<lambda>t. map Do (p t))\<rparr>"

lemma schedule_run:
  assumes "\<exists>S. schedule w (started p) = Some S \<and> P S" and "length w = n"
  shows "\<exists>S. runs p n S \<and> P S"
  using assms schedule_runs [of w "started p" _ p 0] runs.start [of p] by (auto simp: started_def)

lemmas lock_steps = started_def wrapper_is_guard core_guard_enter_def core_guard_leave_def lock_core_def queue_guard_enter_def
  queue_guard_leave_def

text \<open>A task that closes a client and dials again when it is closed, and lwIP, which brings data.\<close>

definition redial :: app_code where
  "redial h i = (if h = On_disconnect then connect_locks else [])"

definition closing_and_receiving :: "tid \<Rightarrow> act list" where
  "closing_and_receiving t = (if t = 0 then close_locks redial else if t = 1 then [Api_call tcp_recv_locks] else [])"

lemma closing_and_receiving_code:
  "\<forall>t \<in> {0, 1}. library_code (closing_and_receiving t)" "\<forall>t. t \<notin> {0, 1} \<longrightarrow> closing_and_receiving t = []"
proof -
  have "task_code (redial h i)" for h i by (simp add: redial_def task_code.connect task_code.nothing)
  then have "task_code (closing_and_receiving 0)" by (simp add: closing_and_receiving_def task_code.close)
  moreover have "lwip_code (closing_and_receiving 1)"
    using lwip_callbacks.intros(2) [of tcp_recv_locks "[]"] by (simp add: closing_and_receiving_def lwip_code.intros lwip_callbacks.intros)
  ultimately show "\<forall>t \<in> {0, 1}. library_code (closing_and_receiving t)" by (simp add: library_code_def)
qed (simp add: closing_and_receiving_def)

lemma closing_and_receiving_run:
  "\<exists>S. runs closing_and_receiving 3 S \<and> core_owner (lk S) = Some 0 \<and> (\<exists>k. code S 0 = Do Raw # k) \<and> code S 1 = [Do (Api_call tcp_recv_locks)]"
  by (rule schedule_run [where w = "[(0, False), (0, False), (0, True)]"])
    (simp_all add: lock_steps closing_and_receiving_def close_locks_def close_impl_locks_def tcp_close_locks_def close_api_locks_def
      reset_callbacks_locks_def)

theorem library_never_deadlocks_witness:
  "\<exists>S S'. runs closing_and_receiving 3 S \<and> core_owner (lk S) = Some 0 \<and> code S 1 = [Do (Api_call tcp_recv_locks)] \<and> threads_step S S'"
proof -
  obtain S where S: "runs closing_and_receiving 3 S" "core_owner (lk S) = Some 0" "code S 1 = [Do (Api_call tcp_recv_locks)]"
    using closing_and_receiving_run by blast
  have "\<exists>S'. threads_step S S'"
    using library_never_deadlocks [OF _ closing_and_receiving_code S(1)] S(3) by (metis finite.emptyI finite.insertI list.distinct(1))
  with S show ?thesis by auto
qed

theorem locks_protect_witness:
  "\<exists>S k. runs closing_and_receiving 3 S \<and> code S 0 = Do Raw # k \<and> core_owner (lk S) = Some 0 \<and> code S 1 \<noteq> Do Raw # k"
proof -
  obtain S k where S: "runs closing_and_receiving 3 S" "code S 0 = Do Raw # k" using closing_and_receiving_run by blast
  with locks_protect [OF closing_and_receiving_code S(1), of 0 k 1 k] show ?thesis by auto
qed

section \<open>Where the locks do not help\<close>

text \<open>With the core lock in hand, \<open>connect\<close> waits for itself: \<open>_tcp_connect\<close> does not look whether its thread has the lock.\<close>

lemma connect_under_core_lock_hangs:
  "\<exists>S. runs (\<lambda>t. if t = 0 then [Core_guard connect_locks] else []) 8 S \<and> code S 0 \<noteq> [] \<and> (\<forall>S'. \<not> threads_step S S')"
proof -
  let ?p = "\<lambda>t :: tid. if t = 0 then [Core_guard connect_locks] else []"
  have "\<exists>S. runs ?p 8 S \<and> core_owner (lk S) = Some 0 \<and> (\<exists>k. code S 0 = Do (Api_call [Raw]) # k) \<and> (\<forall>t. t \<noteq> 0 \<longrightarrow> code S t = [])"
    by (rule schedule_run [where w = "[(0, False), (0, False), (0, False), (0, False), (0, True), (0, True), (0, True), (0, False)]"])
      (simp_all add: lock_steps connect_locks_def tcp_connect_locks_def)
  then obtain S k where S: "runs ?p 8 S" "core_owner (lk S) = Some 0" "code S 0 = Do (Api_call [Raw]) # k" "\<forall>t. t \<noteq> 0 \<longrightarrow> code S t = []" by blast
  have "\<not> threads_step S S'" for S'
  proof
    assume "threads_step S S'"
    then show False
      by cases (metis S(2-4) lock_core_def not_Some_eq option.map(1) take_step.simps(1,6) take_step_complete)
  qed
  with S show ?thesis by auto
qed

text \<open>
  \<open>space\<close> tests the pcb and its state before it takes the lock, and reads the pcb under the lock; None stands for a null pointer that is
  dereferenced.
\<close>

definition space_test :: "lwip \<Rightarrow> cid \<Rightarrow> ('h, 'm) sys_scheme \<Rightarrow> bool" where
  "space_test E c s =
     (case c_pcb (cl s c) of None \<Rightarrow> False | Some p \<Rightarrow> pcb_state E (trace s) p = ESTABLISHED \<or> pcb_state E (trace s) p = CLOSE_WAIT)"

definition space_read :: "lwip \<Rightarrow> cid \<Rightarrow> ('h, 'm) sys_scheme \<Rightarrow> u32 option" where
  "space_read E c s = map_option (sndbuf E (trace s)) (c_pcb (cl s c))"

lemma space_in_one_go: "space E c s = (if space_test E c s then the (space_read E c s) else 0)"
  by (simp add: space_def space_test_def space_read_def split: option.split)

text \<open>
  C18: Between the test and the read of \<open>space\<close> the core lock is free, and lwIP may report an error of the connection there: one thread is then
  about to take the lock for the read, the other is done with \<open>tcp_error\<close>, which has cleared \<open>_pcb\<close>, and the read dereferences a null pointer.
\<close>

theorem space_race:
  assumes "space_test E c s" and "tcp_error E H c e s = Some s'"
  shows "space_read E c s' = None
    \<and> (\<exists>S. runs (\<lambda>t. if t = 0 then space_locks else if t = 1 then [Api_call tcp_error_locks] else []) 11 S
        \<and> code S 0 = [Do (Core_guard [Raw])] \<and> code S 1 = [] \<and> core_owner (lk S) = None)"
proof
  have "c_pcb (cl s c) \<noteq> None" using assms(1) by (simp add: space_test_def split: option.splits)
  with assms(2) show "space_read E c s' = None"
    by (auto simp: tcp_error_def space_read_def set_pcb_def bind_eq_Some_conv)
  show "\<exists>S. runs (\<lambda>t. if t = 0 then space_locks else if t = 1 then [Api_call tcp_error_locks] else []) 11 S
      \<and> code S 0 = [Do (Core_guard [Raw])] \<and> code S 1 = [] \<and> core_owner (lk S) = None"
    by (rule schedule_run [where w = "[(0, False), (1, True), (1, True), (1, True), (1, True), (1, True), (1, False), (1, True), (1, True), (1, True), (1, True)]"])
      (simp_all add: lock_steps space_locks_def tcp_error_locks_def remove_events_locks_def queue_packet_locks_def)
qed

theorem space_race_witness:
  "\<exists>s'. space calm 1 (upd 1 (\<lambda>k. k\<lparr>c_pcb := Some 10\<rparr>) (boot :: unit sys)) = 5744
    \<and> tcp_error calm default_hooks 1 ERR_RST (upd 1 (\<lambda>k. k\<lparr>c_pcb := Some 10\<rparr>) (boot :: unit sys)) = Some s' \<and> space_read calm 1 s' = None"
proof -
  let ?s = "upd 1 (\<lambda>k. k\<lparr>c_pcb := Some 10\<rparr>) (boot :: unit sys)"
  have sp: "space_test calm 1 ?s" "space calm 1 ?s = 5744" by (simp_all add: space_test_def space_def calm_def)
  obtain s' where e: "tcp_error calm default_hooks 1 ERR_RST ?s = Some s'"
    by (auto simp: tcp_error_def default_hooks_def)
  from space_race [OF sp(1) e] sp(2) e show ?thesis by blast
qed

end
