(* ===== verification/Spec2Isabelle.thy ===== *)
theory Spec2Isabelle
  imports System_Laws Credit Key_Parsing X509_Insecure Park_System Bear_World Library_Locks
begin

text \<open>
  \<^bold>\<open>AsyncTCP\<close>: asynchronous TCP for ESP32 and ESP8266 on top of the raw API of lwIP, with TLS by mbedTLS
  (ESP32) or BearSSL (ESP8266). This development models the library's own code and states what holds of it.

  \<^bold>\<open>The program.\<close> lwIP calls the library from its own thread. Each such callback (\<open>src/AsyncTCP.cpp\<close>, \<open>tcp_recv\<close>,
  \<open>tcp_sent\<close>, \<open>tcp_error\<close>, ...) makes an event packet and puts it into the global queue \<open>_async_queue\<close>, an intrusive list
  (\<open>src/AsyncTCPSimpleIntrusiveList.h\<close>). A service task (on ESP8266 a scheduled function) takes events from the queue,
  coalescing and discarding polls, and calls the client or server they name (\<open>AsyncTCP_detail::handle_async_event\<close>); the client
  (\<open>AsyncClientImpl\<close>) updates its state and calls the application through its facade (\<open>AsyncClient\<close>). The application
  calls back into the library: connect, write, acknowledge, close, delete itself. TLS is a set of hooks
  (\<open>AsyncClientHooks\<close>, \<open>AsyncServerHooks\<close>) the transport calls when they are installed: \<open>src/AsyncSecureClient.cpp\<close> and
  \<open>src/AsyncSecureServer.cpp\<close> over the session of \<open>src/AsyncSecureSession.cpp\<close>. A TLS server admits a bounded number of
  sessions and parks further connections in a static pool (\<open>src/AsyncTCPParkQueue.h\<close>).

  \<^bold>\<open>The model.\<close> A client, a server, an event, a session are records with the members of their classes. The state of the system
  is the record \<open>sys\<close>, which the ESP8266 build extends (\<open>esys\<close>: the connections of the engine layer and its scheduled functions); the transport is
  written for any extension and any type of TLS session. It has clients and servers by identity, the queue as the list of its packets, the park
  pool, the random state, and the \<open>trace\<close>, the list of all calls made so far to lwIP, to the TLS library and to the application. Code that is not in the repository is a
  parameter: the record \<open>lwip\<close> (what lwIP, the clock and the heap answer), \<open>mbed\<close> (mbedTLS), \<open>bear\<close> (the BearSSL engine), \<open>pem_decoder\<close>, \<open>hmac\<close>, \<open>cbc\<close>
  (BearSSL). Their answers are functions of the trace, so they may change from call to call; nothing is assumed of them
  but what a theorem says. The application is a function from the trace to the commands it gives in a callback. A callback that
  deletes the client, or closes it, or calls back, is followed literally: the transport functions of the model are
  state transformers with values in \<open>option\<close>, None when the fuel for nested callbacks is used up.

  \<^bold>\<open>Ownership.\<close> The implementation of a client is owned by its facade, by the queued events that name it, and by what \<open>c_pins\<close> counts: the
  event being handled and the contexts of name lookups. The last of them to go destroys it (\<open>release\<close>), at once and in the middle of whatever runs:
  in \<open>drop_facade\<close>, the application's \<open>delete\<close>, also inside a callback, and at the end of an event. The callback contexts are marked, as the destructor
  does. The model can still look at a destroyed object, where the code would read freed memory: \<open>c_freed_read\<close> is a ghost that \<open>note_freed\<close> sets where a member function
  goes on with the object after a callback destroyed it. In \<open>_close\<close>, \<open>_error\<close>, \<open>add\<close>, \<open>write\<close> and \<open>_s_ssl_error\<close> that can happen;
  \<open>System_Laws.close_is_final\<close> says when it does in \<open>close\<close>. Only the references of lookup contexts and of discarded
  polls end in a step of their own (\<open>Destroy\<close>): a poll holding the last reference is destroyed under the mutex of the queue, which the model does not follow.

  \<^bold>\<open>Fuel.\<close> Only a call that takes the pcb or the queued events of some client away runs a callback from inside another call, so
  callbacks nest no deeper than the number of clients that are live or have events (\<open>work\<close>). Every fuel above that number gives
  a result; \<open>App.callbacks_end\<close> and \<open>System_Laws.close_is_final\<close> prove it, and the latter states the bound. The loops whose
  end is up to a library (reading decrypted data, the PEM decoder) are partial functions with None for a run that does not end.

  \<^bold>\<open>The theories\<close>, in the order of their dependencies:
  \<^item> \<open>Prelude\<close>: integer types, generic facts. \<open>Lwip\<close>: error codes, states, the calls and answers of the environment.
  \<^item> \<open>Intrusive_List\<close>: \<open>SimpleIntrusiveList\<close> on an explicit heap with its pointer-to-pointer tail. The locale \<open>event_container\<close> is the
    interface the queue needs; the interpretation shows that the pointer structure provides it, that is, any sequence of
    operations behaves as on a plain list. \<open>Event_Queue\<close> relies on that and works with lists: packets, \<open>_get_async_event\<close>,
    purging, the generator behind the discard policy.
  \<^item> \<open>Park_Queue\<close>: the static pool with its free scan and its links, and a refinement to a bounded first-in first-out queue.
  \<^item> \<open>Client_State\<close>: the records of client, server and system, setters, queries. \<open>Tcp_Api\<close>: the wrappers \<open>_tcp_close\<close>, \<open>_tcp_abort\<close>, ...
    in the build with an operating system and the one without, and where they agree.
  \<^item> \<open>Client\<close>: the operations of \<open>AsyncClientImpl\<close>, those of the application and those the service task calls, the callback
    contexts, and the destruction of the object with its last reference (\<open>pin\<close>, \<open>release\<close>, \<open>drop_facade\<close>). The locales \<open>leaf_hooks\<close> and \<open>client_hooks\<close> are the contract of
    TLS hooks: what they may change, and that they end. \<open>App\<close>: the commands of an application and the runner of nested callbacks.
  \<^item> \<open>Lwip_Callbacks\<close>, \<open>Server\<close>, \<open>Dispatch\<close>: the lwIP side, the listener, the service task (\<open>dispatch_client\<close> is what an event
    of a client does, \<open>handle_async_event\<close> the whole), and the system as the step relation \<open>sys_step\<close> with
    its reachable states; the locale \<open>world\<close> proves the invariants once for any hooks that keep the contract, and is
    interpreted for plain clients, for TLS clients and, in \<open>Bear_System\<close>, for the ESP8266. \<open>Credit\<close>: every received byte is acknowledged to lwIP or kept as credit.
  \<^item> \<open>Bio_Buffer\<close>, \<open>Tls_Session\<close>, \<open>Secure_Client\<close>, \<open>Secure_Server\<close>: TLS of the ESP32 build. The ciphertext buffer is an interpretation of the
    locale \<open>byte_fifo\<close>; mbedTLS is a program that calls the two BIO callbacks; the hooks keep the contract of \<open>Client\<close>;
    the server admits, parks, promotes and sheds.
  \<^item> \<open>Key_Parsing\<close>: keys and certificates of the ESP8266 build: DER, PEM, PBKDF2, PKCS#7, PBES2, the context of a server.
  \<^item> \<open>Bear_Engine\<close>, \<open>Bear_Laws\<close>: the engine layer of the ESP8266 build: the queue of received buffers, the pump, its scheduling, the ring of
    outbound records in the output buffer. A callback of the pump may run any code; the locale \<open>reentrant\<close> states what that code
    keeps, with an invariant \<open>K\<close> that its client may add, and its interpretation is the engine layer itself called back to any depth. \<open>Bear_Frames\<close>: what the layer leaves alone when it
    is part of a larger state, and the pump for any relation its callbacks respect (locale \<open>pump_relation\<close>).
  \<^item> \<open>Bear_Session\<close>: the session class of the ESP8266 build and its client hooks, as operations on the transport's state with the engine
    layer's in it (\<open>engine_op\<close>, \<open>engine_run\<close>); what the pump calls back (\<open>pump_others\<close>) runs the application's callbacks. A session is
    identified by the number of its client. \<open>Bear_Client\<close>: these hooks keep the contract of \<open>Client\<close> (locale \<open>bear_runner\<close>).
    \<open>Bear_Server\<close>: the server of this build, which refuses where the other parks. A handler of the application has an even number; the
    callback a TLS server sets on its clients is the library's own and has an odd one.
  \<^item> \<open>Bear_System\<close>, \<open>Bear_Properties\<close>: the ESP8266 build as a system of steps (\<open>esp_system\<close>), its invariants, and the properties of session,
    hooks and server. \<open>X509_Insecure\<close>: the certificate validator of the ESP8266 client.
  \<^item> \<open>Keeping\<close>: when an invariant of the state beside the transport's own (the park pool, the engine layer) is kept by every step of a
    system. The locales \<open>beside\<close>, \<open>leaf_keeps\<close>, \<open>hooks_keep\<close> and \<open>world_keeps\<close> ask it of the hooks only and conclude it of every \<open>sys_step\<close>.
    \<open>Park_System\<close>: the ESP32 build with TLS servers as a system of steps (\<open>esp32_system\<close>), lwIP's callbacks of parked connections among them, and the
    soundness of the pool in its reachable states. \<open>Bear_World\<close>: the connections of the engine layer in the reachable states of \<open>esp_system\<close>,
    and on top of them the admission of a connection by a TLS server of that build;
    its locale \<open>bear_keeps\<close> gives \<open>reentrant\<close> for the pump whose callbacks run the transport and the application.
  \<^item> \<open>Locking\<close>, \<open>Library_Locks\<close>: the core lock of lwIP and the mutex of the queue (\<open>src/AsyncTCPCoreGuard.h\<close>, \<open>queue_mutex_guard\<close>), threads that
    use them in any interleaving (\<open>threads_step\<close>), and what every operation of the ESP32 build does to them. The discipline \<open>disciplined\<close> is checked of
    each operation; freedom from deadlock and mutual exclusion follow from it by \<open>holds\<close>, the invariant of the runs.
  \<^item> \<open>System_Laws\<close>: what holds of the whole: no callback context is left behind, closing is final (and when it reads an object its own
    callback destroyed), stale accepts are reset and dropped, wake-ups are not lost unless the scheduler refuses.

  \<^bold>\<open>What the lemmas show\<close>, by kind. Invariants: the accounting of received bytes, callback contexts, the wake-up of the queue, the
  ring of records that lwIP may still read, the park pool and the connections of the engine layer in every reachable state of their builds. Refinement: the
  intrusive list, the park pool, the ciphertext buffer against lists. Round trips: keys, padding, DER. Equivalence: the two builds of
  the wrappers, PBKDF2 against RFC 8018. Termination: nested callbacks, those
  out of the pump of the ESP8266 included, and runs of threads. Safety: who may be in lwIP and in the queue, deadlock. Errors: a failing \<open>begin\<close>, a lost
  connection, an unreadable key. Bounds: time-outs across the wrap of the clock, the buffer's capacity. Where the code does something
  its comments exclude, the theorem states what it does, and the text before it says so.

  \<^bold>\<open>Concurrency.\<close> A step of \<open>sys_step\<close> is one lwIP callback, one event handled by the service task, or one sequence of
  calls of the application outside callbacks. The library takes the lwIP core lock around its lwIP calls and a mutex around the
  queue; what runs inside a step of the model is not interleaved with another step. The locks themselves are in \<open>Locking\<close> and
  \<open>Library_Locks\<close>, where threads interleave between any two calls: there an operation is what it does to the locks, in the order of its code, and
  data is a choice of branches, so that what is proved holds whatever the data is. The number of steps of a run is bounded by the size of the code
  (\<open>weight\<close>), which is why a run that cannot go on is finished and not starved. A race of data inside a step is modelled for \<open>space\<close> only,
  whose test precedes its lock (\<open>space_race\<close>). Builds without core locking, and the ESP8266, which has one thread, have no such locks.

  \<^bold>\<open>The pump and \<open>yield()\<close>.\<close> In \<open>Bear_Laws\<close> the code that runs while the pump yields is any code. Over the transport (\<open>Bear_Session\<close>) it is a
  parameter \<open>Y\<close>, which the contract takes to be the identity: what lwIP delivers during a \<open>yield()\<close> is then delivered before or after the pump.
  A session whose connection is gone from the engine layer (\<open>_ssl\<close> dangles) behaves as one without a connection.

  \<^bold>\<open>Addresses.\<close> An object of the engine layer is known by the address of its block, and a client or session by a number that is never used again.
  \<open>fresh_blocks\<close> says the same of the blocks: the address stands for the allocation, so that an address that is kept after \<open>free\<close>
  and a later object at the same place are told apart. What a stale address would do to the later object is outside the model.

  \<^bold>\<open>Not modelled.\<close> Logging and version macros have no state.
  The overloads for Arduino address types only convert their arguments. The choice of a fragment length and of suites in the
  configuration of mbedTLS and BearSSL is an answer of those libraries. With TLS servers in the ESP32 build the end of the loop that reads decrypted
  data is up to mbedTLS, so that no theorem says that every event of that build returns. The example sketches are applications of the library.
  What mbedTLS and BearSSL compute, and what lwIP does with a segment, is outside the repository.
\<close>

end
